(* ===== verification/Prelude.thy ===== *)
theory Prelude
  imports Main "HOL-Library.Word" "HOL-Library.AList"
begin

text \<open>
  Shared vocabulary of the development: the machine integers of the C++ code, the outcome of
  running a piece of it, and the containers of the standard library.

  \<^item> \<open>id_t\<close> (\<^verbatim>\<open>unsigned long long\<close>), \<open>u32\<close> (\<^verbatim>\<open>unsigned int\<close>, \<^verbatim>\<open>uint32_t\<close>) and \<open>byte\<close> are
    words of that width.
  \<^item> \<open>'a outcome\<close> is what a call does: it returns, it throws, it waits for ever for a lock that its
    own thread holds (\<open>Blocks\<close>), or its behaviour is undefined (\<open>Undefined\<close>: an out-of-range read,
    an indeterminate value, a broken precondition of the standard library).
  \<^item> \<^verbatim>\<open>std::unordered_map\<close> and \<^verbatim>\<open>std::unordered_set\<close> are an association list and a list with
    distinct keys. The order of the list is the order in which the code iterates, which C++ leaves
    unspecified; a new key goes to the end. Theorems quantify over all lists with distinct keys, so
    over every iteration order.
\<close>

type_synonym byte = "8 word"
type_synonym u32 = "32 word"
type_synonym u64 = "64 word"
type_synonym id_t = "64 word"

subsection \<open>Outcomes\<close>

datatype exn =
    Runtime_error string
  | Bad_optional_access
  | Bad_alloc

datatype 'a outcome = Returns 'a | Throws exn | Blocks | Undefined

primrec obind :: "'a outcome \<Rightarrow> ('a \<Rightarrow> 'b outcome) \<Rightarrow> 'b outcome" where
  "obind (Returns x) f = f x"
| "obind (Throws e) f = Throws e"
| "obind Blocks f = Blocks"
| "obind Undefined f = Undefined"

text \<open>\<open>catch_all\<close> is a \<^verbatim>\<open>try\<close> block with a \<^verbatim>\<open>catch\<close> for every exception.\<close>

primrec catch_all :: "'a outcome \<Rightarrow> (exn \<Rightarrow> 'a outcome) \<Rightarrow> 'a outcome" where
  "catch_all (Returns x) h = Returns x"
| "catch_all (Throws e) h = h e"
| "catch_all Blocks h = Blocks"
| "catch_all Undefined h = Undefined"

fun map_outcome_list :: "('a \<Rightarrow> 'b outcome) \<Rightarrow> 'a list \<Rightarrow> 'b list outcome" where
  "map_outcome_list f [] = Returns []"
| "map_outcome_list f (x # xs) =
     obind (f x) (\<lambda>y. obind (map_outcome_list f xs) (\<lambda>ys. Returns (y # ys)))"

fun fold_outcome :: "('a \<Rightarrow> 's \<Rightarrow> 's outcome) \<Rightarrow> 'a list \<Rightarrow> 's \<Rightarrow> 's outcome" where
  "fold_outcome f [] s = Returns s"
| "fold_outcome f (x # xs) s = obind (f x s) (fold_outcome f xs)"

text \<open>
  The collections of the development: \<open>run\<close> evaluates outcomes and containers forward, \<open>inv_intro\<close>
  holds the preservation lemmas.
\<close>

named_theorems run
named_theorems inv_intro

lemma obind_Returns_iff [run]:
  "obind m f = Returns y \<longleftrightarrow> (\<exists>x. m = Returns x \<and> f x = Returns y)"
  by (cases m) auto

lemma obind_assoc [simp]: "obind (obind m f) g = obind m (\<lambda>x. obind (f x) g)"
  by (cases m) auto

lemma obind_Returns_right [simp]: "obind m Returns = m"
  by (cases m) auto

lemma obind_cong [fundef_cong]:
  "m = m' \<Longrightarrow> (\<And>x. m' = Returns x \<Longrightarrow> f x = g x) \<Longrightarrow> obind m f = obind m' g"
  by (cases m') auto

lemma map_outcome_list_Returns:
  "(\<And>x. x \<in> set xs \<Longrightarrow> f x = Returns (g x)) \<Longrightarrow> map_outcome_list f xs = Returns (map g xs)"
  by (induction xs) auto

lemma map_outcome_list_cong [fundef_cong]:
  "xs = ys \<Longrightarrow> (\<And>x. x \<in> set ys \<Longrightarrow> f x = g x) \<Longrightarrow> map_outcome_list f xs = map_outcome_list g ys"
  by (induction ys arbitrary: xs) auto

lemma map_outcome_list_length:
  "map_outcome_list f xs = Returns ys \<Longrightarrow> length ys = length xs"
  by (induction xs arbitrary: ys) (auto simp: run)

lemma map_outcome_list_elem:
  "map_outcome_list f xs = Returns ys \<Longrightarrow> y \<in> set ys \<Longrightarrow> \<exists>x \<in> set xs. f x = Returns y"
  by (induction xs arbitrary: ys) (auto simp: run)

lemma fold_outcome_append:
  "fold_outcome f (xs @ ys) s = obind (fold_outcome f xs s) (fold_outcome f ys)"
proof (induction xs arbitrary: s)
  case (Cons x xs)
  then have "fold_outcome f (xs @ ys) = (\<lambda>s. obind (fold_outcome f xs s) (fold_outcome f ys))"
    by (rule ext)
  then show ?case by simp
qed simp

text \<open>A loop whose body returns and keeps an invariant returns and keeps it.\<close>

lemma fold_outcome_inv:
  assumes "P s"
    and "\<And>x s. x \<in> set xs \<Longrightarrow> P s \<Longrightarrow> \<exists>s'. f x s = Returns s' \<and> P s'"
  shows "\<exists>s'. fold_outcome f xs s = Returns s' \<and> P s'"
  using assms
proof (induction xs arbitrary: s)
  case (Cons x xs)
  then obtain s1 where "f x s = Returns s1" "P s1" by (meson list.set_intros(1))
  with Cons show ?case by simp
qed simp

text \<open>Partial version: whatever the loop returns satisfies the invariant.\<close>

lemma fold_outcome_keeps:
  assumes "fold_outcome f xs s = Returns t" and "P s"
    and "\<And>x s s'. x \<in> set xs \<Longrightarrow> P s \<Longrightarrow> f x s = Returns s' \<Longrightarrow> P s'"
  shows "P t"
  using assms
proof (induction xs arbitrary: s)
  case (Cons x xs)
  then obtain s1 where s1: "f x s = Returns s1" "fold_outcome f xs s1 = Returns t"
    by (auto simp: run)
  have "P s1" by (rule Cons.prems(3) [OF _ Cons.prems(2) s1(1)]) simp
  with s1(2) show ?case by (rule Cons.IH) (auto intro: Cons.prems(3))
qed simp

lemma fold_outcome_pure:
  "(\<And>x s. x \<in> set xs \<Longrightarrow> f x s = Returns (g x s)) \<Longrightarrow> fold_outcome f xs s = Returns (fold g xs s)"
  by (induction xs arbitrary: s) auto

text \<open>A component that answers requests, and its run over a list of them.\<close>

fun run_requests :: "('r \<Rightarrow> 's \<Rightarrow> ('s \<times> 'o) outcome) \<Rightarrow> 'r list \<Rightarrow> 's \<Rightarrow> ('s \<times> 'o list) outcome" where
  "run_requests step [] s = Returns (s, [])"
| "run_requests step (r # rs) s =
     obind (step r s) (\<lambda>(s', out). obind (run_requests step rs s') (\<lambda>(s'', outs). Returns (s'', out # outs)))"

fun run_spec :: "('r \<Rightarrow> 'a \<Rightarrow> 'a \<times> 'o) \<Rightarrow> 'r list \<Rightarrow> 'a \<Rightarrow> 'a \<times> 'o list" where
  "run_spec spec [] a = (a, [])"
| "run_spec spec (r # rs) a =
     (case spec r a of (a', out) \<Rightarrow> case run_spec spec rs a' of (a'', outs) \<Rightarrow> (a'', out # outs))"

text \<open>
  The contract of a component with its abstract specification: a step that returns keeps the invariant
  and is matched by a step of the specification with the same answer.
\<close>

locale simulation =
  fixes step :: "'r \<Rightarrow> 's \<Rightarrow> ('s \<times> 'o) outcome"
    and spec :: "'r \<Rightarrow> 'a \<Rightarrow> 'a \<times> 'o"
    and abst :: "'s \<Rightarrow> 'a"
    and inv :: "'s \<Rightarrow> bool"
    and ok :: "'r \<Rightarrow> bool"
  assumes step_sim: "inv s \<Longrightarrow> ok r \<Longrightarrow> step r s = Returns (s', out) \<Longrightarrow> inv s' \<and> spec r (abst s) = (abst s', out)"
begin

lemma run_sim:
  "inv s \<Longrightarrow> list_all ok rs \<Longrightarrow> run_requests step rs s = Returns (s', outs) \<Longrightarrow>
     inv s' \<and> run_spec spec rs (abst s) = (abst s', outs)"
proof (induction rs arbitrary: s outs)
  case (Cons r rs)
  obtain s1 out outs' where 1: "step r s = Returns (s1, out)"
    and 2: "run_requests step rs s1 = Returns (s', outs')" "outs = out # outs'"
    using Cons.prems(3) by (auto simp: run)
  have "inv s1 \<and> spec r (abst s) = (abst s1, out)" using step_sim [OF _ _ 1] Cons.prems(1,2) by simp
  then show ?case using Cons.IH [of s1 outs'] Cons.prems(2) 2 by simp
qed simp

end

text \<open>
  The contract of a component that also answers: under a further invariant \<open>live\<close> every request that
  \<open>pre\<close> admits in the abstract state returns. \<open>run_pre\<close> asks this of each request of a run, in the
  abstract state that the requests before it lead to.
\<close>

fun run_pre :: "('r \<Rightarrow> 'a \<Rightarrow> 'a \<times> 'o) \<Rightarrow> ('r \<Rightarrow> 'a \<Rightarrow> bool) \<Rightarrow> 'r list \<Rightarrow> 'a \<Rightarrow> bool" where
  "run_pre spec pre [] a = True"
| "run_pre spec pre (r # rs) a = (pre r a \<and> run_pre spec pre rs (fst (spec r a)))"

locale total_simulation = simulation step spec abst inv ok
  for step :: "'r \<Rightarrow> 's \<Rightarrow> ('s \<times> 'o) outcome" and spec :: "'r \<Rightarrow> 'a \<Rightarrow> 'a \<times> 'o" and abst inv ok +
  fixes live :: "'s \<Rightarrow> bool"
    and pre :: "'r \<Rightarrow> 'a \<Rightarrow> bool"
  assumes step_returns: "inv s \<Longrightarrow> live s \<Longrightarrow> ok r \<Longrightarrow> pre r (abst s) \<Longrightarrow>
    \<exists>s' out. step r s = Returns (s', out) \<and> live s'"
begin

lemma run_returns:
  "inv s \<Longrightarrow> live s \<Longrightarrow> list_all ok rs \<Longrightarrow> run_pre spec pre rs (abst s) \<Longrightarrow>
     \<exists>s' outs. run_requests step rs s = Returns (s', outs) \<and> run_spec spec rs (abst s) = (abst s', outs) \<and> inv s' \<and> live s'"
proof (induction rs arbitrary: s)
  case (Cons r rs)
  obtain s1 out where 1: "step r s = Returns (s1, out)" "live s1"
    using step_returns [of s r] Cons.prems by auto
  have 2: "inv s1" "spec r (abst s) = (abst s1, out)" using step_sim [OF _ _ 1(1)] Cons.prems by simp_all
  from Cons.IH [of s1] obtain s' outs where "run_requests step rs s1 = Returns (s', outs)"
    "run_spec spec rs (abst s1) = (abst s', outs)" "inv s'" "live s'"
    using 1 2 Cons.prems by auto
  then show ?case using 1(1) 2(2) by simp
qed simp

end

subsection \<open>Containers\<close>

text \<open>\<^verbatim>\<open>unordered_set::insert\<close> and \<^verbatim>\<open>erase\<close>.\<close>

definition set_insert :: "'a \<Rightarrow> 'a list \<Rightarrow> 'a list" where
  "set_insert x xs = (if x \<in> set xs then xs else xs @ [x])"

definition set_erase :: "'a \<Rightarrow> 'a list \<Rightarrow> 'a list" where
  "set_erase x xs = filter (\<lambda>y. y \<noteq> x) xs"

lemma set_set_insert [simp]: "set (set_insert x xs) = insert x (set xs)"
  by (auto simp: set_insert_def)

lemma distinct_set_insert [simp]: "distinct (set_insert x xs) = distinct xs"
  by (auto simp: set_insert_def)

lemma set_set_erase [simp]: "set (set_erase x xs) = set xs - {x}"
  by (auto simp: set_erase_def)

lemma distinct_set_erase [simp]: "distinct xs \<Longrightarrow> distinct (set_erase x xs)"
  by (simp add: set_erase_def)

text \<open>
  \<^verbatim>\<open>unordered_map::emplace\<close> leaves an existing entry alone; assignment through \<^verbatim>\<open>operator[]\<close> or an
  iterator replaces it; \<^verbatim>\<open>erase\<close> drops it.
\<close>

definition map_emplace :: "'k \<Rightarrow> 'v \<Rightarrow> ('k \<times> 'v) list \<Rightarrow> ('k \<times> 'v) list" where
  "map_emplace k v al = (case map_of al k of None \<Rightarrow> al @ [(k, v)] | Some _ \<Rightarrow> al)"

abbreviation keys_of :: "('k \<times> 'v) list \<Rightarrow> 'k list" where
  "keys_of al \<equiv> map fst al"

lemma keys_map_emplace [simp]: "keys_of (map_emplace k v al) = set_insert k (keys_of al)"
  by (auto simp: map_emplace_def set_insert_def map_of_eq_None_iff split: option.splits
      dest: map_of_SomeD intro: rev_image_eqI)

lemma map_of_map_emplace [simp]:
  "map_of (map_emplace k v al) =
     (if map_of al k = None then (map_of al)(k \<mapsto> v) else map_of al)"
  by (auto simp: map_emplace_def map_add_def fun_eq_iff split: option.splits)

lemma keys_update [simp]: "keys_of (AList.update k v al) = set_insert k (keys_of al)"
  by (simp add: update_keys set_insert_def)

lemma map_of_update [simp]: "map_of (AList.update k v al) = (map_of al)(k \<mapsto> v)"
  by (rule update_conv')

lemma keys_delete [simp]: "keys_of (AList.delete k al) = set_erase k (keys_of al)"
  by (induction al) (auto simp: set_erase_def AList.delete_eq)

lemma map_of_delete [simp]: "map_of (AList.delete k al) = (map_of al)(k := None)"
  by (rule delete_conv')

lemma map_of_in_keys: "map_of al k = Some v \<Longrightarrow> k \<in> set (keys_of al)"
  by (force dest: map_of_SomeD)

lemma key_has_value: "k \<in> set (keys_of al) \<longleftrightarrow> (\<exists>v. map_of al k = Some v)"
  by (metis map_of_eq_None_iff not_Some_eq set_map)

lemma alist_eqI:
  "distinct (keys_of al) \<Longrightarrow> keys_of al = keys_of bl \<Longrightarrow> map_of al = map_of bl \<Longrightarrow> al = bl"
proof (induction al arbitrary: bl)
  case (Cons p al)
  then obtain q bl' where bl: "bl = q # bl'" by (cases bl) auto
  obtain k v where p: "p = (k, v)" by (cases p)
  obtain k' w where q: "q = (k', w)" by (cases q)
  from Cons.prems(2) bl p q have k: "k' = k" and ks: "keys_of al = keys_of bl'" by auto
  from Cons.prems(3) bl p q k have vw: "v = w" by (auto simp: fun_eq_iff split: if_splits)
  have nk: "map_of al k = None" "map_of bl' k = None"
    using Cons.prems(1) p ks by (metis distinct.simps(2) fst_conv list.simps(9) list.set_map map_of_eq_None_iff)+
  have "map_of al x = map_of bl' x" for x
    using fun_cong [OF Cons.prems(3), of x] bl p q k nk by (cases "x = k") auto
  then have "al = bl'" using Cons ks by (auto simp: fun_eq_iff)
  with bl p q k vw show ?case by simp
qed simp

end
