(* ===== verification/Status.thy ===== *)
theory Status
  imports Prelude
begin

text \<open>
  \<^verbatim>\<open>include/core/status.h\<close> and \<^verbatim>\<open>is_collection_name_valid\<close> of \<^verbatim>\<open>impl/core/utils/utils.cpp\<close>: the status
  codes of the database, a status with an optional payload, and the rule for collection names.
\<close>

subsection \<open>Status codes\<close>

datatype status =
    success
  | collection_already_exists
  | collection_does_not_exist
  | dimension_cant_be_zero
  | collection_name_cant_be_empty
  | collection_name_too_long
  | collection_name_invalid_characters
  | vector_dimension_mismatch
  | index_does_not_exist
  | internal_error

primrec status_to_string :: "status \<Rightarrow> string" where
  "status_to_string success = ''success''"
| "status_to_string collection_already_exists = ''collection already exists''"
| "status_to_string collection_does_not_exist = ''collection does not exist''"
| "status_to_string dimension_cant_be_zero = ''dimension cant be zero''"
| "status_to_string collection_name_cant_be_empty = ''collection name cant be empty''"
| "status_to_string collection_name_too_long = ''collection name is too long''"
| "status_to_string collection_name_invalid_characters = ''collection name contains invalid characters''"
| "status_to_string vector_dimension_mismatch = ''vector dimension mismatch with collection''"
| "status_to_string index_does_not_exist = ''index does not exist''"
| "status_to_string internal_error = ''internal error''"

lemma status_to_string_inject: "status_to_string s = status_to_string t \<Longrightarrow> s = t"
  by (cases s; cases t) simp_all

subsection \<open>Results\<close>

record 'a result =
  res_status :: status
  payload :: "'a option"

definition fail_with :: "status \<Rightarrow> 'a result" where
  "fail_with s = \<lparr>res_status = s, payload = None\<rparr>"

definition result_of :: "status \<Rightarrow> 'a \<Rightarrow> 'a result" where
  "result_of s x = \<lparr>res_status = s, payload = Some x\<rparr>"

definition is_success :: "'a result \<Rightarrow> bool" where
  "is_success r \<longleftrightarrow> res_status r = success"

definition has_payload :: "'a result \<Rightarrow> bool" where
  "has_payload r \<longleftrightarrow> payload r \<noteq> None"

definition result_value :: "'a result \<Rightarrow> 'a outcome" where
  "result_value r = (case payload r of None \<Rightarrow> Throws Bad_optional_access | Some x \<Rightarrow> Returns x)"

lemma result_simps [simp]:
  "res_status (fail_with s) = s" "payload (fail_with s) = None"
  "res_status (result_of s x) = s" "payload (result_of s x) = Some x"
  by (simp_all add: fail_with_def result_of_def)

subsection \<open>Collection names\<close>

text \<open>\<^verbatim>\<open>std::isalnum\<close> in the C locale.\<close>

definition isalnum :: "char \<Rightarrow> bool" where
  "isalnum c =
     (let n = (of_char c :: nat)
      in (48 \<le> n \<and> n \<le> 57) \<or> (65 \<le> n \<and> n \<le> 90) \<or> (97 \<le> n \<and> n \<le> 122))"

definition is_collection_name_valid :: "string \<Rightarrow> status" where
  "is_collection_name_valid collection_name =
     (if collection_name = [] then collection_name_cant_be_empty
      else if length collection_name > 128 then collection_name_too_long
      else if \<not> list_all (\<lambda>c. isalnum c \<or> c = CHR ''_'') collection_name
      then collection_name_invalid_characters
      else success)"

lemma name_valid_iff:
  "is_collection_name_valid n = success \<longleftrightarrow>
     n \<noteq> [] \<and> length n \<le> 128 \<and> list_all (\<lambda>c. isalnum c \<or> c = CHR ''_'') n"
  by (auto simp: is_collection_name_valid_def)

lemma name_status_cases:
  "is_collection_name_valid n \<in>
     {success, collection_name_cant_be_empty, collection_name_too_long,
      collection_name_invalid_characters}"
  by (auto simp: is_collection_name_valid_def)

text \<open>A valid name is a plain file name: it has no dot, no path separator and no terminator.\<close>

lemma valid_name_no_dot: "is_collection_name_valid n = success \<Longrightarrow> CHR ''.'' \<notin> set n"
  by (auto simp: name_valid_iff list_all_iff isalnum_def Let_def)

lemma valid_name_no_slash: "is_collection_name_valid n = success \<Longrightarrow> CHR ''/'' \<notin> set n"
  by (auto simp: name_valid_iff list_all_iff isalnum_def Let_def)

lemma valid_name_length: "is_collection_name_valid n = success \<Longrightarrow> 0 < length n \<and> length n < 2 ^ 32"
  by (auto simp: name_valid_iff)

text \<open>
  A name the database accepts is a plain file name: it is not empty, has at most 128 characters,
  and no dot, path separator or terminator in it, so that the file \<^verbatim>\<open><name>.db\<close> is in the
  data directory and the name can be read off the file name again.
\<close>

lemma accepted_name_is_plain:
  assumes "is_collection_name_valid n = success"
  shows "n \<noteq> [] \<and> length n \<le> 128 \<and> CHR ''.'' \<notin> set n \<and> CHR ''/'' \<notin> set n \<and> CHR 0x00 \<notin> set n \<and>
    takeWhile (\<lambda>c. c \<noteq> CHR ''.'') (n @ ''.db'') = n"
proof -
  have "CHR 0x00 \<notin> set n" using assms by (auto simp: name_valid_iff list_all_iff isalnum_def Let_def)
  moreover have "takeWhile (\<lambda>c. c \<noteq> CHR ''.'') (n @ ''.db'') = n"
    using valid_name_no_dot [OF assms] by (subst takeWhile_append2) auto
  ultimately show ?thesis
    using assms valid_name_no_dot [OF assms] valid_name_no_slash [OF assms] by (simp add: name_valid_iff)
qed

lemma accepted_name_is_plain_instance:
  "''docs_2'' \<noteq> [] \<and> length ''docs_2'' \<le> 128 \<and> CHR ''.'' \<notin> set ''docs_2'' \<and> CHR ''/'' \<notin> set ''docs_2'' \<and>
    CHR 0x00 \<notin> set ''docs_2'' \<and> takeWhile (\<lambda>c. c \<noteq> CHR ''.'') (''docs_2'' @ ''.db'') = ''docs_2''"
  by (rule accepted_name_is_plain) (simp add: is_collection_name_valid_def isalnum_def)

end
