(* ===== verification/Floating.thy ===== *)
theory Floating
  imports Prelude
begin

unbundle bit_operations_syntax

text \<open>
  The IEEE 754 arithmetic the C++ code computes with: \<^verbatim>\<open>float\<close> is its 32-bit pattern (the code copies
  and compares it byte by byte), \<^verbatim>\<open>double\<close> a sign, a significand and an exponent. All operations round
  to nearest, ties to even. \<open>Fin s m e\<close> is \<open>(-1)^s * m * 2^e\<close>; the code's doubles are \<open>canonical\<close>,
  which every operation returns (\<open>fp_round_canonical\<close>). Everything is executable on integers.
\<close>

type_synonym float32 = "32 word"

datatype double = NaN | Inf bool | Fin bool nat int

record fp_format =
  prec :: nat
  emin :: int
  emax :: int

definition binary64 :: fp_format where
  "binary64 = \<lparr>prec = 53, emin = - 1074, emax = 971\<rparr>"

definition binary32 :: fp_format where
  "binary32 = \<lparr>prec = 24, emin = - 149, emax = 104\<rparr>"

subsection \<open>Rounding\<close>

fun bitlen :: "nat \<Rightarrow> nat" where
  "bitlen n = (if n = 0 then 0 else Suc (bitlen (n div 2)))"

declare bitlen.simps [simp del]

text \<open>
  Intermediate results are arguments of helper functions and not bound by \<open>let\<close>, so that the
  simplifier evaluates each of them once.
\<close>

definition half_even :: "nat \<Rightarrow> nat \<Rightarrow> nat \<Rightarrow> nat" where
  "half_even q r h = (if h < 2 * r \<or> (2 * r = h \<and> odd q) then Suc q else q)"

definition round_shift :: "nat \<Rightarrow> nat \<Rightarrow> nat" where
  "round_shift m d = half_even (m div 2 ^ d) (m mod 2 ^ d) (2 ^ d)"

text \<open>\<open>m\<close> may have reached \<open>2 ^ prec\<close> by rounding up; an exponent beyond \<open>emax\<close> is an overflow.\<close>

definition fp_pack :: "fp_format \<Rightarrow> bool \<Rightarrow> nat \<Rightarrow> int \<Rightarrow> double" where
  "fp_pack f s m e =
     (if m = 2 ^ prec f
      then (if emax f < e + 1 then Inf s else Fin s (2 ^ (prec f - 1)) (e + 1))
      else if emax f < e then Inf s else Fin s m e)"

definition align :: "nat \<Rightarrow> int \<Rightarrow> int \<Rightarrow> nat" where
  "align m e e' = (if e' \<le> e then m * 2 ^ nat (e - e') else round_shift m (nat (e' - e)))"

definition round_exp :: "fp_format \<Rightarrow> nat \<Rightarrow> int \<Rightarrow> int" where
  "round_exp f m e = max (e + int (bitlen m) - int (prec f)) (emin f)"

definition fp_round_at :: "fp_format \<Rightarrow> bool \<Rightarrow> nat \<Rightarrow> int \<Rightarrow> int \<Rightarrow> double" where
  "fp_round_at f s m e e' = fp_pack f s (align m e e') e'"

definition fp_round :: "fp_format \<Rightarrow> bool \<Rightarrow> nat \<Rightarrow> int \<Rightarrow> double" where
  "fp_round f s m e =
     (if m = 0 then Fin s 0 (emin f) else fp_round_at f s m e (round_exp f m e))"

definition canonical :: "fp_format \<Rightarrow> double \<Rightarrow> bool" where
  "canonical f x =
     (case x of
        Fin s m e \<Rightarrow> m < 2 ^ prec f \<and> emin f \<le> e \<and> e \<le> emax f \<and>
          (2 ^ (prec f - 1) \<le> m \<or> e = emin f)
      | _ \<Rightarrow> True)"

lemma bitlen_upper: "n < 2 ^ bitlen n"
proof (induction n rule: bitlen.induct)
  case (1 n)
  then show ?case by (cases "n = 0") (auto simp: bitlen.simps [of n])
qed

lemma bitlen_pos [simp]: "0 < bitlen n \<longleftrightarrow> 0 < n"
  by (subst bitlen.simps) auto

lemma bitlen_lower: "0 < n \<Longrightarrow> 2 ^ (bitlen n - 1) \<le> n"
proof (induction n rule: bitlen.induct)
  case (1 n)
  show ?case
  proof (cases "n div 2 = 0")
    case True
    with 1 show ?thesis by (auto simp: bitlen.simps [of n] bitlen.simps [of 0])
  next
    case False
    then obtain k where k: "bitlen (n div 2) = Suc k"
      by (metis bitlen_pos gr0_conv_Suc not_gr_zero)
    with 1 False have "2 ^ k \<le> n div 2" by simp
    then have "2 ^ Suc k \<le> n" by simp
    with k False show ?thesis by (subst bitlen.simps) auto
  qed
qed

lemma round_shift_upper: "m < 2 ^ (p + d) \<Longrightarrow> round_shift m d \<le> 2 ^ p"
proof -
  assume "m < 2 ^ (p + d)"
  then have "m div 2 ^ d < 2 ^ p" by (simp add: less_mult_imp_div_less power_add)
  then show ?thesis by (auto simp: round_shift_def half_even_def)
qed

lemma round_shift_lower: "2 ^ (p + d) \<le> m \<Longrightarrow> 2 ^ p \<le> round_shift m d"
proof -
  assume "2 ^ (p + d) \<le> m"
  then have "2 ^ (p + d) div 2 ^ d \<le> m div 2 ^ d" by (rule div_le_mono)
  then show ?thesis by (auto simp: round_shift_def half_even_def power_add)
qed

lemma round_shift_0 [simp]: "round_shift m 0 = m"
  by (simp add: round_shift_def half_even_def)

lemma fp_round_canonical:
  assumes "0 < prec f" and "emin f \<le> emax f"
  shows "canonical f (fp_round f s m e)"
proof (cases "m = 0")
  case True
  then show ?thesis using assms by (simp add: fp_round_def canonical_def)
next
  case False
  define l where "l = bitlen m"
  define e' where "e' = max (e + int l - int (prec f)) (emin f)"
  define m' where "m' = (if e' \<le> e then m * 2 ^ nat (e - e') else round_shift m (nat (e' - e)))"
  have l: "0 < l" "2 ^ (l - 1) \<le> m" "m < 2 ^ l"
    using False bitlen_lower [of m] by (simp_all add: l_def bitlen_upper)
  have up: "m' \<le> 2 ^ prec f"
  proof (cases "e' \<le> e")
    case True
    then have "l + nat (e - e') \<le> prec f" by (auto simp: e'_def)
    then have "2 ^ l * 2 ^ nat (e - e') \<le> (2::nat) ^ prec f"
      by (simp flip: power_add)
    moreover have "m * 2 ^ nat (e - e') < 2 ^ l * 2 ^ nat (e - e')" using l by simp
    ultimately have "m * 2 ^ nat (e - e') \<le> 2 ^ prec f" by linarith
    then show ?thesis using True by (simp add: m'_def)
  next
    case False
    then have "l \<le> prec f + nat (e' - e)" by (auto simp: e'_def)
    then have "m < 2 ^ (prec f + nat (e' - e))"
      by (rule order.strict_trans2 [OF l(3) power_increasing]) simp
    then show ?thesis using False by (simp add: m'_def round_shift_upper)
  qed
  have low: "2 ^ (prec f - 1) \<le> m'" if "e' \<noteq> emin f"
  proof (cases "e' \<le> e")
    case True
    with that have "prec f = l + nat (e - e')" by (auto simp: e'_def)
    then have "(2::nat) ^ (prec f - 1) = 2 ^ (l - 1) * 2 ^ nat (e - e')"
      using l(1) by (simp flip: power_add)
    then show ?thesis using True l(2) by (simp add: m'_def)
  next
    case False
    with that have "l = prec f + nat (e' - e)" by (auto simp: e'_def)
    then have "l - 1 = (prec f - 1) + nat (e' - e)" using assms(1) by simp
    with l(2) have "2 ^ (prec f - 1 + nat (e' - e)) \<le> m" by simp
    then show ?thesis using False by (simp add: m'_def round_shift_lower)
  qed
  have "fp_round f s m e = fp_pack f s m' e'"
    using False
    by (simp add: fp_round_def fp_round_at_def align_def round_exp_def e'_def l_def m'_def)
  moreover have "emin f \<le> e'" by (simp add: e'_def)
  ultimately show ?thesis using up low assms
    by (auto simp: canonical_def fp_pack_def power_strict_increasing split: if_splits)
qed

lemma fp_round_zero [simp]: "fp_round f s 0 e = Fin s 0 (emin f)"
  by (simp add: fp_round_def)

lemma fp_round_not_NaN [simp]: "fp_round f s m e \<noteq> NaN"
  by (auto simp: fp_round_def fp_round_at_def fp_pack_def)

lemma fp_round_sign: "fp_round f s m e = Inf t \<or> fp_round f s m e = Fin t n d \<Longrightarrow> t = s"
  by (auto simp: fp_round_def fp_round_at_def fp_pack_def split: if_splits)

subsection \<open>Arithmetic on doubles\<close>

fun dneg :: "double \<Rightarrow> double" where
  "dneg NaN = NaN"
| "dneg (Inf s) = Inf (\<not> s)"
| "dneg (Fin s m e) = Fin (\<not> s) m e"

text \<open>An exact sum of zero is \<open>+0\<close>, but for two zeros of one sign.\<close>

definition add_aligned :: "bool \<Rightarrow> nat \<Rightarrow> bool \<Rightarrow> nat \<Rightarrow> int \<Rightarrow> double" where
  "add_aligned s a t b c =
     (if s = t then fp_round binary64 s (a + b) c
      else if a = b then Fin False 0 (emin binary64)
      else if b < a then fp_round binary64 s (a - b) c
      else fp_round binary64 t (b - a) c)"

fun dadd :: "double \<Rightarrow> double \<Rightarrow> double" where
  "dadd NaN y = NaN"
| "dadd x NaN = NaN"
| "dadd (Inf s) (Inf t) = (if s = t then Inf s else NaN)"
| "dadd (Inf s) (Fin t n d) = Inf s"
| "dadd (Fin s m e) (Inf t) = Inf t"
| "dadd (Fin s m e) (Fin t n d) =
     add_aligned s (m * 2 ^ nat (e - min e d)) t (n * 2 ^ nat (d - min e d)) (min e d)"

definition dsub :: "double \<Rightarrow> double \<Rightarrow> double" where
  "dsub x y = dadd x (dneg y)"

fun dmul :: "double \<Rightarrow> double \<Rightarrow> double" where
  "dmul NaN y = NaN"
| "dmul x NaN = NaN"
| "dmul (Inf s) (Inf t) = Inf (s \<noteq> t)"
| "dmul (Inf s) (Fin t n d) = (if n = 0 then NaN else Inf (s \<noteq> t))"
| "dmul (Fin s m e) (Inf t) = (if m = 0 then NaN else Inf (s \<noteq> t))"
| "dmul (Fin s m e) (Fin t n d) = fp_round binary64 (s \<noteq> t) (m * n) (e + d)"

text \<open>
  The quotient and the square root are computed with spare bits and a sticky bit that records
  whether something was cut off, so that the final rounding is that of the exact value.
\<close>

definition quot_sticky :: "nat \<Rightarrow> nat \<Rightarrow> nat" where
  "quot_sticky a n = 2 * (a div n) + (if a mod n = 0 then 0 else 1)"

definition root_sticky :: "nat \<Rightarrow> nat \<Rightarrow> nat" where
  "root_sticky a r = 2 * r + (if r * r = a then 0 else 1)"

definition isqrt_step :: "nat \<Rightarrow> nat \<Rightarrow> nat" where
  "isqrt_step n r = (if (r + 1) * (r + 1) \<le> n then r + 1 else r)"

fun ddiv :: "double \<Rightarrow> double \<Rightarrow> double" where
  "ddiv NaN y = NaN"
| "ddiv x NaN = NaN"
| "ddiv (Inf s) (Inf t) = NaN"
| "ddiv (Inf s) (Fin t n d) = Inf (s \<noteq> t)"
| "ddiv (Fin s m e) (Inf t) = Fin (s \<noteq> t) 0 (emin binary64)"
| "ddiv (Fin s m e) (Fin t n d) =
     (if n = 0 then (if m = 0 then NaN else Inf (s \<noteq> t))
      else fp_round binary64 (s \<noteq> t) (quot_sticky (m * 2 ^ (56 + bitlen n)) n)
             (e - d - int (bitlen n) - 57))"

fun isqrt :: "nat \<Rightarrow> nat" where
  "isqrt n = (if n = 0 then 0 else isqrt_step n (2 * isqrt (n div 4)))"

declare isqrt.simps [simp del]

fun dsqrt :: "double \<Rightarrow> double" where
  "dsqrt NaN = NaN"
| "dsqrt (Inf s) = (if s then NaN else Inf False)"
| "dsqrt (Fin s m e) =
     (if m = 0 then Fin s m e
      else if s then NaN
      else if even e then fp_round binary64 False (root_sticky (m * 2 ^ 110) (isqrt (m * 2 ^ 110))) (e div 2 - 56)
      else fp_round binary64 False (root_sticky (m * 2 ^ 111) (isqrt (m * 2 ^ 111))) ((e - 111) div 2 - 1))"

definition double_of_nat :: "nat \<Rightarrow> double" where
  "double_of_nat n = fp_round binary64 False n 0"

definition dzero :: double where
  "dzero = Fin False 0 (- 1074)"

definition d_one :: double where
  "d_one = Fin False (2 ^ 52) (- 52)"

text \<open>\<^verbatim>\<open>std::numeric_limits<double>::max()\<close>\<close>

definition dmax :: double where
  "dmax = Fin False (2 ^ 53 - 1) 971"

subsection \<open>Comparison\<close>

text \<open>
  Canonical doubles are ordered by sign, exponent and significand, so an integer ranks them; the two
  zeros have the same rank. Every comparison with a NaN is false.
\<close>

fun rank :: "double \<Rightarrow> int" where
  "rank NaN = 0"
| "rank (Inf s) = (if s then - (2 ^ 64) else 2 ^ 64)"
| "rank (Fin s m e) = (if s then - ((e + 1074) * 2 ^ 53 + int m) else (e + 1074) * 2 ^ 53 + int m)"

definition dless :: "double \<Rightarrow> double \<Rightarrow> bool" where
  "dless x y \<longleftrightarrow> x \<noteq> NaN \<and> y \<noteq> NaN \<and> rank x < rank y"

definition deq :: "double \<Rightarrow> double \<Rightarrow> bool" where
  "deq x y \<longleftrightarrow> x \<noteq> NaN \<and> y \<noteq> NaN \<and> rank x = rank y"

subsection \<open>Conversions between float and double\<close>

definition f32_sign :: "float32 \<Rightarrow> bool" where
  "f32_sign w = bit w 31"

definition f32_exp :: "float32 \<Rightarrow> nat" where
  "f32_exp w = unat w div 2 ^ 23 mod 256"

definition f32_frac :: "float32 \<Rightarrow> nat" where
  "f32_frac w = unat w mod 2 ^ 23"

definition f32_finite :: "float32 \<Rightarrow> bool" where
  "f32_finite w \<longleftrightarrow> f32_exp w \<noteq> 255"

text \<open>\<^verbatim>\<open>static_cast<double>\<close>, which is exact.\<close>

definition f32_to_double :: "float32 \<Rightarrow> double" where
  "f32_to_double w =
     (if f32_exp w = 255 then (if f32_frac w = 0 then Inf (f32_sign w) else NaN)
      else if f32_exp w = 0 then fp_round binary64 (f32_sign w) (f32_frac w) (- 149)
      else fp_round binary64 (f32_sign w) (2 ^ 23 + f32_frac w) (int (f32_exp w) - 150))"

text \<open>\<^verbatim>\<open>static_cast<float>\<close>, which rounds. A NaN becomes the default quiet NaN.\<close>

definition f32_encode :: "double \<Rightarrow> float32" where
  "f32_encode x =
     (case x of
        NaN \<Rightarrow> 0x7FC00000
      | Inf s \<Rightarrow> (if s then 0xFF800000 else 0x7F800000)
      | Fin s m e \<Rightarrow> word_of_nat ((if s then 2 ^ 31 else 0) + nat (e + 149) * 2 ^ 23 + m))"

definition double_to_f32 :: "double \<Rightarrow> float32" where
  "double_to_f32 x =
     f32_encode (case x of Fin s m e \<Rightarrow> fp_round binary32 s m e | _ \<Rightarrow> x)"

subsection \<open>Evaluation\<close>

text \<open>\<open>simp add: fp_eval\<close> evaluates closed floating-point terms.\<close>

named_theorems fp_eval

lemma bitlen_num [fp_eval]:
  "bitlen 0 = 0" "bitlen 1 = 1" "bitlen (Suc 0) = 1"
  "bitlen (numeral (Num.Bit0 n)) = Suc (bitlen (numeral n))"
  "bitlen (numeral (Num.Bit1 n)) = Suc (bitlen (numeral n))"
  by (subst bitlen.simps, simp add: bitlen.simps [of 0])+

lemma numeral_div_4:
  "numeral (Num.Bit0 (Num.Bit0 n)) div 4 = (numeral n :: nat)"
  "numeral (Num.Bit0 (Num.Bit1 n)) div 4 = (numeral n :: nat)"
  "numeral (Num.Bit1 (Num.Bit0 n)) div 4 = (numeral n :: nat)"
  "numeral (Num.Bit1 (Num.Bit1 n)) div 4 = (numeral n :: nat)"
  by (simp_all add: div_mult2_eq [of _ 2 2, simplified])

lemma isqrt_num [fp_eval]:
  "isqrt 0 = 0" "isqrt 1 = 1" "isqrt (Suc 0) = 1" "isqrt 2 = 1" "isqrt 3 = 1"
  "isqrt (numeral (Num.Bit0 (Num.Bit0 n))) =
     isqrt_step (numeral (Num.Bit0 (Num.Bit0 n))) (2 * isqrt (numeral n))"
  "isqrt (numeral (Num.Bit0 (Num.Bit1 n))) =
     isqrt_step (numeral (Num.Bit0 (Num.Bit1 n))) (2 * isqrt (numeral n))"
  "isqrt (numeral (Num.Bit1 (Num.Bit0 n))) =
     isqrt_step (numeral (Num.Bit1 (Num.Bit0 n))) (2 * isqrt (numeral n))"
  "isqrt (numeral (Num.Bit1 (Num.Bit1 n))) =
     isqrt_step (numeral (Num.Bit1 (Num.Bit1 n))) (2 * isqrt (numeral n))"
  by (subst isqrt.simps, simp add: numeral_div_4 isqrt.simps [of 0] isqrt_step_def)+

declare f32_to_double_def [fp_eval] f32_exp_def [fp_eval] f32_frac_def [fp_eval]
declare f32_sign_def [fp_eval] f32_finite_def [fp_eval] f32_encode_def [fp_eval]
declare double_to_f32_def [fp_eval] fp_round_def [fp_eval] fp_round_at_def [fp_eval]
declare fp_pack_def [fp_eval] round_exp_def [fp_eval] align_def [fp_eval] round_shift_def [fp_eval]
declare half_even_def [fp_eval] binary64_def [fp_eval] binary32_def [fp_eval]
declare add_aligned_def [fp_eval] quot_sticky_def [fp_eval] root_sticky_def [fp_eval]
declare isqrt_step_def [fp_eval] dsub_def [fp_eval] dless_def [fp_eval] deq_def [fp_eval]
declare double_of_nat_def [fp_eval] dzero_def [fp_eval] d_one_def [fp_eval] dmax_def [fp_eval]

subsection \<open>The integer square root\<close>

lemma isqrt_correct: "isqrt n * isqrt n \<le> n \<and> n < (isqrt n + 1) * (isqrt n + 1)"
proof (induction n rule: isqrt.induct)
  case (1 n)
  show ?case
  proof (cases "n = 0")
    case True
    then show ?thesis by (simp add: isqrt.simps)
  next
    case False
    define r where "r = isqrt (n div 4)"
    from 1 False have r: "r * r \<le> n div 4" "n div 4 < (r + 1) * (r + 1)"
      by (simp_all add: r_def)
    from r(1) have low: "(2 * r) * (2 * r) \<le> n" by simp
    from r(2) have "n div 4 + 1 \<le> (r + 1) * (r + 1)" by simp
    then have "4 * (n div 4 + 1) \<le> 4 * ((r + 1) * (r + 1))" by (rule mult_le_mono2)
    moreover have "n < 4 * (n div 4 + 1)" by simp
    ultimately have up: "n < (2 * r + 2) * (2 * r + 2)" by (simp add: algebra_simps)
    have "isqrt n = isqrt_step n (2 * r)" using False by (simp add: isqrt.simps [of n] r_def)
    then show ?thesis using low up by (auto simp: isqrt_step_def algebra_simps)
  qed
qed

subsection \<open>Signs\<close>

lemma fp_round_neg: "fp_round f (\<not> s) m e = dneg (fp_round f s m e)"
  by (auto simp: fp_round_def fp_round_at_def fp_pack_def)

lemma dneg_dneg [simp]: "dneg (dneg x) = x"
  by (cases x) auto

lemma dneg_eq_NaN [simp]: "dneg x = NaN \<longleftrightarrow> x = NaN"
  by (cases x) auto

lemma dmul_dneg_dneg [simp]: "dmul (dneg x) (dneg y) = dmul x y"
  by (cases x; cases y) (auto simp: fp_round_neg)

lemma dmul_commute: "dmul x y = dmul y x"
  by (cases x; cases y) (auto simp: mult.commute add.commute eq_commute)

lemma dadd_commute: "dadd x y = dadd y x"
  by (cases x; cases y)
    (auto simp: add_aligned_def add.commute min.commute eq_commute [of "_ :: nat"])

text \<open>Swapping a difference negates it, unless it is zero, which is \<open>+0\<close> both ways.\<close>

lemma dsub_swap: "dsub y x = dneg (dsub x y) \<or> dsub x y = Fin False 0 (emin binary64) \<and> dsub y x = dsub x y"
proof (cases x; cases y)
  fix s m e t n d assume xy: "x = Fin s m e" "y = Fin t n d"
  show ?thesis
    by (cases "s = t")
      (auto simp: xy dsub_def add_aligned_def min.commute [of e d] add.commute fp_round_neg
        simp flip: fp_round_neg)
qed (auto simp: dsub_def)

lemma square_dsub_swap: "dmul (dsub x y) (dsub x y) = dmul (dsub y x) (dsub y x)"
  using dsub_swap [of y x] by (metis dmul_dneg_dneg)

text \<open>\<open>dnonneg\<close>: a number with a positive sign, no NaN.\<close>

definition dnonneg :: "double \<Rightarrow> bool" where
  "dnonneg x = (case x of NaN \<Rightarrow> False | Inf s \<Rightarrow> \<not> s | Fin s m e \<Rightarrow> \<not> s)"

lemma dnonneg_not_NaN: "dnonneg x \<Longrightarrow> x \<noteq> NaN"
  by (auto simp: dnonneg_def)

lemma dnonneg_fp_round: "dnonneg (fp_round f s m e) \<longleftrightarrow> \<not> s"
  by (auto simp: dnonneg_def fp_round_def fp_round_at_def fp_pack_def)

lemma dnonneg_dadd: "dnonneg x \<Longrightarrow> dnonneg y \<Longrightarrow> dnonneg (dadd x y)"
  by (cases x; cases y) (auto simp: dnonneg_fp_round add_aligned_def, auto simp: dnonneg_def)

lemma dnonneg_square: "x \<noteq> NaN \<Longrightarrow> dnonneg (dmul x x)"
  by (cases x) (auto simp: dnonneg_fp_round, auto simp: dnonneg_def)

lemma dnonneg_dsqrt: "dnonneg x \<Longrightarrow> dnonneg (dsqrt x)"
  by (cases x) (auto simp: dnonneg_fp_round, auto simp: dnonneg_def)

lemma dnonneg_dzero [simp]: "dnonneg dzero"
  by (simp add: dnonneg_def dzero_def)

subsection \<open>Finite values\<close>

definition dfinite :: "double \<Rightarrow> bool" where
  "dfinite x = (case x of Fin s m e \<Rightarrow> True | _ \<Rightarrow> False)"

lemma dsub_finite_not_NaN: "dfinite x \<Longrightarrow> dfinite y \<Longrightarrow> dsub x y \<noteq> NaN"
  by (cases x; cases y) (auto simp: dfinite_def dsub_def add_aligned_def)

lemma dsub_self: "dfinite x \<Longrightarrow> dsub x x = dzero"
  by (cases x) (auto simp: dfinite_def dsub_def add_aligned_def dzero_def binary64_def)

lemma dmul_dzero_dzero [simp]: "dmul dzero dzero = dzero"
  by (simp add: dzero_def binary64_def)

lemma dadd_dzero_dzero [simp]: "dadd dzero dzero = dzero"
  by (simp add: dzero_def binary64_def add_aligned_def)

lemma dsqrt_dzero [simp]: "dsqrt dzero = dzero"
  by (simp add: dzero_def)

subsection \<open>Exact rounding\<close>

lemma bitlen_le: "n < 2 ^ k \<Longrightarrow> bitlen n \<le> k"
proof (rule ccontr)
  assume n: "n < 2 ^ k" and "\<not> bitlen n \<le> k"
  then have k: "k \<le> bitlen n - 1" and "0 < n" by (cases "n = 0"; simp add: bitlen.simps [of 0])+
  from k have "(2::nat) ^ k \<le> 2 ^ (bitlen n - 1)" by simp
  also have "\<dots> \<le> n" using \<open>0 < n\<close> by (rule bitlen_lower)
  finally show False using n by simp
qed

lemma bitlen_ge: "2 ^ k \<le> n \<Longrightarrow> k < bitlen n"
proof -
  assume "2 ^ k \<le> n"
  then have "(2::nat) ^ k < 2 ^ bitlen n" using bitlen_upper [of n] by linarith
  then show ?thesis by simp
qed

lemma bitlen_scale: "0 < m \<Longrightarrow> bitlen (m * 2 ^ k) = bitlen m + k"
proof (induction k)
  case (Suc k)
  then have "bitlen (m * 2 ^ Suc k) = Suc (bitlen (m * 2 ^ Suc k div 2))"
    by (subst bitlen.simps) simp
  with Suc show ?case by (simp add: mult.left_commute [of m 2])
qed simp

text \<open>A significand that fits is only normalised; an equal value rounds to the same double.\<close>

lemma fp_round_exact:
  assumes "0 < m" "m < 2 ^ prec f" "emin f \<le> e" "e \<le> emax f"
  shows "fp_round f s m e = Fin s (m * 2 ^ nat (e - round_exp f m e)) (round_exp f m e)"
    and "round_exp f m e \<le> e" and "emin f \<le> round_exp f m e"
proof -
  let ?r = "round_exp f m e"
  have l: "bitlen m \<le> prec f" using assms(2) by (rule bitlen_le)
  show le: "?r \<le> e" and "emin f \<le> ?r" using l assms by (auto simp: round_exp_def)
  have j: "bitlen m + nat (e - ?r) \<le> prec f" using l assms by (auto simp: round_exp_def)
  have "m * 2 ^ nat (e - ?r) < 2 ^ bitlen m * 2 ^ nat (e - ?r)"
    using bitlen_upper [of m] by simp
  also have "\<dots> \<le> 2 ^ prec f" using j by (simp flip: power_add)
  finally have "m * 2 ^ nat (e - ?r) < 2 ^ prec f" .
  then show "fp_round f s m e = Fin s (m * 2 ^ nat (e - ?r)) ?r"
    using assms le by (simp add: fp_round_def fp_round_at_def align_def fp_pack_def)
qed

lemma round_exp_scale: "0 < m \<Longrightarrow> round_exp f (m * 2 ^ k) (e - int k) = round_exp f m e"
  by (simp add: round_exp_def bitlen_scale)

lemma round_shift_scale: "round_shift (m * 2 ^ k) (d + k) = round_shift m d"
proof -
  have r: "m * 2 ^ k mod (2 ^ d * 2 ^ k) = (m mod 2 ^ d) * 2 ^ k" by (simp add: mult_mod_left)
  have q: "m * 2 ^ k div (2 ^ d * 2 ^ k) = m div 2 ^ d" by simp
  have "round_shift (m * 2 ^ k) (d + k) =
      half_even (m div 2 ^ d) ((m mod 2 ^ d) * 2 ^ k) (2 ^ d * 2 ^ k)"
    by (simp only: round_shift_def power_add q r)
  also have "\<dots> = half_even (m div 2 ^ d) (m mod 2 ^ d) (2 ^ d)"
  proof -
    have "2 ^ d * 2 ^ k < 2 * ((m mod 2 ^ d) * 2 ^ k) \<longleftrightarrow> 2 ^ d < 2 * (m mod 2 ^ d)"
      using mult_less_cancel2 [of "2 ^ d" "2 ^ k" "2 * (m mod 2 ^ d)"] by (simp add: mult.assoc)
    moreover have "2 * ((m mod 2 ^ d) * 2 ^ k) = 2 ^ d * 2 ^ k \<longleftrightarrow> 2 * (m mod 2 ^ d) = 2 ^ d"
      using mult_cancel2 [of "2 * (m mod 2 ^ d)" "2 ^ k" "2 ^ d"] by (simp add: mult.assoc)
    ultimately show ?thesis by (simp add: half_even_def)
  qed
  finally show ?thesis by (simp add: round_shift_def)
qed

lemma align_scale: "align (m * 2 ^ k) (e - int k) e' = align m e e'"
proof -
  consider "e' \<le> e - int k" | "e - int k < e'" "e' \<le> e" | "e < e'" by linarith
  then show ?thesis
  proof cases
    case 1
    then have "nat (e - e') = k + nat (e - int k - e')" by simp
    with 1 show ?thesis by (simp add: align_def power_add)
  next
    case 2
    then have k: "k = nat (e - e') + nat (e' - (e - int k))" by simp
    then have eq: "m * 2 ^ k = m * 2 ^ nat (e - e') * 2 ^ nat (e' - (e - int k))"
      by (metis mult.assoc power_add)
    have "round_shift (m * 2 ^ k) (nat (e' - (e - int k))) = m * 2 ^ nat (e - e')"
      unfolding eq
      using round_shift_scale [of "m * 2 ^ nat (e - e')" "nat (e' - (e - int k))" 0] by simp
    with 2 show ?thesis by (simp add: align_def)
  next
    case 3
    then have "nat (e' - (e - int k)) = nat (e' - e) + k" by simp
    with 3 show ?thesis by (simp add: align_def round_shift_scale)
  qed
qed

lemma fp_round_scale: "fp_round f s (m * 2 ^ k) (e - int k) = fp_round f s m e"
  by (cases "m = 0") (simp_all add: fp_round_def fp_round_at_def round_exp_scale align_scale)

lemma f32_parts:
  "unat w = (if f32_sign w then 2 ^ 31 else 0) + f32_exp w * 2 ^ 23 + f32_frac w"
  "f32_exp w < 256" "f32_frac w < 2 ^ 23"
proof -
  have lt: "unat w < 2 ^ 32" using unsigned_less [of w, where ?'a = nat] by simp
  have sg: "f32_sign w \<longleftrightarrow> odd (unat w div 2 ^ 31)"
    using bit_iff_odd [of "unat w" 31] by (simp add: f32_sign_def bit_unsigned_iff)
  have "unat w div 2 ^ 31 < 2" using lt by (simp add: less_mult_imp_div_less)
  then have hi: "unat w div 2 ^ 31 = (if f32_sign w then 1 else 0)"
    using sg by (cases "unat w div 2 ^ 31 = 0") auto
  have "unat w div 2 ^ 23 div 256 = unat w div 2 ^ 31" by (simp flip: div_mult2_eq)
  then have "unat w div 2 ^ 23 = (unat w div 2 ^ 31) * 256 + f32_exp w"
    by (metis div_mult_mod_eq f32_exp_def)
  moreover have "unat w = (unat w div 2 ^ 23) * 2 ^ 23 + f32_frac w"
    by (simp add: f32_frac_def)
  ultimately show "unat w = (if f32_sign w then 2 ^ 31 else 0) + f32_exp w * 2 ^ 23 + f32_frac w"
    using hi by (simp split: if_splits)
qed (simp_all add: f32_exp_def f32_frac_def)

text \<open>
  Widening is exact, and narrowing a widened value gives the pattern back: a component that only
  passes through a \<^verbatim>\<open>double\<close> keeps its bits.
\<close>

lemma f32_to_double_finite: "f32_finite w \<Longrightarrow> dfinite (f32_to_double w)"
proof -
  assume "f32_finite w"
  then have e: "f32_exp w < 255" using f32_parts(2) [of w] by (simp add: f32_finite_def)
  have "f32_frac w < 2 ^ 53" using f32_parts(3) [of w] by simp
  then have 1: "f32_frac w \<noteq> 0 \<Longrightarrow> dfinite (fp_round binary64 s (f32_frac w) (- 149))" for s
    using fp_round_exact(1) [of "f32_frac w" binary64 "- 149" s]
    by (simp add: binary64_def dfinite_def)
  have "2 ^ 23 + f32_frac w < 2 ^ 53" using f32_parts(3) [of w] by simp
  then have 2: "dfinite (fp_round binary64 s (2 ^ 23 + f32_frac w) (int (f32_exp w) - 150))" for s
    using fp_round_exact(1) [of "2 ^ 23 + f32_frac w" binary64 "int (f32_exp w) - 150" s] e
    by (simp add: binary64_def dfinite_def)
  show ?thesis using e 1 2
    by (cases "f32_frac w = 0") (auto simp: f32_to_double_def dfinite_def)
qed

lemma f32_to_double_not_NaN: "f32_finite w \<Longrightarrow> f32_to_double w \<noteq> NaN"
  using f32_to_double_finite by (force simp: dfinite_def)

text \<open>Rounding a double that came from an exact 24-bit significand recovers it.\<close>

lemma fp_round32_of_round64:
  assumes "0 < m" "m < 2 ^ 24" "- 149 \<le> e" "e \<le> 104"
  shows "fp_round binary64 s m e = Fin s n d \<Longrightarrow> fp_round binary32 t n d = fp_round binary32 t m e"
proof -
  assume a: "fp_round binary64 s m e = Fin s n d"
  have "m < 2 ^ 53" using assms(2) by simp
  then have "n = m * 2 ^ nat (e - d)" "d \<le> e"
    using fp_round_exact(1) [of m binary64 e s] fp_round_exact(2) [of m binary64 e] a assms by (auto simp: binary64_def)
  then show ?thesis using fp_round_scale [of binary32 t m "nat (e - d)" e] by simp
qed

lemma double_to_f32_to_double:
  assumes "f32_to_double w \<noteq> NaN"
  shows "double_to_f32 (f32_to_double w) = w"
proof -
  note parts = f32_parts [of w]
  have w: "w = word_of_nat ((if f32_sign w then 2 ^ 31 else 0) + f32_exp w * 2 ^ 23 + f32_frac w)"
    unfolding parts(1) [symmetric] by simp
  consider "f32_exp w = 255" | "f32_exp w = 0" "f32_frac w = 0" | "f32_exp w = 0" "0 < f32_frac w"
    | "0 < f32_exp w" "f32_exp w < 255"
    using parts(2) by linarith
  then show ?thesis
  proof cases
    case 1
    then show ?thesis using assms
      by (subst (2) w) (auto simp: f32_to_double_def double_to_f32_def f32_encode_def split: if_splits)
  next
    case 2
    then show ?thesis
      by (subst (2) w) (simp add: f32_to_double_def double_to_f32_def f32_encode_def binary32_def)
  next
    case 3
    let ?m = "f32_frac w" and ?s = "f32_sign w"
    have m: "?m < 2 ^ 24" using parts(3) by simp
    obtain n d where r: "fp_round binary64 ?s ?m (- 149) = Fin ?s n d"
      using fp_round_exact(1) [of ?m binary64 "- 149" ?s] 3 m by (simp add: binary64_def)
    have "fp_round binary32 ?s n d = Fin ?s ?m (- 149)"
      using fp_round32_of_round64 [OF 3(2) m _ _ r] fp_round_exact(1) [of ?m binary32 "- 149" ?s]
        fp_round_exact(2,3) [of ?m binary32 "- 149"] 3 m
      by (auto simp: binary32_def)
    then show ?thesis using 3 r
      by (subst (2) w) (simp add: f32_to_double_def double_to_f32_def f32_encode_def)
  next
    case 4
    let ?m = "2 ^ 23 + f32_frac w" and ?s = "f32_sign w" and ?e = "int (f32_exp w) - 150"
    have m: "?m < 2 ^ 24" "0 < ?m" using parts(3) by simp_all
    obtain n d where r: "fp_round binary64 ?s ?m ?e = Fin ?s n d"
      using fp_round_exact(1) [of ?m binary64 ?e ?s] 4 m by (simp add: binary64_def)
    have "bitlen ?m = 24" using bitlen_le [OF m(1)] bitlen_ge [of 23 ?m] by simp
    then have "round_exp binary32 ?m ?e = ?e" using 4 by (simp add: round_exp_def binary32_def)
    then have "fp_round binary32 ?s n d = Fin ?s ?m ?e"
      using fp_round32_of_round64 [OF m(2,1) _ _ r] fp_round_exact(1) [of ?m binary32 ?e ?s] 4 m
      by (simp add: binary32_def)
    moreover have "nat (?e + 149) * 2 ^ 23 + ?m = f32_exp w * 2 ^ 23 + f32_frac w"
      using 4 by (simp add: nat_diff_distrib' algebra_simps)
    ultimately show ?thesis using 4 r
      by (subst (2) w) (simp add: f32_to_double_def double_to_f32_def f32_encode_def add.assoc)
  qed
qed

subsection \<open>The order of canonical doubles is that of their values\<close>

text \<open>The value of a finite double, in units of \<open>2 ^ - 1074\<close>.\<close>

definition dvalue :: "double \<Rightarrow> int" where
  "dvalue x =
     (case x of Fin s m e \<Rightarrow> (if s then - 1 else 1) * (int m * 2 ^ nat (e + 1074)) | _ \<Rightarrow> 0)"

lemma magnitude_less:
  assumes "canonical binary64 (Fin s m e)" "canonical binary64 (Fin t n d)"
  shows "(e + 1074) * 2 ^ 53 + int m < (d + 1074) * 2 ^ 53 + int n \<longleftrightarrow>
         int m * 2 ^ nat (e + 1074) < int n * 2 ^ nat (d + 1074)"
proof -
  have lt: "int m' * 2 ^ nat (e' + 1074) < int n' * 2 ^ nat (d' + 1074) \<and>
      (e' + 1074) * 2 ^ 53 + int m' < (d' + 1074) * 2 ^ 53 + int n'"
    if "e' < d'" "m' < 2 ^ 53" "- 1074 \<le> e'" "2 ^ 52 \<le> n'" for e' d' :: int and m' n' :: nat
  proof -
    have "int m' * 2 ^ nat (e' + 1074) < 2 ^ 53 * 2 ^ nat (e' + 1074)" using that by simp
    also have "\<dots> = 2 ^ 52 * 2 ^ nat (e' + 1 + 1074)"
      using that by (simp add: nat_add_distrib flip: power_add power_Suc)
    also have "\<dots> \<le> int n' * 2 ^ nat (d' + 1074)"
      using that by (intro mult_mono power_increasing) auto
    finally show ?thesis using that by simp
  qed
  have "m < 2 ^ 53" "n < 2 ^ 53" "- 1074 \<le> e" "- 1074 \<le> d"
    "e < d \<Longrightarrow> 2 ^ 52 \<le> n" "d < e \<Longrightarrow> 2 ^ 52 \<le> m"
    using assms by (auto simp: canonical_def binary64_def)
  then show ?thesis
    using lt [of e d m n] lt [of d e n m] by (cases e d rule: linorder_cases) auto
qed

lemma signed_less:
  fixes a b u v :: int
  assumes "0 \<le> a" "0 \<le> b" "0 \<le> u" "0 \<le> v" "a = 0 \<longleftrightarrow> u = 0" "b = 0 \<longleftrightarrow> v = 0"
    and "a < b \<longleftrightarrow> u < v" "b < a \<longleftrightarrow> v < u"
  shows "(if s then - a else a) < (if t then - b else b) \<longleftrightarrow>
         (if s then - u else u) < (if t then - v else v)"
  using assms by (cases s; cases t) auto

lemma dless_iff_dvalue:
  assumes "canonical binary64 x" "canonical binary64 y" "dfinite x" "dfinite y"
  shows "dless x y \<longleftrightarrow> dvalue x < dvalue y"
proof -
  obtain s m e where x: "x = Fin s m e" using assms(3) by (auto simp: dfinite_def split: double.splits)
  obtain t n d where y: "y = Fin t n d" using assms(4) by (auto simp: dfinite_def split: double.splits)
  let ?a = "(e + 1074) * 2 ^ 53 + int m" and ?b = "(d + 1074) * 2 ^ 53 + int n"
  let ?u = "int m * 2 ^ nat (e + 1074)" and ?v = "int n * 2 ^ nat (d + 1074)"
  have "0 \<le> ?a" "0 \<le> ?b" "?a = 0 \<longleftrightarrow> ?u = 0" "?b = 0 \<longleftrightarrow> ?v = 0"
    using assms by (auto simp: x y canonical_def binary64_def)
  then have "(if s then - ?a else ?a) < (if t then - ?b else ?b) \<longleftrightarrow>
      (if s then - ?u else ?u) < (if t then - ?v else ?v)"
    by (intro signed_less magnitude_less [OF assms(1,2) [unfolded x y]]
        magnitude_less [OF assms(2,1) [unfolded x y]]) simp_all
  moreover have "(if c then - 1 else 1) * z = (if c then - z else z)" for c and z :: int by simp
  ultimately show ?thesis by (simp only: x y dless_def dvalue_def rank.simps double.case) simp
qed

subsection \<open>Canonical results\<close>

lemma fp_round64_canonical [simp]: "canonical binary64 (fp_round binary64 s m e)"
  by (rule fp_round_canonical) (simp_all add: binary64_def)

lemma canonical_special [simp]: "canonical f NaN" "canonical f (Inf s)" "canonical binary64 (Fin s 0 (- 1074))"
  "canonical binary64 dzero"
  by (simp_all add: canonical_def binary64_def dzero_def)

lemma canonical_zero: "canonical binary64 (Fin s 0 (emin binary64))"
  by (simp add: canonical_def binary64_def)

lemma dadd_canonical: "canonical binary64 (dadd x y)"
  by (cases x; cases y) (auto simp: add_aligned_def canonical_zero)

lemma dmul_canonical: "canonical binary64 (dmul x y)"
  by (cases x; cases y) auto

lemma dsqrt_canonical: "canonical binary64 x \<Longrightarrow> canonical binary64 (dsqrt x)"
  by (cases x) auto

lemma rank_nonneg: "dnonneg x \<Longrightarrow> canonical binary64 x \<Longrightarrow> 0 \<le> rank x"
  by (cases x) (auto simp: dnonneg_def canonical_def binary64_def)

subsection \<open>Properties\<close>

text \<open>
  A float that is widened to double and narrowed back has the bit pattern it had before, unless
  it is a NaN: averaging one vector, as \<^verbatim>\<open>k_means\<close> does for a singleton cluster, moves nothing.
\<close>

lemma widen_narrow_float:
  assumes "f32_to_double w \<noteq> NaN"
  shows "double_to_f32 (f32_to_double w) = w"
  using assms by (rule double_to_f32_to_double)

lemma widen_narrow_float_instance: "double_to_f32 (f32_to_double 0x3DCCCCCD) = 0x3DCCCCCD"
  by (rule widen_narrow_float) (simp add: fp_eval)

end
