(* ===== verification/Float_Bounds.thy ===== *)
theory Float_Bounds
  imports Floating Complex_Main
begin

text \<open>
  Bounds on rounded results: an exact value below a representable bound is rounded to a value below it,
  so chains of operations whose exact results stay below representable bounds cannot overflow. \<open>dmag\<close>
  is the magnitude of a finite double as a real number.
\<close>

definition dmag :: "double \<Rightarrow> real" where
  "dmag x = (case x of Fin s m e \<Rightarrow> real m * 2 powi e | _ \<Rightarrow> 0)"

lemma dmag_Fin [simp]: "dmag (Fin s m e) = real m * 2 powi e"
  by (simp add: dmag_def)

lemma dmag_nonneg [simp]: "0 \<le> dmag x"
  by (simp add: dmag_def split: double.splits)

lemma powi_split: "l \<le> e \<Longrightarrow> (2::real) powi e = 2 ^ nat (e - l) * 2 powi l"
proof -
  assume "l \<le> e"
  then obtain k where "e = int k + l" by (metis add.commute zle_iff_zadd)
  then show ?thesis by (simp add: power_int_add)
qed

lemma powi_add: "(2::real) powi (a + b) = 2 powi a * 2 powi b"
  by (simp add: power_int_add)

lemma powi_double: "(2::real) powi (2 * a) = 2 powi a * 2 powi a"
  using powi_add [of a a] by (simp only: mult_2)

lemma powi_mono2: "a \<le> b \<Longrightarrow> (2::real) powi a \<le> 2 powi b"
  by (simp add: power_int_increasing)

subsection \<open>Rounding\<close>

text \<open>The bound is \<open>n * 2 ^ e\<close> for a significand and an exponent of the format.\<close>

definition representable :: "fp_format \<Rightarrow> real \<Rightarrow> bool" where
  "representable f b \<longleftrightarrow> (\<exists>n e. b = real n * 2 powi e \<and> n < 2 ^ prec f \<and> emin f \<le> e \<and> e \<le> emax f)"

lemma representableI: "n < 2 ^ prec f \<Longrightarrow> emin f \<le> e \<Longrightarrow> e \<le> emax f \<Longrightarrow> representable f (real n * 2 powi e)"
  by (auto simp: representable_def)

lemma round_shift_le: "m \<le> k * 2 ^ d \<Longrightarrow> round_shift m d \<le> k"
proof -
  assume m: "m \<le> k * 2 ^ d"
  then have "m div 2 ^ d \<le> k" by (metis div_le_mono nonzero_mult_div_cancel_right power_not_zero zero_neq_numeral)
  moreover have "m mod 2 ^ d = 0" if "m div 2 ^ d = k"
  proof -
    have "m = k * 2 ^ d + m mod 2 ^ d" using that by (metis div_mult_mod_eq)
    then show ?thesis using m by linarith
  qed
  ultimately show ?thesis by (cases "m div 2 ^ d = k") (auto simp: round_shift_def half_even_def)
qed

lemma round_exp_le:
  assumes "0 < m" "real m * 2 powi e \<le> real n * 2 powi b" "n < 2 ^ prec f" "emin f \<le> b"
  shows "round_exp f m e \<le> b"
proof (rule ccontr)
  assume "\<not> ?thesis"
  then have lt: "b + int (prec f) \<le> e + int (bitlen m) - 1"
    using assms(4) by (auto simp: round_exp_def split: if_splits)
  have "real n * 2 powi b < 2 ^ prec f * 2 powi b"
    using assms(3) by (simp add: of_nat_less_iff [symmetric] del: of_nat_less_iff)
  also have "\<dots> = 2 powi (b + int (prec f))" by (subst power_int_add) (simp_all add: mult.commute)
  also have "\<dots> \<le> 2 powi (e + int (bitlen m) - 1)" using lt by (rule powi_mono2)
  also have "\<dots> = 2 ^ (bitlen m - 1) * 2 powi e"
    using assms(1) by (subst powi_split [of e]) (simp_all add: nat_diff_distrib Suc_leI)
  also have "\<dots> \<le> real m * 2 powi e"
    using bitlen_lower [OF assms(1)] by (simp add: of_nat_le_iff [symmetric] del: of_nat_le_iff)
  finally show False using assms(2) by simp
qed

text \<open>Aligning keeps below a multiple of the new unit.\<close>

lemma align_le:
  assumes "real m * 2 powi e \<le> real k * 2 powi r"
  shows "align m e r \<le> k"
proof (cases "r \<le> e")
  case True
  have "real (m * 2 ^ nat (e - r)) * 2 powi r \<le> real k * 2 powi r"
    using assms powi_split [OF True] by (simp add: mult.assoc)
  then have "m * 2 ^ nat (e - r) \<le> k" by (simp only: mult_le_cancel_right zero_less_power_int of_nat_le_iff)
  then show ?thesis using True by (simp add: align_def)
next
  case False
  then have "real m * 2 powi e \<le> real (k * 2 ^ nat (r - e)) * 2 powi e"
    using assms powi_split [of e r] by (simp add: mult.assoc)
  then have "m \<le> k * 2 ^ nat (r - e)" by (simp only: mult_le_cancel_right zero_less_power_int of_nat_le_iff)
  then show ?thesis using False by (simp add: align_def round_shift_le)
qed

lemma fp_round_bound:
  assumes "representable f b" "real m * 2 powi e \<le> b" "0 < prec f"
  shows "\<exists>m' e'. fp_round f s m e = Fin s m' e' \<and> real m' * 2 powi e' \<le> b"
proof (cases "m = 0")
  case True
  have "0 \<le> b" using assms(1) by (auto simp: representable_def)
  then show ?thesis using True by (auto simp: fp_round_def)
next
  case False
  obtain n l where b: "b = real n * 2 powi l" "n < 2 ^ prec f" "emin f \<le> l" "l \<le> emax f"
    using assms(1) by (auto simp: representable_def)
  let ?r = "round_exp f m e" and ?a = "align m e (round_exp f m e)"
  have r: "?r \<le> l" using round_exp_le [of m e n l f] False assms(2) b by simp
  have lim: "real m * 2 powi e \<le> real (n * 2 ^ nat (l - ?r)) * 2 powi ?r"
    using assms(2) b(1) powi_split [OF r] by (simp add: mult.assoc)
  then have a: "?a \<le> n * 2 ^ nat (l - ?r)" by (rule align_le)
  then have le: "real ?a * 2 powi ?r \<le> b"
  proof -
    have "real ?a * 2 powi ?r \<le> real (n * 2 ^ nat (l - ?r)) * 2 powi ?r"
      using a by (intro mult_right_mono of_nat_mono) simp_all
    then show ?thesis using b(1) powi_split [OF r] by (simp add: mult.assoc)
  qed
  show ?thesis
  proof (cases "?a = 2 ^ prec f")
    case True
    then have "?r \<noteq> l" using a b(2) by auto
    then have "?r + 1 \<le> emax f" using r b(4) by simp
    moreover have "real (2 ^ (prec f - 1)) * 2 powi (?r + 1) = real ?a * 2 powi ?r"
      using assms(3) by (cases "prec f") (simp_all add: True powi_split [of ?r "?r + 1"])
    ultimately show ?thesis using False True le by (auto simp: fp_round_def fp_round_at_def fp_pack_def)
  next
    case ne: False
    then show ?thesis using False le r b(4) by (auto simp: fp_round_def fp_round_at_def fp_pack_def)
  qed
qed

lemma fp_round64_bound:
  assumes "representable binary64 b" "real m * 2 powi e \<le> b"
  shows "dfinite (fp_round binary64 s m e) \<and> dmag (fp_round binary64 s m e) \<le> b"
  using fp_round_bound [OF assms, of s] by (auto simp: binary64_def dfinite_def)

subsection \<open>Operations\<close>

lemma dfinite_Fin: "dfinite x \<longleftrightarrow> (\<exists>s m e. x = Fin s m e)"
  by (cases x) (simp_all add: dfinite_def)

lemma dfinite_Fin_simp [simp]: "dfinite (Fin s m e)"
  by (simp add: dfinite_def)

lemma dneg_bound [simp]: "dmag (dneg x) = dmag x" "dfinite (dneg x) = dfinite x"
  by (cases x; simp add: dmag_def dfinite_def)+

lemma dadd_bound:
  assumes "dfinite x" "dfinite y" "representable binary64 b" "dmag x + dmag y \<le> b"
  shows "dfinite (dadd x y) \<and> dmag (dadd x y) \<le> b"
proof -
  obtain s m e t n d where xy: "x = Fin s m e" "y = Fin t n d" using assms(1,2) by (auto simp: dfinite_Fin)
  let ?c = "min e d" and ?a = "m * 2 ^ nat (e - min e d)" and ?b = "n * 2 ^ nat (d - min e d)"
  have "real ?a * 2 powi ?c = dmag x" "real ?b * 2 powi ?c = dmag y"
    using powi_split [of ?c e] powi_split [of ?c d] by (simp_all add: xy)
  then have ab: "real (?a + ?b) * 2 powi ?c \<le> b" using assms(4) by (simp add: distrib_right)
  have k: "dfinite (fp_round binary64 u k ?c)" "dmag (fp_round binary64 u k ?c) \<le> b" if "k \<le> ?a + ?b" for k u
  proof -
    have "real k * 2 powi ?c \<le> b"
      using ab that by (meson of_nat_mono mult_right_mono order_trans zero_le_numeral zero_le_power_int)
    from fp_round64_bound [OF assms(3) this]
    show "dfinite (fp_round binary64 u k ?c)" "dmag (fp_round binary64 u k ?c) \<le> b" by simp_all
  qed
  have "0 \<le> b" using assms(4) dmag_nonneg [of x] dmag_nonneg [of y] by linarith
  moreover have "u - v \<le> u + v" "v - u \<le> u + v" for u v :: nat by linarith+
  ultimately show ?thesis by (auto simp only: xy dadd.simps add_aligned_def dfinite_Fin_simp dmag_Fin
      split: if_splits intro!: k)
qed

lemma dsub_bound:
  "dfinite x \<Longrightarrow> dfinite y \<Longrightarrow> representable binary64 b \<Longrightarrow> dmag x + dmag y \<le> b \<Longrightarrow>
     dfinite (dsub x y) \<and> dmag (dsub x y) \<le> b"
  unfolding dsub_def by (rule dadd_bound) simp_all

lemma dmul_bound:
  assumes "dfinite x" "dfinite y" "representable binary64 b" "dmag x * dmag y \<le> b"
  shows "dfinite (dmul x y) \<and> dmag (dmul x y) \<le> b"
proof -
  obtain s m e t n d where xy: "x = Fin s m e" "y = Fin t n d" using assms(1,2) by (auto simp: dfinite_Fin)
  have "real (m * n) * 2 powi (e + d) \<le> b" using assms(4) by (simp add: xy power_int_add mult_ac)
  from fp_round64_bound [OF assms(3) this] show ?thesis by (simp add: xy)
qed

lemma root_sticky_square:
  assumes "0 < a"
  shows "root_sticky a (isqrt a) * root_sticky a (isqrt a) \<le> 9 * a"
proof -
  let ?r = "isqrt a"
  have r: "?r * ?r \<le> a" using isqrt_correct [of a] by simp
  have "?r \<le> ?r * ?r" by (cases ?r) simp_all
  then have "?r \<le> a" using r by linarith
  have "root_sticky a ?r \<le> 2 * ?r + 1" by (simp add: root_sticky_def)
  then have "root_sticky a ?r * root_sticky a ?r \<le> (2 * ?r + 1) * (2 * ?r + 1)" by (rule mult_le_mono) fact
  also have "\<dots> = 4 * (?r * ?r) + 4 * ?r + 1" by (simp add: algebra_simps)
  also have "\<dots> \<le> 9 * a" using r \<open>?r \<le> a\<close> assms by linarith
  finally show ?thesis .
qed

lemma dsqrt_bound:
  assumes "dfinite x" "dnonneg x" "representable binary64 b" "9 / 4 * dmag x \<le> b * b" "0 \<le> b"
  shows "dfinite (dsqrt x) \<and> dmag (dsqrt x) \<le> b"
proof -
  obtain m e where x: "x = Fin False m e" using assms(1,2) by (auto simp: dfinite_Fin dnonneg_def)
  show ?thesis
  proof (cases "m = 0")
    case True
    then show ?thesis using assms(5) by (simp add: x)
  next
    case False
    have root: "real (root_sticky (m * 2 ^ j) (isqrt (m * 2 ^ j))) * 2 powi c \<le> b"
      if "2 * c + int j + 2 = e" for j c
    proof (rule power2_le_imp_le [OF _ assms(5)])
      let ?q = "root_sticky (m * 2 ^ j) (isqrt (m * 2 ^ j))"
      have "(real ?q * 2 powi c)\<^sup>2 = real (?q * ?q) * 2 powi (2 * c)"
        by (simp only: powi_double power2_eq_square of_nat_mult) (simp only: mult_ac)
      also have "\<dots> \<le> real (9 * (m * 2 ^ j)) * 2 powi (2 * c)"
        using root_sticky_square [of "m * 2 ^ j"] False
        by (intro mult_right_mono) (simp_all only: of_nat_le_iff, simp_all)
      also have "\<dots> = 9 / 4 * dmag x"
        by (simp add: x that [symmetric] power_int_add)
      also have "\<dots> \<le> b\<^sup>2" using assms(4) by (simp add: power2_eq_square)
      finally show "(real ?q * 2 powi c)\<^sup>2 \<le> b\<^sup>2" .
    qed
    show ?thesis
    proof (cases "even e")
      case True
      then show ?thesis using fp_round64_bound [OF assms(3) root [of "e div 2 - 56" 110]] False
        by (simp add: x)
    next
      case odd: False
      then have "2 * ((e - 111) div 2 - 1) + int 111 + 2 = e" by presburger
      from fp_round64_bound [OF assms(3) root [OF this]] show ?thesis using odd False by (simp add: x)
    qed
  qed
qed

lemma quot_sticky_le:
  assumes "a \<le> g * n" "0 < n"
  shows "quot_sticky a n \<le> 2 * g"
proof (cases "a mod n = 0")
  case True
  have "a div n \<le> g" using assms by (metis div_le_mono nonzero_mult_div_cancel_right less_not_refl)
  then show ?thesis using True by (simp add: quot_sticky_def)
next
  case False
  then have "a \<noteq> g * n" by auto
  then have "a div n < g" using assms(1) by (simp add: less_mult_imp_div_less)
  then show ?thesis by (simp add: quot_sticky_def)
qed

text \<open>The scaled dividend has more bits than the divisor times any significand.\<close>

lemma scaled_dividend:
  assumes "k < 2 ^ 53" "0 < n" "0 < m"
  shows "real k * real n < real (m * 2 ^ (56 + bitlen n))"
proof -
  have "real k * real n < 2 ^ 53 * real n" using assms(1,2) by (simp add: of_nat_less_iff [symmetric] del: of_nat_less_iff)
  also have "\<dots> \<le> real (m * 2 ^ (56 + bitlen n))"
  proof -
    have "n \<le> 2 ^ bitlen n" using bitlen_upper [of n] by simp
    then have "2 ^ 53 * n \<le> m * (2 ^ 56 * 2 ^ bitlen n)" using assms(3)
      by (intro order_trans [OF _ mult_le_mono1 [of 1 m]]) (auto intro: mult_le_mono)
    then have "real (2 ^ 53 * n) \<le> real (m * (2 ^ 56 * 2 ^ bitlen n))" by (rule of_nat_mono)
    then show ?thesis by (simp add: power_add)
  qed
  finally show ?thesis .
qed

lemma quot_sticky_bound:
  assumes "0 < n" "0 < m" "representable binary64 b"
    and "real m * 2 powi e \<le> b * (real n * 2 powi d)"
  shows "real (quot_sticky (m * 2 ^ (56 + bitlen n)) n) * 2 powi (e - d - int (bitlen n) - 57) \<le> b"
proof -
  let ?a = "m * 2 ^ (56 + bitlen n)" and ?c = "e - d - int (bitlen n) - 56"
  obtain k l where b: "b = real k * 2 powi l" "k < 2 ^ 53"
    using assms(3) by (auto simp: representable_def binary64_def)
  have e: "(2::real) powi e = 2 ^ (56 + bitlen n) * 2 powi ?c * 2 powi d"
  proof -
    have "(2::real) powi (int (56 + bitlen n) + ?c + d) = 2 powi int (56 + bitlen n) * 2 powi ?c * 2 powi d"
      by (simp only: powi_add)
    moreover have "int (56 + bitlen n) + ?c + d = e" by simp
    ultimately show ?thesis by (simp only: power_int_of_nat)
  qed
  have "real ?a * 2 powi ?c \<le> b * real n"
  proof -
    have "real ?a * 2 powi ?c * 2 powi d \<le> b * real n * 2 powi d"
      using assms(4) unfolding e by (simp add: mult_ac)
    then show ?thesis by (simp add: mult_le_cancel_right)
  qed
  have "?c \<le> l"
  proof (rule ccontr)
    assume "\<not> ?c \<le> l"
    then have l: "(2::real) powi l \<le> 2 powi ?c" by (simp add: powi_mono2)
    have "real k * real n * 2 powi ?c < real ?a * 2 powi ?c"
      using scaled_dividend [OF b(2) assms(1,2)] by (intro mult_strict_right_mono) simp_all
    moreover have "b * real n \<le> real k * real n * 2 powi ?c"
      using l by (simp add: b(1) mult_ac mult_left_mono)
    ultimately show False using \<open>real ?a * 2 powi ?c \<le> b * real n\<close> by linarith
  qed
  define g where "g = k * 2 ^ nat (l - ?c)"
  have bg: "b = real g * 2 powi ?c" using powi_split [OF \<open>?c \<le> l\<close>] by (simp add: b(1) g_def)
  then have "real ?a * 2 powi ?c \<le> real (g * n) * 2 powi ?c"
    using \<open>real ?a * 2 powi ?c \<le> b * real n\<close> by (simp add: mult_ac)
  then have ag: "?a \<le> g * n" by (simp only: mult_le_cancel_right zero_less_power_int of_nat_le_iff)
  then have q: "quot_sticky ?a n \<le> 2 * g" using assms(1) by (rule quot_sticky_le)
  have "real (quot_sticky ?a n) * 2 powi (?c - 1) \<le> real (2 * g) * 2 powi (?c - 1)"
    using q by (intro mult_right_mono of_nat_mono) simp_all
  also have "\<dots> = b" using powi_split [of "?c - 1" ?c] by (simp add: bg)
  also have "?c - 1 = e - d - int (bitlen n) - 57" by simp
  finally show ?thesis .
qed

lemma ddiv_bound:
  assumes "dfinite x" "dfinite y" "dmag y \<noteq> 0" "representable binary64 b" "dmag x \<le> b * dmag y"
  shows "dfinite (ddiv x y) \<and> dmag (ddiv x y) \<le> b"
proof -
  obtain s m e t n d where xy: "x = Fin s m e" "y = Fin t n d" using assms(1,2) by (auto simp: dfinite_Fin)
  have n: "0 < n" using assms(3) xy(2) by simp
  show ?thesis
  proof (cases "m = 0")
    case True
    have "0 \<le> b" using assms(4) by (auto simp: representable_def)
    then show ?thesis using True n by (simp add: xy quot_sticky_def)
  next
    case False
    then have "real (quot_sticky (m * 2 ^ (56 + bitlen n)) n) * 2 powi (e - d - int (bitlen n) - 57) \<le> b"
      using quot_sticky_bound [OF n _ assms(4), of m e d] assms(5) by (simp add: xy)
    from fp_round64_bound [OF assms(4) this] show ?thesis using n by (simp add: xy)
  qed
qed

subsection \<open>Floats\<close>

definition f32_max :: real where
  "f32_max = real (2 ^ 24 - 1) * 2 powi 104"

lemma f32_max_nonneg [simp]: "0 \<le> f32_max"
  by (simp add: f32_max_def)

lemma representable_multiple:
  "k * m < 2 ^ 53 \<Longrightarrow> - 1074 \<le> e \<Longrightarrow> e \<le> 971 \<Longrightarrow> representable binary64 (real k * (real m * 2 powi e))"
  using representableI [of "k * m" binary64 e] by (simp add: binary64_def mult.assoc)

lemma f32_to_double_bound:
  assumes "f32_finite w"
  shows "dfinite (f32_to_double w) \<and> dmag (f32_to_double w) \<le> f32_max"
proof -
  have e: "f32_exp w < 255" using assms f32_parts(2) [of w] by (simp add: f32_finite_def)
  have rep: "representable binary64 f32_max"
    using representable_multiple [of 1 "2 ^ 24 - 1" 104] by (simp add: f32_max_def)
  have le: "real m * 2 powi l \<le> f32_max" if "m \<le> 2 ^ 24 - 1" "l \<le> 104" for m l
    using that unfolding f32_max_def by (intro mult_mono of_nat_mono powi_mono2) simp_all
  have "real (f32_frac w) * 2 powi - 149 \<le> f32_max"
    using f32_parts(3) [of w] by (intro le) simp_all
  note 1 = fp_round64_bound [OF rep this]
  have "real (2 ^ 23 + f32_frac w) * 2 powi (int (f32_exp w) - 150) \<le> f32_max"
    using f32_parts(3) [of w] e by (intro le) simp_all
  from 1 fp_round64_bound [OF rep this] show ?thesis
    using e by (simp add: f32_to_double_def)
qed

text \<open>Narrowing a double within the range of floats gives a finite float.\<close>

lemma f32_encode_finite:
  assumes "canonical binary32 (Fin s m e)"
  shows "f32_finite (f32_encode (Fin s m e))"
proof -
  have c: "m < 2 ^ 24" "- 149 \<le> e" "e \<le> 104" "2 ^ 23 \<le> m \<or> e = - 149"
    using assms by (simp_all add: canonical_def binary32_def)
  let ?x = "nat (e + 149) * 2 ^ 23 + m"
  have x: "?x < 255 * 2 ^ 23"
  proof -
    have "nat (e + 149) \<le> 253" using c by simp
    then have "nat (e + 149) * 2 ^ 23 \<le> 253 * 2 ^ 23" by (rule mult_le_mono1)
    with c(1) show ?thesis by simp
  qed
  have "unat (word_of_nat n :: float32) = n" if "n < 2 ^ 32" for n
    using that by (simp add: unat_of_nat)
  from this [of "(if s then 2 ^ 31 else 0) + ?x"]
  have "unat (f32_encode (Fin s m e)) = (if s then 2 ^ 31 else 0) + ?x"
    using x by (simp add: f32_encode_def add.assoc split: if_splits)
  moreover have "((if s then 2 ^ 31 else 0) + ?x) div 2 ^ 23 mod 256 = ?x div 2 ^ 23"
  proof -
    have "?x div 2 ^ 23 < 256" using x by (simp add: less_mult_imp_div_less)
    moreover have "(2 ^ 31 + ?x) div 2 ^ 23 = 256 + ?x div 2 ^ 23"
      using div_mult_self1 [of "2 ^ 23" ?x 256] by (simp add: add.commute)
    ultimately show ?thesis by simp
  qed
  moreover have "?x div 2 ^ 23 < 255" using x by (simp add: less_mult_imp_div_less)
  ultimately show ?thesis by (simp add: f32_finite_def f32_exp_def)
qed

lemma double_to_f32_finite:
  assumes "dfinite x" "dmag x \<le> f32_max"
  shows "f32_finite (double_to_f32 x)"
proof -
  obtain s m e where x: "x = Fin s m e" using assms(1) by (auto simp: dfinite_Fin)
  have "representable binary32 f32_max"
    unfolding f32_max_def by (rule representableI) (simp_all add: binary32_def)
  from fp_round_bound [OF this, of m e s] obtain m' e' where r: "fp_round binary32 s m e = Fin s m' e'"
    using assms(2) by (auto simp: x binary32_def)
  have "canonical binary32 (fp_round binary32 s m e)"
    by (rule fp_round_canonical) (simp_all add: binary32_def)
  then show ?thesis using f32_encode_finite [of s m' e'] r by (simp add: double_to_f32_def x)
qed

lemma double_of_nat_exact:
  assumes "n < 2 ^ 53" "0 < n"
  shows "dfinite (double_of_nat n) \<and> dmag (double_of_nat n) = real n"
proof -
  let ?r = "round_exp binary64 n 0"
  have "double_of_nat n = Fin False (n * 2 ^ nat (0 - ?r)) ?r" "?r \<le> 0"
    using fp_round_exact(1) [of n binary64 0 False] fp_round_exact(2) [of n binary64 0] assms
    by (simp_all add: double_of_nat_def binary64_def)
  then show ?thesis using powi_split [of ?r 0] by simp
qed

text \<open>Canonical magnitudes far below the largest double compare below it.\<close>

lemma dless_dmax:
  assumes "canonical binary64 x" "dfinite x" "dmag x \<le> 2 powi 1000"
  shows "dless x dmax"
proof -
  obtain s m e where x: "x = Fin s m e" using assms(2) by (auto simp: dfinite_Fin)
  have c: "m < 2 ^ 53" "- 1074 \<le> e" "2 ^ 52 \<le> m \<or> e = - 1074"
    using assms(1) by (simp_all add: x canonical_def binary64_def)
  have "e < 971"
  proof (rule ccontr)
    assume e: "\<not> e < 971"
    then have "2 ^ 52 \<le> m" using c(3) by auto
    then have "2 ^ 52 \<le> real m" by (metis of_nat_le_iff of_nat_numeral of_nat_power)
    then have "2 ^ 52 * 2 powi 971 \<le> real m * 2 powi e" using e by (intro mult_mono powi_mono2) simp_all
    also have "\<dots> \<le> 2 powi 1000" using assms(3) by (simp add: x)
    finally have "(2::real) powi (52 + 971) \<le> 2 powi 1000" unfolding powi_add by simp
    moreover have "(2::real) powi 1000 < 2 powi (52 + 971)"
      by (rule power_int_strict_increasing) simp_all
    ultimately show False by linarith
  qed
  then show ?thesis using c by (cases s) (simp_all add: x dless_def dmax_def)
qed

end
