(* ===== verification/Bytes.thy ===== *)
theory Bytes
  imports Prelude
begin

text \<open>
  Binary streams: what \<^verbatim>\<open>os.write(reinterpret_cast<const char*>(&x), sizeof(x))\<close> writes and
  \<^verbatim>\<open>is.read\<close> reads back, for little-endian machines. A stream is the list of the bytes still to be
  read. A read that finds too few bytes sets the stream's fail bit and leaves its target
  indeterminate; the code never tests the stream and goes on to use the value, so such a read is
  \<open>Undefined\<close>.

  The locale \<open>codec\<close> is the contract between a writer and a reader of one kind of value. It is closed
  under pairs (\<open>codec_pair\<close>) and gives the round trip of a counted sequence.
\<close>

subsection \<open>Fixed-width integers\<close>

fun le_bytes :: "nat \<Rightarrow> nat \<Rightarrow> byte list" where
  "le_bytes 0 n = []"
| "le_bytes (Suc k) n = word_of_nat n # le_bytes k (n div 256)"

fun le_val :: "byte list \<Rightarrow> nat" where
  "le_val [] = 0"
| "le_val (b # bs) = unat b + 256 * le_val bs"

definition read_bytes :: "nat \<Rightarrow> byte list \<Rightarrow> (byte list \<times> byte list) outcome" where
  "read_bytes n bs = (if n \<le> length bs then Returns (take n bs, drop n bs) else Undefined)"

definition write_u32 :: "u32 \<Rightarrow> byte list" where
  "write_u32 w = le_bytes 4 (unat w)"

definition read_u32 :: "byte list \<Rightarrow> (u32 \<times> byte list) outcome" where
  "read_u32 bs = obind (read_bytes 4 bs) (\<lambda>(x, rest). Returns (word_of_nat (le_val x), rest))"

definition write_u64 :: "u64 \<Rightarrow> byte list" where
  "write_u64 w = le_bytes 8 (unat w)"

definition read_u64 :: "byte list \<Rightarrow> (u64 \<times> byte list) outcome" where
  "read_u64 bs = obind (read_bytes 8 bs) (\<lambda>(x, rest). Returns (word_of_nat (le_val x), rest))"

definition write_u8 :: "byte \<Rightarrow> byte list" where
  "write_u8 b = [b]"

definition read_u8 :: "byte list \<Rightarrow> (byte \<times> byte list) outcome" where
  "read_u8 bs = (case bs of [] \<Rightarrow> Undefined | b # rest \<Rightarrow> Returns (b, rest))"

text \<open>A \<^verbatim>\<open>bool\<close> is one byte; any value but 0 and 1 is no value of the type.\<close>

definition write_bool :: "bool \<Rightarrow> byte list" where
  "write_bool b = [if b then 1 else 0]"

definition read_bool :: "byte list \<Rightarrow> (bool \<times> byte list) outcome" where
  "read_bool bs =
     (case bs of [] \<Rightarrow> Undefined
      | b # rest \<Rightarrow> if b = 0 then Returns (False, rest) else if b = 1 then Returns (True, rest) else Undefined)"

lemma length_le_bytes [simp]: "length (le_bytes k n) = k"
  by (induction k arbitrary: n) auto

lemma le_val_le_bytes: "le_val (le_bytes k n) = n mod 256 ^ k"
proof (induction k arbitrary: n)
  case (Suc k)
  have "n mod 256 ^ Suc k = 256 * (n div 256 mod 256 ^ k) + n mod 256"
    by (simp add: mod_mult2_eq)
  with Suc show ?case by (simp add: unat_of_nat)
qed simp

lemma read_bytes_append [simp]: "length xs = n \<Longrightarrow> read_bytes n (xs @ rest) = Returns (xs, rest)"
  by (simp add: read_bytes_def)

subsection \<open>Strings\<close>

text \<open>A length as \<^verbatim>\<open>uint32_t\<close>, then that many bytes.\<close>

definition byte_of_char :: "char \<Rightarrow> byte" where
  "byte_of_char c = word_of_nat (of_char c)"

definition char_of_byte :: "byte \<Rightarrow> char" where
  "char_of_byte b = char_of (unat b)"

definition write_string :: "string \<Rightarrow> byte list" where
  "write_string s =
     write_u32 (word_of_nat (length s)) @
     map byte_of_char (take (unat (word_of_nat (length s) :: u32)) s)"

definition read_string :: "byte list \<Rightarrow> (string \<times> byte list) outcome" where
  "read_string bs =
     obind (read_u32 bs) (\<lambda>(n, rest).
     obind (read_bytes (unat n) rest) (\<lambda>(x, rest'). Returns (map char_of_byte x, rest')))"

lemma char_of_byte_of_char [simp]: "char_of_byte (byte_of_char c) = c"
proof -
  have "(of_char c :: nat) < 256" by simp
  then have "unat (word_of_nat (of_char c) :: byte) = of_char c"
    by (simp add: unat_of_nat)
  then show ?thesis by (simp add: char_of_byte_def byte_of_char_def)
qed

definition string_ok :: "string \<Rightarrow> bool" where
  "string_ok s \<longleftrightarrow> length s < 2 ^ 32"

subsection \<open>The contract of a writer and its reader\<close>

locale codec =
  fixes enc :: "'a \<Rightarrow> byte list"
    and dec :: "byte list \<Rightarrow> ('a \<times> byte list) outcome"
    and ok :: "'a \<Rightarrow> bool"
  assumes dec_enc: "ok x \<Longrightarrow> dec (enc x @ rest) = Returns (x, rest)"

fun read_n :: "(byte list \<Rightarrow> ('a \<times> byte list) outcome) \<Rightarrow> nat \<Rightarrow> byte list \<Rightarrow> ('a list \<times> byte list) outcome" where
  "read_n dec 0 bs = Returns ([], bs)"
| "read_n dec (Suc n) bs =
     obind (dec bs) (\<lambda>(x, rest). obind (read_n dec n rest) (\<lambda>(xs, rest'). Returns (x # xs, rest')))"

context codec begin

lemma read_n_enc:
  "list_all ok xs \<Longrightarrow> read_n dec (length xs) (concat (map enc xs) @ rest) = Returns (xs, rest)"
  by (induction xs) (auto simp: dec_enc)

text \<open>No encoding is a proper prefix of another one, so a stream is read back in one way only.\<close>

lemma enc_prefix_free:
  assumes "ok x" "ok y" "enc x @ r = enc y @ s"
  shows "x = y \<and> r = s"
proof -
  have "Returns (x, r) = dec (enc y @ s)" using assms(1) by (simp add: dec_enc flip: assms(3))
  then show ?thesis using assms(2) by (simp add: dec_enc)
qed

lemma dec_enc_nil: "ok x \<Longrightarrow> dec (enc x) = Returns (x, [])"
  using dec_enc [of x "[]"] by simp

end

definition pair_enc :: "('a \<Rightarrow> byte list) \<Rightarrow> ('b \<Rightarrow> byte list) \<Rightarrow> 'a \<times> 'b \<Rightarrow> byte list" where
  "pair_enc e1 e2 p = e1 (fst p) @ e2 (snd p)"

definition pair_dec ::
  "(byte list \<Rightarrow> ('a \<times> byte list) outcome) \<Rightarrow> (byte list \<Rightarrow> ('b \<times> byte list) outcome) \<Rightarrow>
   byte list \<Rightarrow> (('a \<times> 'b) \<times> byte list) outcome" where
  "pair_dec d1 d2 bs =
     obind (d1 bs) (\<lambda>(x, rest). obind (d2 rest) (\<lambda>(y, rest'). Returns ((x, y), rest')))"

locale codec_pair = one: codec enc1 dec1 ok1 + two: codec enc2 dec2 ok2
  for enc1 :: "'a \<Rightarrow> byte list" and dec1 ok1 and enc2 :: "'b \<Rightarrow> byte list" and dec2 ok2

sublocale codec_pair \<subseteq> pair: codec "pair_enc enc1 enc2" "pair_dec dec1 dec2"
  "\<lambda>p. ok1 (fst p) \<and> ok2 (snd p)"
  by unfold_locales (auto simp: pair_enc_def pair_dec_def one.dec_enc two.dec_enc)

lemma unat_mod_u32: "unat (x :: u32) mod 4294967296 = unat x"
  using unsigned_less [of x, where ?'a = nat] by simp

lemma unat_mod_u64: "unat (x :: u64) mod 18446744073709551616 = unat x"
  using unsigned_less [of x, where ?'a = nat] by simp

interpretation u32c: codec write_u32 read_u32 "\<lambda>_. True"
  by unfold_locales
    (simp add: write_u32_def read_u32_def le_val_le_bytes unat_mod_u32)

interpretation u64c: codec write_u64 read_u64 "\<lambda>_. True"
  by unfold_locales
    (simp add: write_u64_def read_u64_def le_val_le_bytes unat_mod_u64)

interpretation u8c: codec write_u8 read_u8 "\<lambda>_. True"
  by unfold_locales (simp add: write_u8_def read_u8_def)

interpretation boolc: codec write_bool read_bool "\<lambda>_. True"
  by unfold_locales (simp add: write_bool_def read_bool_def)

interpretation strc: codec write_string read_string string_ok
proof unfold_locales
  fix s rest assume "string_ok s"
  then have "unat (word_of_nat (length s) :: u32) = length s"
    by (simp add: string_ok_def unat_of_nat)
  then show "read_string (write_string s @ rest) = Returns (s, rest)"
    by (simp add: write_string_def read_string_def u32c.dec_enc comp_def)
qed

interpretation metac: codec_pair write_string read_string string_ok write_string read_string string_ok
  by unfold_locales

end
