(* ===== verification/Float_Vector.thy ===== *)
theory Float_Vector
  imports Float_Bounds Bytes
begin

text \<open>
  \<^verbatim>\<open>include/core/float_vector.h\<close> and \<^verbatim>\<open>impl/core/float_vector.cpp\<close>: a vector of floats with optional
  metadata. \<open>fv_data\<close> and \<open>fv_meta\<close> are \<^verbatim>\<open>unique_ptr\<close>s, \<open>None\<close> being the null pointer; the array
  is the list of its floats, and an access beyond it, or through the null pointer, is \<open>Undefined\<close>.
  \<open>fv_dim\<close> is the \<^verbatim>\<open>int dimension_\<close> in two's complement.
\<close>

record float_vector =
  fv_data :: "float32 list option"
  fv_meta :: "(string \<times> string) list option"
  fv_dim :: u32

definition floats :: "float_vector \<Rightarrow> float32 list" where
  "floats v = (case fv_data v of None \<Rightarrow> [] | Some xs \<Rightarrow> xs)"

text \<open>A well-formed vector owns exactly \<open>fv_dim\<close> floats.\<close>

definition fv_wf :: "float_vector \<Rightarrow> bool" where
  "fv_wf v \<longleftrightarrow> length (floats v) = unat (fv_dim v) \<and> 0 \<le> sint (fv_dim v)"

subsection \<open>Construction, copy, move\<close>

text \<open>\<^verbatim>\<open>std::make_unique<float[]>(dimension)\<close>: a negative count is a huge unsigned one and throws.\<close>

definition make_array :: "u32 \<Rightarrow> unit outcome" where
  "make_array d = (if sint d < 0 then Throws Bad_alloc else Returns ())"

text \<open>\<^verbatim>\<open>memcpy\<close> of \<open>d\<close> floats out of an array.\<close>

definition copy_floats :: "u32 \<Rightarrow> float32 list \<Rightarrow> float32 list outcome" where
  "copy_floats d xs = (if unat d \<le> length xs then Returns (take (unat d) xs) else Undefined)"

definition fv_default :: float_vector where
  "fv_default = \<lparr>fv_data = None, fv_meta = None, fv_dim = 0\<rparr>"

definition fv_new :: "u32 \<Rightarrow> float32 list \<Rightarrow> float_vector outcome" where
  "fv_new dimension data =
     obind (make_array dimension) (\<lambda>_. obind (copy_floats dimension data) (\<lambda>xs.
       Returns \<lparr>fv_data = Some xs, fv_meta = None, fv_dim = dimension\<rparr>))"

definition fv_copy :: "float_vector \<Rightarrow> float_vector outcome" where
  "fv_copy other =
     obind (make_array (fv_dim other)) (\<lambda>_. obind (copy_floats (fv_dim other) (floats other)) (\<lambda>xs.
       Returns \<lparr>fv_data = Some xs, fv_meta = fv_meta other, fv_dim = fv_dim other\<rparr>))"

text \<open>\<open>same\<close> says that both operands are one object. Metadata is only assigned when there is some.\<close>

definition fv_copy_assign :: "bool \<Rightarrow> float_vector \<Rightarrow> float_vector \<Rightarrow> float_vector outcome" where
  "fv_copy_assign same this other =
     (if same then Returns this
      else
        obind (make_array (fv_dim other)) (\<lambda>_. obind (copy_floats (fv_dim other) (floats other)) (\<lambda>xs.
          Returns \<lparr>fv_data = Some xs,
            fv_meta = (case fv_meta other of None \<Rightarrow> fv_meta this | Some m \<Rightarrow> Some m),
            fv_dim = fv_dim other\<rparr>)))"

text \<open>Moves return the target and what is left of the source, which keeps its dimension.\<close>

definition fv_move :: "float_vector \<Rightarrow> float_vector \<times> float_vector" where
  "fv_move other =
     (\<lparr>fv_data = fv_data other, fv_meta = fv_meta other, fv_dim = fv_dim other\<rparr>,
      other\<lparr>fv_data := None, fv_meta := None\<rparr>)"

definition fv_move_assign :: "bool \<Rightarrow> float_vector \<Rightarrow> float_vector \<Rightarrow> float_vector \<times> float_vector" where
  "fv_move_assign same this other =
     (if same then (this, other)
      else
        (this\<lparr>fv_dim := fv_dim other, fv_data := fv_data other, fv_meta := fv_meta other\<rparr>,
         other\<lparr>fv_data := None, fv_meta := None\<rparr>))"

text \<open>\<^verbatim>\<open>operator==\<close> compares dimensions and bit patterns, and ignores metadata.\<close>

definition fv_eq :: "float_vector \<Rightarrow> float_vector \<Rightarrow> bool outcome" where
  "fv_eq a b =
     (if fv_dim a \<noteq> fv_dim b then Returns False
      else
        obind (copy_floats (fv_dim a) (floats a)) (\<lambda>xs.
        obind (copy_floats (fv_dim a) (floats b)) (\<lambda>ys. Returns (xs = ys))))"

definition add_metadata :: "string \<Rightarrow> string \<Rightarrow> float_vector \<Rightarrow> float_vector" where
  "add_metadata key val v =
     v\<lparr>fv_meta := Some ((case fv_meta v of None \<Rightarrow> [] | Some m \<Rightarrow> m) @ [(key, val)])\<rparr>"

lemma fv_wf_floats: "fv_wf v \<Longrightarrow> copy_floats (fv_dim v) (floats v) = Returns (floats v)"
  by (simp add: fv_wf_def copy_floats_def)

lemma fv_new_wf:
  "fv_new d xs = Returns v \<Longrightarrow> fv_wf v \<and> fv_dim v = d \<and> floats v = take (unat d) xs \<and> fv_meta v = None"
  by (auto simp: fv_new_def make_array_def copy_floats_def fv_wf_def floats_def run split: if_splits)

lemma fv_copy_wf:
  "fv_wf v \<Longrightarrow> fv_copy v = Returns (v\<lparr>fv_data := Some (floats v)\<rparr>)"
  by (simp add: fv_copy_def fv_wf_floats make_array_def) (simp add: fv_wf_def)

lemma fv_wf_set_data [simp]: "fv_wf (v\<lparr>fv_data := Some (floats v)\<rparr>) = fv_wf v"
  by (simp add: fv_wf_def floats_def)

lemma floats_set_data [simp]: "floats (v\<lparr>fv_data := Some (floats v)\<rparr>) = floats v"
  by (simp add: floats_def)

lemma fv_wf_add_metadata [simp]: "fv_wf (add_metadata k x v) = fv_wf v"
  by (simp add: fv_wf_def floats_def add_metadata_def)

lemma fv_eq_iff:
  "fv_wf a \<Longrightarrow> fv_wf b \<Longrightarrow> fv_eq a b = Returns (fv_dim a = fv_dim b \<and> floats a = floats b)"
  by (auto simp: fv_eq_def fv_wf_floats) (simp add: fv_wf_floats copy_floats_def fv_wf_def)

lemma fv_move_assign_wf:
  "fst (fv_move_assign False this other) = other"
  by (simp add: fv_move_assign_def)

subsection \<open>Serialization\<close>

definition meta_bytes :: "(string \<times> string) list option \<Rightarrow> byte list" where
  "meta_bytes md =
     write_bool (md \<noteq> None) @
     (case md of
        None \<Rightarrow> []
      | Some m \<Rightarrow> write_u32 (word_of_nat (length m)) @ concat (map (pair_enc write_string write_string) m))"

definition fv_bytes :: "float_vector \<Rightarrow> byte list" where
  "fv_bytes v =
     write_u32 (fv_dim v) @
     (if 0 < sint (fv_dim v) then concat (map write_u32 (take (unat (fv_dim v)) (floats v))) else []) @
     meta_bytes (fv_meta v)"

definition fv_serialize :: "float_vector \<Rightarrow> byte list outcome" where
  "fv_serialize v =
     (if 0 < sint (fv_dim v) \<and> length (floats v) < unat (fv_dim v) then Undefined
      else Returns (fv_bytes v))"

definition read_meta :: "byte list \<Rightarrow> ((string \<times> string) list option \<times> byte list) outcome" where
  "read_meta bs =
     obind (read_bool bs) (\<lambda>(has_metadata, rest).
     if has_metadata then
       obind (read_u32 rest) (\<lambda>(size, rest').
       obind (read_n (pair_dec read_string read_string) (unat size) rest') (\<lambda>(m, rest'').
         Returns (Some m, rest'')))
     else Returns (None, rest))"

definition fv_deserialize :: "byte list \<Rightarrow> (float_vector \<times> byte list) outcome" where
  "fv_deserialize bs =
     obind (read_u32 bs) (\<lambda>(dimension, rest).
     obind (if 0 < sint dimension
            then obind (read_n read_u32 (unat dimension) rest) (\<lambda>(xs, rest'). Returns (Some xs, rest'))
            else Returns (None, rest)) (\<lambda>(data, rest').
     obind (read_meta rest') (\<lambda>(md, rest'').
       Returns (\<lparr>fv_data = data, fv_meta = md, fv_dim = dimension\<rparr>, rest''))))"

text \<open>
  What survives a round trip: strings and metadata counts that fit \<^verbatim>\<open>uint32_t\<close>, and an array exactly
  when the dimension is positive.
\<close>

definition meta_ok :: "(string \<times> string) list option \<Rightarrow> bool" where
  "meta_ok md =
     (case md of
        None \<Rightarrow> True
      | Some m \<Rightarrow> length m < 2 ^ 32 \<and> list_all (\<lambda>p. string_ok (fst p) \<and> string_ok (snd p)) m)"

definition fv_ok :: "float_vector \<Rightarrow> bool" where
  "fv_ok v \<longleftrightarrow> fv_wf v \<and> meta_ok (fv_meta v) \<and> (fv_data v = None \<longleftrightarrow> fv_dim v = 0)"

interpretation metadata: codec meta_bytes read_meta meta_ok
proof unfold_locales
  fix md rest assume ok: "meta_ok md"
  show "read_meta (meta_bytes md @ rest) = Returns (md, rest)"
  proof (cases md)
    case None
    then show ?thesis by (simp add: meta_bytes_def read_meta_def boolc.dec_enc)
  next
    case (Some m)
    then have "unat (word_of_nat (length m) :: u32) = length m"
      using ok by (simp add: meta_ok_def unat_of_nat)
    then show ?thesis using Some ok
      by (simp add: meta_bytes_def read_meta_def meta_ok_def boolc.dec_enc u32c.dec_enc
          metac.pair.read_n_enc)
  qed
qed

lemma unat_pos_sint: "0 \<le> sint (d :: u32) \<Longrightarrow> 0 < sint d \<longleftrightarrow> d \<noteq> 0"
  using signed_word_eqI [of d 0] by (auto simp: less_le)

interpretation fvc: codec fv_bytes fv_deserialize fv_ok
proof unfold_locales
  fix v rest assume ok: "fv_ok v"
  show "fv_deserialize (fv_bytes v @ rest) = Returns (v, rest)"
  proof (cases "fv_data v")
    case None
    with ok have "fv_dim v = 0" by (simp add: fv_ok_def)
    then show ?thesis using None ok
      by (simp add: fv_bytes_def fv_deserialize_def u32c.dec_enc metadata.dec_enc fv_ok_def)
  next
    case (Some xs)
    with ok have d: "0 < sint (fv_dim v)" "length xs = unat (fv_dim v)"
      by (auto simp: fv_ok_def fv_wf_def floats_def unat_pos_sint)
    then have "read_n read_u32 (unat (fv_dim v)) (concat (map write_u32 xs) @ r) = Returns (xs, r)" for r
      using u32c.read_n_enc [of xs r] by (simp add: list_all_iff)
    then show ?thesis using Some ok d
      by (simp add: fv_bytes_def fv_deserialize_def u32c.dec_enc metadata.dec_enc fv_ok_def floats_def)
  qed
qed

lemma fv_serialize_wf: "fv_wf v \<Longrightarrow> fv_serialize v = Returns (fv_bytes v)"
  by (simp add: fv_serialize_def fv_wf_def)

subsection \<open>Properties\<close>

text \<open>
  A vector that is written to a stream and read back is the same vector, with its metadata, and
  the reader stops where the writer stopped.
\<close>

lemma float_vector_roundtrip:
  assumes "fv_ok v"
  shows "obind (fv_serialize v) (\<lambda>bs. fv_deserialize (bs @ rest)) = Returns (v, rest)"
  using assms by (simp add: fv_serialize_wf fvc.dec_enc fv_ok_def)

lemma float_vector_roundtrip_instance:
  "obind (fv_serialize \<lparr>fv_data = Some [0x3F800000, 0], fv_meta = Some [(''k'', ''x'')], fv_dim = 2\<rparr>)
     (\<lambda>bs. fv_deserialize (bs @ [7])) =
   Returns (\<lparr>fv_data = Some [0x3F800000, 0], fv_meta = Some [(''k'', ''x'')], fv_dim = 2\<rparr>, [7])"
  by (rule float_vector_roundtrip)
    (simp add: fv_ok_def fv_wf_def floats_def meta_ok_def string_ok_def)

text \<open>
  Assigning one vector to another copies dimension and floats, so that the two compare equal. The
  metadata is copied only when the source has some; otherwise the target keeps its old metadata.
\<close>

lemma copy_assign_keeps_stale_metadata:
  assumes "fv_wf other"
  shows "\<exists>v. fv_copy_assign False this other = Returns v \<and> fv_wf v \<and> fv_eq v other = Returns True \<and>
    fv_meta v = (if fv_meta other = None then fv_meta this else fv_meta other)"
proof -
  define v where "v = \<lparr>fv_data = Some (floats other),
    fv_meta = (if fv_meta other = None then fv_meta this else fv_meta other), fv_dim = fv_dim other\<rparr>"
  have "0 \<le> sint (fv_dim other)" using assms by (simp add: fv_wf_def)
  then have v: "fv_copy_assign False this other = Returns v"
    using assms by (cases "fv_meta other") (simp_all add: v_def fv_copy_assign_def make_array_def fv_wf_floats)
  have "fv_wf v" "floats v = floats other" "fv_dim v = fv_dim other"
    "fv_meta v = (if fv_meta other = None then fv_meta this else fv_meta other)"
    using assms by (auto simp: v_def fv_wf_def floats_def)
  with v assms show ?thesis by (auto simp: fv_eq_iff)
qed

lemma copy_assign_keeps_stale_metadata_instance:
  "\<exists>v. fv_copy_assign False \<lparr>fv_data = Some [0], fv_meta = Some [(''k'', ''x'')], fv_dim = 1\<rparr>
      \<lparr>fv_data = Some [0x3F800000], fv_meta = None, fv_dim = 1\<rparr> = Returns v \<and> fv_wf v \<and>
    fv_eq v \<lparr>fv_data = Some [0x3F800000], fv_meta = None, fv_dim = 1\<rparr> = Returns True \<and>
    fv_meta v = (if fv_meta \<lparr>fv_data = Some [0x3F800000], fv_meta = None :: (string \<times> string) list option, fv_dim = 1\<rparr> = None
      then fv_meta \<lparr>fv_data = Some [0 :: float32], fv_meta = Some [(''k'', ''x'')], fv_dim = 1\<rparr> else
      fv_meta \<lparr>fv_data = Some [0x3F800000], fv_meta = None, fv_dim = 1\<rparr>)"
  by (rule copy_assign_keeps_stale_metadata) (simp add: fv_wf_def floats_def)

end
