(* ===== verification/Distance.thy ===== *)
theory Distance
  imports Float_Vector
begin

text \<open>
  \<^verbatim>\<open>include/core/distance.h\<close>, and the two free functions of \<^verbatim>\<open>impl/core/utils/utils.cpp\<close> that repeat
  it. A distance walks over the dimension of its \<^emph>\<open>first\<close> argument; when the second vector is
  shorter it reads beyond that vector's array. The products and sums are rounded one by one, in the
  order of the components (no fused multiply-add). The locale \<open>distance_fn\<close> is what the indices rely
  on.
\<close>

subsection \<open>The distance objects\<close>

text \<open>An enumeration over \<^verbatim>\<open>uint8_t\<close> can hold any byte; \<^verbatim>\<open>unknown\<close> is 255.\<close>

datatype dist_type = cosine | euclidean | inner_product | unrecognized byte

definition dist_unknown :: dist_type where
  "dist_unknown = unrecognized 255"

fun euclidean_sum :: "nat \<Rightarrow> float32 list \<Rightarrow> float32 list \<Rightarrow> double \<Rightarrow> double outcome" where
  "euclidean_sum 0 xs ys acc = Returns acc"
| "euclidean_sum (Suc n) (x # xs) (y # ys) acc =
     euclidean_sum n xs ys
       (dadd acc (dmul (dsub (f32_to_double x) (f32_to_double y)) (dsub (f32_to_double x) (f32_to_double y))))"
| "euclidean_sum (Suc n) _ _ acc = Undefined"

definition euclidean_compute :: "float_vector \<Rightarrow> float_vector \<Rightarrow> double outcome" where
  "euclidean_compute a b =
     obind (euclidean_sum (unat (fv_dim a)) (floats a) (floats b) dzero) (\<lambda>d. Returns (dsqrt d))"

fun cosine_sums ::
  "nat \<Rightarrow> float32 list \<Rightarrow> float32 list \<Rightarrow> double \<times> double \<times> double \<Rightarrow> (double \<times> double \<times> double) outcome" where
  "cosine_sums 0 xs ys acc = Returns acc"
| "cosine_sums (Suc n) (x # xs) (y # ys) (dot_product, mag_a, mag_b) =
     cosine_sums n xs ys
       (dadd dot_product (dmul (f32_to_double x) (f32_to_double y)),
        dadd mag_a (dmul (f32_to_double x) (f32_to_double x)),
        dadd mag_b (dmul (f32_to_double y) (f32_to_double y)))"
| "cosine_sums (Suc n) _ _ acc = Undefined"

definition cosine_of :: "double \<Rightarrow> double \<Rightarrow> double \<Rightarrow> double" where
  "cosine_of dot_product mag_a mag_b =
     (if deq mag_a dzero \<or> deq mag_b dzero then d_one
      else dsub d_one (ddiv dot_product (dmul mag_a mag_b)))"

definition cosine_compute :: "float_vector \<Rightarrow> float_vector \<Rightarrow> double outcome" where
  "cosine_compute a b =
     obind (cosine_sums (unat (fv_dim a)) (floats a) (floats b) (dzero, dzero, dzero))
       (\<lambda>(dot_product, mag_a, mag_b). Returns (cosine_of dot_product (dsqrt mag_a) (dsqrt mag_b)))"

fun inner_sum :: "nat \<Rightarrow> float32 list \<Rightarrow> float32 list \<Rightarrow> double \<Rightarrow> double outcome" where
  "inner_sum 0 xs ys acc = Returns acc"
| "inner_sum (Suc n) (x # xs) (y # ys) acc =
     inner_sum n xs ys (dadd acc (dmul (f32_to_double x) (f32_to_double y)))"
| "inner_sum (Suc n) _ _ acc = Undefined"

definition inner_product_compute :: "float_vector \<Rightarrow> float_vector \<Rightarrow> double outcome" where
  "inner_product_compute a b = inner_sum (unat (fv_dim a)) (floats a) (floats b) dzero"

definition get_distance_instance ::
  "dist_type \<Rightarrow> (float_vector \<Rightarrow> float_vector \<Rightarrow> double outcome) option" where
  "get_distance_instance t =
     (case t of
        cosine \<Rightarrow> Some cosine_compute
      | euclidean \<Rightarrow> Some euclidean_compute
      | inner_product \<Rightarrow> Some inner_product_compute
      | unrecognized _ \<Rightarrow> None)"

text \<open>\<^verbatim>\<open>dist_fn->compute(a, b)\<close>: a call through a null pointer is undefined.\<close>

definition compute_with :: "dist_type \<Rightarrow> float_vector \<Rightarrow> float_vector \<Rightarrow> double outcome" where
  "compute_with t a b =
     (case get_distance_instance t of None \<Rightarrow> Undefined | Some f \<Rightarrow> f a b)"

text \<open>\<^verbatim>\<open>utils::get_euclidean_distance\<close> and \<^verbatim>\<open>utils::get_cosine_distance\<close>\<close>

definition get_euclidean_distance :: "float_vector \<Rightarrow> float_vector \<Rightarrow> double outcome" where
  "get_euclidean_distance a b =
     obind (euclidean_sum (unat (fv_dim a)) (floats a) (floats b) dzero) (\<lambda>d. Returns (dsqrt d))"

definition get_cosine_distance :: "float_vector \<Rightarrow> float_vector \<Rightarrow> double outcome" where
  "get_cosine_distance a b =
     obind (cosine_sums (unat (fv_dim a)) (floats a) (floats b) (dzero, dzero, dzero))
       (\<lambda>(dot_product, mag_a, mag_b). Returns (cosine_of dot_product (dsqrt mag_a) (dsqrt mag_b)))"

subsection \<open>What the loops compute\<close>

lemma euclidean_sum_Returns:
  "n \<le> length xs \<Longrightarrow> n \<le> length ys \<Longrightarrow> \<exists>d. euclidean_sum n xs ys acc = Returns d"
  by (induction n xs ys acc rule: euclidean_sum.induct) auto

lemma euclidean_sum_short:
  "length ys < n \<Longrightarrow> euclidean_sum n xs ys acc = Undefined"
  by (induction n xs ys acc rule: euclidean_sum.induct) auto

lemma euclidean_sum_commute: "euclidean_sum n xs ys acc = euclidean_sum n ys xs acc"
  by (induction n xs ys acc rule: euclidean_sum.induct) (auto simp: square_dsub_swap)

lemma euclidean_sum_nonneg:
  assumes "list_all f32_finite xs" "list_all f32_finite ys" "dnonneg acc"
    and "euclidean_sum n xs ys acc = Returns d"
  shows "dnonneg d"
  using assms
  by (induction n xs ys acc rule: euclidean_sum.induct)
    (auto simp: dnonneg_dadd dnonneg_square dsub_finite_not_NaN f32_to_double_finite)

lemma euclidean_sum_self:
  assumes "list_all f32_finite xs" "n \<le> length xs"
  shows "euclidean_sum n xs xs dzero = Returns dzero"
  using assms
proof (induction n arbitrary: xs)
  case (Suc n)
  then obtain x xs' where "xs = x # xs'" by (cases xs) auto
  with Suc show ?case by (simp add: dsub_self f32_to_double_finite)
qed simp

lemma cosine_sums_Returns:
  "n \<le> length xs \<Longrightarrow> n \<le> length ys \<Longrightarrow> \<exists>d. cosine_sums n xs ys acc = Returns d"
  by (induction n xs ys acc rule: cosine_sums.induct) auto

lemma cosine_sums_short: "length ys < n \<Longrightarrow> cosine_sums n xs ys acc = Undefined"
  by (induction n xs ys acc rule: cosine_sums.induct) auto

lemma cosine_sums_commute:
  "cosine_sums n ys xs (d, mb, ma) =
     obind (cosine_sums n xs ys (d, ma, mb)) (\<lambda>(d, ma, mb). Returns (d, mb, ma))"
proof (induction n arbitrary: xs ys d ma mb)
  case (Suc n)
  show ?case
  proof (cases "xs = [] \<or> ys = []")
    case True
    then show ?thesis by (cases xs; cases ys) simp_all
  next
    case False
    then obtain x xs' y ys' where [simp]: "xs = x # xs'" "ys = y # ys'"
      by (meson list.exhaust)
    show ?thesis
      by (simp add: Suc.IH [of ys' xs'] dmul_commute [of "f32_to_double y" "f32_to_double x"])
  qed
qed simp

lemma cosine_of_commute: "cosine_of d ma mb = cosine_of d mb ma"
  by (simp only: cosine_of_def disj_commute [of "deq ma dzero"] dmul_commute [of ma])

lemma inner_sum_Returns:
  "n \<le> length xs \<Longrightarrow> n \<le> length ys \<Longrightarrow> \<exists>d. inner_sum n xs ys acc = Returns d"
  by (induction n xs ys acc rule: inner_sum.induct) auto

lemma inner_sum_short: "length ys < n \<Longrightarrow> inner_sum n xs ys acc = Undefined"
  by (induction n xs ys acc rule: inner_sum.induct) auto

lemma inner_sum_commute: "inner_sum n xs ys acc = inner_sum n ys xs acc"
  by (induction n xs ys acc rule: inner_sum.induct) (auto simp: dmul_commute)

subsection \<open>The contract of a distance\<close>

text \<open>Two vectors are comparable when both are well-formed and of one dimension.\<close>

definition same_dim :: "float_vector \<Rightarrow> float_vector \<Rightarrow> bool" where
  "same_dim a b \<longleftrightarrow> fv_wf a \<and> fv_wf b \<and> fv_dim a = fv_dim b"

definition fv_finite :: "float_vector \<Rightarrow> bool" where
  "fv_finite v \<longleftrightarrow> list_all f32_finite (floats v)"

lemma same_dim_sym: "same_dim a b \<Longrightarrow> same_dim b a"
  by (auto simp: same_dim_def)

text \<open>
  A distance returns on comparable vectors, is symmetric, and on longer queries reads out of range.
  Its clients also need its value to depend on the floats alone.
\<close>

locale distance_fn =
  fixes dist :: "float_vector \<Rightarrow> float_vector \<Rightarrow> double outcome"
  assumes dist_returns: "same_dim a b \<Longrightarrow> \<exists>d. dist a b = Returns d"
    and dist_sym: "same_dim a b \<Longrightarrow> dist b a = dist a b"
    and dist_overrun: "fv_wf b \<Longrightarrow> unat (fv_dim b) < unat (fv_dim a) \<Longrightarrow> dist a b = Undefined"
    and dist_cong: "fv_dim a = fv_dim a' \<Longrightarrow> floats a = floats a' \<Longrightarrow> floats b = floats b' \<Longrightarrow>
      dist a b = dist a' b'"
begin

lemma dist_all_return:
  assumes "\<And>v. v \<in> set vs \<Longrightarrow> same_dim q v"
  shows "\<exists>ds. map_outcome_list (dist q) vs = Returns ds \<and> length ds = length vs"
proof -
  have "dist q v = Returns (SOME d. dist q v = Returns d)" if "v \<in> set vs" for v
    using dist_returns [OF assms [OF that]] by (rule someI_ex)
  then have "map_outcome_list (dist q) vs = Returns (map (\<lambda>v. SOME d. dist q v = Returns d) vs)"
    by (rule map_outcome_list_Returns)
  then show ?thesis by simp
qed

end

text \<open>A distance whose values can be ordered: never a NaN on finite vectors.\<close>

locale ordered_distance_fn = distance_fn +
  assumes dist_not_NaN: "same_dim a b \<Longrightarrow> fv_finite a \<Longrightarrow> fv_finite b \<Longrightarrow> dist a b \<noteq> Returns NaN"

lemma same_dim_lengths:
  "same_dim a b \<Longrightarrow> unat (fv_dim a) \<le> length (floats a) \<and> unat (fv_dim a) \<le> length (floats b) \<and>
     fv_dim b = fv_dim a"
  by (auto simp: same_dim_def fv_wf_def)

lemma euclidean_returns:
  "unat (fv_dim a) \<le> length (floats a) \<Longrightarrow> unat (fv_dim a) \<le> length (floats b) \<Longrightarrow>
     \<exists>d. euclidean_compute a b = Returns d"
  using euclidean_sum_Returns [of "unat (fv_dim a)" "floats a" "floats b" dzero]
  by (auto simp: euclidean_compute_def)

lemma euclidean_nonneg:
  assumes "fv_finite a" "fv_finite b" "euclidean_compute a b = Returns d"
  shows "dnonneg d"
  using assms euclidean_sum_nonneg [of "floats a" "floats b" dzero "unat (fv_dim a)"]
  by (auto simp: euclidean_compute_def fv_finite_def run intro!: dnonneg_dsqrt)

lemma euclidean_sum_canonical:
  "euclidean_sum n xs ys acc = Returns d \<Longrightarrow> canonical binary64 acc \<Longrightarrow> canonical binary64 d"
  by (induction n xs ys acc rule: euclidean_sum.induct) (auto simp: dadd_canonical)

lemma euclidean_canonical: "euclidean_compute a b = Returns d \<Longrightarrow> canonical binary64 d"
  using euclidean_sum_canonical [of "unat (fv_dim a)" "floats a" "floats b" dzero]
  by (auto simp: euclidean_compute_def run dsqrt_canonical)

interpretation euclid: ordered_distance_fn euclidean_compute
proof unfold_locales
  fix a b :: float_vector assume "same_dim a b"
  note l = same_dim_lengths [OF this]
  show "\<exists>d. euclidean_compute a b = Returns d" using l by (blast intro: euclidean_returns)
  show "euclidean_compute b a = euclidean_compute a b"
    using l by (simp add: euclidean_compute_def euclidean_sum_commute [of _ "floats b"])
  show "euclidean_compute a b \<noteq> Returns NaN" if "fv_finite a" "fv_finite b"
    using euclidean_nonneg [OF that] dnonneg_not_NaN by blast
next
  fix a b :: float_vector assume "fv_wf b" "unat (fv_dim b) < unat (fv_dim a)"
  then show "euclidean_compute a b = Undefined"
    by (simp add: euclidean_compute_def fv_wf_def euclidean_sum_short)
qed (simp add: euclidean_compute_def)

interpretation cos: distance_fn cosine_compute
proof unfold_locales
  fix a b :: float_vector assume "same_dim a b"
  note l = same_dim_lengths [OF this]
  show "\<exists>d. cosine_compute a b = Returns d"
    using l cosine_sums_Returns [of "unat (fv_dim a)" "floats a" "floats b" "(dzero, dzero, dzero)"]
    by (auto simp: cosine_compute_def split: prod.splits)
  obtain d ma mb where s:
    "cosine_sums (unat (fv_dim a)) (floats a) (floats b) (dzero, dzero, dzero) = Returns (d, ma, mb)"
    using l cosine_sums_Returns [of "unat (fv_dim a)" "floats a" "floats b" "(dzero, dzero, dzero)"]
    by auto
  then show "cosine_compute b a = cosine_compute a b"
    using l cosine_sums_commute [of "unat (fv_dim a)" "floats b" "floats a" dzero dzero dzero]
    by (simp add: cosine_compute_def cosine_of_commute)
next
  fix a b :: float_vector assume "fv_wf b" "unat (fv_dim b) < unat (fv_dim a)"
  then show "cosine_compute a b = Undefined"
    by (simp add: cosine_compute_def fv_wf_def cosine_sums_short)
qed (simp add: cosine_compute_def)

interpretation inner: distance_fn inner_product_compute
proof unfold_locales
  fix a b :: float_vector assume "same_dim a b"
  note l = same_dim_lengths [OF this]
  show "\<exists>d. inner_product_compute a b = Returns d"
    using l by (simp add: inner_product_compute_def inner_sum_Returns)
  show "inner_product_compute b a = inner_product_compute a b"
    using l by (simp add: inner_product_compute_def inner_sum_commute [of _ "floats b"])
next
  fix a b :: float_vector assume "fv_wf b" "unat (fv_dim b) < unat (fv_dim a)"
  then show "inner_product_compute a b = Undefined"
    by (simp add: inner_product_compute_def fv_wf_def inner_sum_short)
qed (simp add: inner_product_compute_def)

text \<open>Whatever instance the type selects is one of the three.\<close>

lemma distance_instance_fn: "get_distance_instance t = Some f \<Longrightarrow> distance_fn f"
  by (cases t)
    (auto simp: get_distance_instance_def
      intro: euclid.distance_fn_axioms cos.distance_fn_axioms inner.distance_fn_axioms)

subsection \<open>No overflow\<close>

lemma square_diff_bound:
  assumes "f32_finite x" "f32_finite y"
  shows "dfinite (dmul (dsub (f32_to_double x) (f32_to_double y)) (dsub (f32_to_double x) (f32_to_double y))) \<and>
    dmag (dmul (dsub (f32_to_double x) (f32_to_double y)) (dsub (f32_to_double x) (f32_to_double y))) \<le> 2 powi 258"
proof -
  let ?b = "real 2 * (real (2 ^ 24 - 1) * 2 powi 104)"
  have "representable binary64 ?b" by (rule representable_multiple) simp_all
  moreover have "dmag (f32_to_double x) + dmag (f32_to_double y) \<le> ?b"
    using f32_to_double_bound [OF assms(1)] f32_to_double_bound [OF assms(2)] by (simp add: f32_max_def)
  ultimately have d: "dfinite (dsub (f32_to_double x) (f32_to_double y))"
    "dmag (dsub (f32_to_double x) (f32_to_double y)) \<le> ?b"
    using dsub_bound [of "f32_to_double x" "f32_to_double y" ?b]
      f32_to_double_bound [OF assms(1)] f32_to_double_bound [OF assms(2)] by simp_all
  have "?b * ?b \<le> 2 powi 258" by simp
  moreover have "dmag (dsub (f32_to_double x) (f32_to_double y)) * dmag (dsub (f32_to_double x) (f32_to_double y)) \<le> ?b * ?b"
    using d(2) by (intro mult_mono) simp_all
  moreover have "representable binary64 (2 powi 258)"
    using representable_multiple [of 1 1 258] by simp
  ultimately show ?thesis using d(1) by (intro dmul_bound) linarith+
qed

lemma euclidean_sum_bound:
  assumes "list_all f32_finite xs" "list_all f32_finite ys" "k + n < 2 ^ 53"
    and "dfinite acc" "dmag acc \<le> real k * 2 powi 258" "euclidean_sum n xs ys acc = Returns d"
  shows "dfinite d \<and> dmag d \<le> real (k + n) * 2 powi 258"
  using assms
proof (induction n xs ys acc arbitrary: k rule: euclidean_sum.induct)
  case (2 n x xs y ys acc)
  let ?q = "dmul (dsub (f32_to_double x) (f32_to_double y)) (dsub (f32_to_double x) (f32_to_double y))"
  have "dfinite ?q" "dmag ?q \<le> 2 powi 258" using square_diff_bound [of x y] 2(2,3) by simp_all
  moreover have "representable binary64 (real (Suc k) * (real 1 * 2 powi 258))"
    using 2(4) by (intro representable_multiple) simp_all
  moreover have "real (Suc k) * (real 1 * 2 powi 258) = real k * 2 powi 258 + 2 powi 258"
    by (simp add: algebra_simps)
  ultimately have "dfinite (dadd acc ?q) \<and> dmag (dadd acc ?q) \<le> real (Suc k) * (real 1 * 2 powi 258)"
    using 2(5,6) by (intro dadd_bound) simp_all
  then show ?case using 2(1) [of "Suc k"] 2(2-7) by simp
qed simp_all

text \<open>A distance between finite vectors is less than \<^verbatim>\<open>numeric_limits<double>::max()\<close>.\<close>

lemma euclidean_below_max:
  assumes "same_dim a b" "fv_finite a" "fv_finite b"
  shows "\<exists>d. euclidean_compute a b = Returns d \<and> dfinite d \<and> dless d dmax"
proof -
  let ?n = "unat (fv_dim a)"
  have n: "?n < 2 ^ 32" using unsigned_less [of "fv_dim a", where ?'a = nat] by simp
  obtain s where s: "euclidean_sum ?n (floats a) (floats b) dzero = Returns s"
    using euclidean_sum_Returns [of ?n "floats a" "floats b" dzero] same_dim_lengths [OF assms(1)] by auto
  have "dfinite s \<and> dmag s \<le> real (0 + ?n) * 2 powi 258"
    using assms(2,3) n by (intro euclidean_sum_bound [OF _ _ _ _ _ s]) (simp_all add: fv_finite_def dzero_def)
  moreover have "real ?n * 2 powi 258 \<le> 2 ^ 32 * 2 powi 258"
    using of_nat_mono [OF less_imp_le [OF n], where 'a = real] by (intro mult_right_mono) simp_all
  ultimately have f: "dfinite s" "dmag s \<le> 2 ^ 32 * 2 powi 258" by simp_all
  have nn: "dnonneg s" using euclidean_sum_nonneg [OF _ _ _ s] assms(2,3) by (simp add: fv_finite_def)
  have "representable binary64 (2 powi 200)" using representable_multiple [of 1 1 200] by simp
  moreover have "9 / 4 * dmag s \<le> 2 powi 200 * 2 powi 200" using f(2) by simp
  ultimately have "dfinite (dsqrt s) \<and> dmag (dsqrt s) \<le> 2 powi 200"
    by (intro dsqrt_bound f(1) nn) simp_all
  moreover have "(2::real) powi 200 \<le> 2 powi 1000" by (rule powi_mono2) simp
  moreover have "canonical binary64 (dsqrt s)"
    using euclidean_sum_canonical [OF s] by (simp add: dsqrt_canonical)
  ultimately show ?thesis using dless_dmax [of "dsqrt s"] s by (auto simp: euclidean_compute_def)
qed

lemma euclidean_self: "fv_wf v \<Longrightarrow> fv_finite v \<Longrightarrow> euclidean_compute v v = Returns dzero"
  using euclidean_sum_self [of "floats v" "unat (fv_dim v)"]
  by (simp add: euclidean_compute_def fv_wf_def fv_finite_def)

subsection \<open>Properties\<close>

text \<open>
  Every distance the database knows returns on two vectors of one dimension, and does not depend on
  their order.
\<close>

lemma distance_symmetric:
  assumes "get_distance_instance t \<noteq> None" "same_dim a b"
  shows "\<exists>d. compute_with t a b = Returns d \<and> compute_with t b a = Returns d"
proof -
  obtain f where f: "get_distance_instance t = Some f" using assms(1) by blast
  then have cw: "compute_with t = f" by (simp add: compute_with_def fun_eq_iff)
  show ?thesis
    using distance_fn.dist_returns [OF distance_instance_fn [OF f] assms(2)]
      distance_fn.dist_sym [OF distance_instance_fn [OF f] assms(2)]
    by (auto simp: cw)
qed

lemma distance_symmetric_instance:
  "\<exists>d. compute_with cosine \<lparr>fv_data = Some [0x3F800000], fv_meta = None, fv_dim = 1\<rparr>
      \<lparr>fv_data = Some [0x40400000], fv_meta = None, fv_dim = 1\<rparr> = Returns d \<and>
    compute_with cosine \<lparr>fv_data = Some [0x40400000], fv_meta = None, fv_dim = 1\<rparr>
      \<lparr>fv_data = Some [0x3F800000], fv_meta = None, fv_dim = 1\<rparr> = Returns d"
  by (rule distance_symmetric)
    (simp_all add: get_distance_instance_def same_dim_def fv_wf_def floats_def)

text \<open>
  A query that is longer than a stored vector makes every distance read beyond the end of that
  vector's array, which is undefined behaviour.
\<close>

lemma longer_query_undefined:
  assumes "get_distance_instance t \<noteq> None" "fv_wf v" "unat (fv_dim v) < unat (fv_dim query)"
  shows "compute_with t query v = Undefined"
proof -
  obtain f where f: "get_distance_instance t = Some f" using assms(1) by blast
  show ?thesis
    using distance_fn.dist_overrun [OF distance_instance_fn [OF f] assms(2,3)] f
    by (simp add: compute_with_def)
qed

lemma longer_query_undefined_instance:
  "compute_with euclidean \<lparr>fv_data = Some [0, 0], fv_meta = None, fv_dim = 2\<rparr>
     \<lparr>fv_data = Some [0x3F800000], fv_meta = None, fv_dim = 1\<rparr> = Undefined"
  by (rule longer_query_undefined) (simp_all add: get_distance_instance_def fv_wf_def floats_def)

text \<open>
  C39. The euclidean distance of two finite vectors of one dimension cannot overflow, whatever their
  dimension: it is finite, not negative, and less than \<^verbatim>\<open>numeric_limits<double>::max()\<close>, the value
  with which the nearest-centroid scans start, so these scans always find one. The distance of a
  vector from itself is zero.
\<close>

theorem euclidean_distance_range:
  assumes "same_dim a b" "fv_finite a" "fv_finite b"
  shows "(\<exists>d. euclidean_compute a b = Returns d \<and> dfinite d \<and> dnonneg d \<and> dless d dmax) \<and>
    euclidean_compute a a = Returns dzero"
  using euclidean_below_max [OF assms] euclidean_nonneg [OF assms(2,3)] euclidean_self [of a] assms
  by (auto simp: same_dim_def)

theorem euclidean_distance_range_witness:
  "(\<exists>d. euclidean_compute \<lparr>fv_data = Some [0x7F7FFFFF], fv_meta = None, fv_dim = 1\<rparr>
      \<lparr>fv_data = Some [0xFF7FFFFF], fv_meta = None, fv_dim = 1\<rparr> = Returns d \<and>
      dfinite d \<and> dnonneg d \<and> dless d dmax) \<and>
    euclidean_compute \<lparr>fv_data = Some [0x7F7FFFFF], fv_meta = None, fv_dim = 1\<rparr>
      \<lparr>fv_data = Some [0x7F7FFFFF], fv_meta = None, fv_dim = 1\<rparr> = Returns dzero"
  by (rule euclidean_distance_range)
    (simp_all add: same_dim_def fv_wf_def floats_def fv_finite_def f32_finite_def f32_exp_def)

end
