(* ===== verification/Vec_Table.thy ===== *)
theory Vec_Table
  imports Distance
begin

text \<open>
  The part of a \<^verbatim>\<open>collection\<close> (\<^verbatim>\<open>impl/core/collection.cpp\<close>) that its indices read: the map \<^verbatim>\<open>vectors_\<close>
  and how the running thread holds \<^verbatim>\<open>vec_mutex_\<close>. The two accessors take the mutex in shared mode, so
  a thread that already holds it exclusively waits for itself (\<open>Blocks\<close>). Taking it shared twice is
  granted, which is what the implementations do when no writer waits.

  The locale \<open>vec_source\<close> is what the indices rely on when they read a collection.
\<close>

datatype mutex = Free | Shared | Exclusive

record vec_table =
  vectors :: "(id_t \<times> float_vector) list"
  vec_mutex :: mutex

definition get_vector_by_id :: "vec_table \<Rightarrow> id_t \<Rightarrow> float_vector option outcome" where
  "get_vector_by_id t i =
     (if vec_mutex t = Exclusive then Blocks
      else
        (case map_of (vectors t) i of
           None \<Rightarrow> Returns None
         | Some v \<Rightarrow> obind (fv_copy v) (\<lambda>c. Returns (Some c))))"

definition get_all_vector_ids :: "vec_table \<Rightarrow> id_t list outcome" where
  "get_all_vector_ids t =
     (if vec_mutex t = Exclusive then Blocks
      else Returns (fold (\<lambda>p ids. set_insert (fst p) ids) (vectors t) []))"

text \<open>The table's invariant: ids are unique and every vector has the collection's dimension.\<close>

definition table_wf :: "u32 \<Rightarrow> vec_table \<Rightarrow> bool" where
  "table_wf n t \<longleftrightarrow>
     distinct (keys_of (vectors t)) \<and> list_all (\<lambda>p. fv_wf (snd p) \<and> fv_dim (snd p) = n) (vectors t)"

text \<open>What \<open>get_vector_by_id\<close> hands out: the stored vector, in an array of its own.\<close>

definition stored :: "float_vector \<Rightarrow> float_vector" where
  "stored v = v\<lparr>fv_data := Some (floats v)\<rparr>"

lemma stored_simps [simp]:
  "floats (stored v) = floats v" "fv_dim (stored v) = fv_dim v" "fv_meta (stored v) = fv_meta v"
  "fv_wf (stored v) = fv_wf v" "fv_finite (stored v) = fv_finite v"
  by (simp_all add: stored_def fv_finite_def)

lemma stored_same_dim [simp]: "same_dim q (stored v) = same_dim q v"
  by (simp add: same_dim_def)

lemma fold_set_insert:
  "distinct (map f xs) \<Longrightarrow> set (map f xs) \<inter> set acc = {} \<Longrightarrow>
     fold (\<lambda>p ids. set_insert (f p) ids) xs acc = acc @ map f xs"
  by (induction xs arbitrary: acc) (auto simp: set_insert_def)

lemma ids_wf:
  "table_wf n t \<Longrightarrow> vec_mutex t \<noteq> Exclusive \<Longrightarrow> get_all_vector_ids t = Returns (keys_of (vectors t))"
  using fold_set_insert [of fst "vectors t" "[]"] by (simp add: get_all_vector_ids_def table_wf_def)

lemma table_wf_lookup: "table_wf n t \<Longrightarrow> map_of (vectors t) i = Some v \<Longrightarrow> fv_wf v \<and> fv_dim v = n"
  by (fastforce simp: table_wf_def list_all_iff dest: map_of_SomeD)

lemma get_vector_wf:
  "table_wf n t \<Longrightarrow> vec_mutex t \<noteq> Exclusive \<Longrightarrow>
     get_vector_by_id t i = Returns (map_option stored (map_of (vectors t) i))"
  by (auto simp: get_vector_by_id_def fv_copy_wf stored_def dest: table_wf_lookup split: option.splits)

lemma blocked_table:
  "vec_mutex t = Exclusive \<Longrightarrow> get_all_vector_ids t = Blocks"
  "vec_mutex t = Exclusive \<Longrightarrow> get_vector_by_id t i = Blocks"
  by (simp_all add: get_all_vector_ids_def get_vector_by_id_def)

subsection \<open>The contract of a source of vectors\<close>

locale vec_source =
  fixes ids :: "'t \<Rightarrow> id_t list outcome"
    and get :: "'t \<Rightarrow> id_t \<Rightarrow> float_vector option outcome"
    and readable :: "'t \<Rightarrow> bool"
    and content :: "'t \<Rightarrow> (id_t \<times> float_vector) list"
  assumes content_distinct: "readable t \<Longrightarrow> distinct (keys_of (content t))"
    and ids_content: "readable t \<Longrightarrow> ids t = Returns (keys_of (content t))"
    and get_content: "readable t \<Longrightarrow> get t i = Returns (map_of (content t) i)"
begin

lemma get_member: "readable t \<Longrightarrow> (i, v) \<in> set (content t) \<Longrightarrow> get t i = Returns (Some v)"
  by (simp add: get_content content_distinct)

lemma get_iff_id:
  "readable t \<Longrightarrow> ids t = Returns is \<Longrightarrow> (\<exists>v. get t i = Returns (Some v)) \<longleftrightarrow> i \<in> set is"
  by (metis get_content ids_content key_has_value outcome.inject)

lemma fetch_all:
  assumes "readable t" and "\<And>i v. (i, v) \<in> set (content t) \<Longrightarrow> f i v = Returns (g i v)"
  shows "map_outcome_list (\<lambda>i. obind (get t i) (\<lambda>v. f i (the v))) (keys_of (content t)) =
     Returns (map (\<lambda>(i, v). g i v) (content t))"
proof -
  have "map_outcome_list (\<lambda>i. obind (get t i) (\<lambda>v. f i (the v))) (map fst ps) =
      Returns (map (\<lambda>(i, v). g i v) ps)" if "set ps \<subseteq> set (content t)" for ps
    using that by (induction ps) (auto simp: get_member [OF assms(1)] assms(2))
  then show ?thesis by blast
qed

end

definition table_content :: "vec_table \<Rightarrow> (id_t \<times> float_vector) list" where
  "table_content t = map (\<lambda>(i, v). (i, stored v)) (vectors t)"

definition table_readable :: "vec_table \<Rightarrow> bool" where
  "table_readable t \<longleftrightarrow> table_wf (case vectors t of [] \<Rightarrow> 0 | p # _ \<Rightarrow> fv_dim (snd p)) t \<and> vec_mutex t \<noteq> Exclusive"

lemma table_readableI: "table_wf n t \<Longrightarrow> vec_mutex t \<noteq> Exclusive \<Longrightarrow> table_readable t"
  by (auto simp: table_readable_def table_wf_def split: list.splits)

lemma keys_table_content [simp]: "keys_of (table_content t) = keys_of (vectors t)"
  by (simp add: table_content_def comp_def case_prod_beta)

lemma map_of_table_content: "map_of (table_content t) i = map_option stored (map_of (vectors t) i)"
  by (simp add: table_content_def map_of_map)

interpretation tab: vec_source get_all_vector_ids get_vector_by_id table_readable table_content
proof unfold_locales
  fix t i assume r: "table_readable t"
  then obtain n where n: "table_wf n t" "vec_mutex t \<noteq> Exclusive" by (auto simp: table_readable_def)
  show "distinct (keys_of (table_content t))" using n by (simp add: table_wf_def)
  show "get_all_vector_ids t = Returns (keys_of (table_content t))" using n by (simp add: ids_wf)
  show "get_vector_by_id t i = Returns (map_of (table_content t) i)"
    using n by (simp add: get_vector_wf map_of_table_content)
qed

subsection \<open>Sample data\<close>

text \<open>One-dimensional vectors and a table of two of them, at 1.0 and 3.0, to instantiate theorems with.\<close>

definition sample_vector :: "float32 \<Rightarrow> float_vector" where
  "sample_vector x = \<lparr>fv_data = Some [x], fv_meta = None, fv_dim = 1\<rparr>"

definition sample_table :: "mutex \<Rightarrow> vec_table" where
  "sample_table m = \<lparr>vectors = [(7, sample_vector 0x3F800000), (9, sample_vector 0x40400000)], vec_mutex = m\<rparr>"

lemma sample_vector_simps [simp]:
  "fv_wf (sample_vector x)" "fv_dim (sample_vector x) = 1" "floats (sample_vector x) = [x]"
  "fv_meta (sample_vector x) = None" "stored (sample_vector x) = sample_vector x"
  "fv_finite (sample_vector x) = f32_finite x"
  by (simp_all add: sample_vector_def fv_wf_def floats_def stored_def fv_finite_def)

lemma sample_table_simps [simp]:
  "vectors (sample_table m) = [(7, sample_vector 0x3F800000), (9, sample_vector 0x40400000)]"
  "vec_mutex (sample_table m) = m" "table_wf 1 (sample_table m)"
  by (simp_all add: sample_table_def table_wf_def)

end
