(* ===== verification/Ordering.thy ===== *)
theory Ordering
  imports Floating "HOL-Library.Product_Lexorder" "HOL-Library.Multiset"
begin

text \<open>
  The ordered parts of the standard library the search code uses: \<^verbatim>\<open>operator<\<close> on a pair with a
  \<^verbatim>\<open>double\<close>, \<^verbatim>\<open>std::partial_sort\<close>, \<^verbatim>\<open>std::priority_queue\<close> and \<^verbatim>\<open>std::set\<close>. Each of them requires that
  its comparison is a strict weak ordering of the elements; a NaN can break that, and then the call
  is \<open>Undefined\<close>. The locale \<open>keyed_order\<close> is the contract under which none of this happens: on the
  elements in use the comparison is that of a linearly ordered key.
\<close>

subsection \<open>Comparisons\<close>

text \<open>\<^verbatim>\<open>std::pair<double, T>\<close>: the second components decide unless the first ones differ.\<close>

definition pair_less :: "double \<times> 'b::linorder \<Rightarrow> double \<times> 'b \<Rightarrow> bool" where
  "pair_less p q \<longleftrightarrow> dless (fst p) (fst q) \<or> (\<not> dless (fst q) (fst p) \<and> snd p < snd q)"

definition strict_weak_on :: "('a \<Rightarrow> 'a \<Rightarrow> bool) \<Rightarrow> 'a list \<Rightarrow> bool" where
  "strict_weak_on lt xs \<longleftrightarrow>
     list_all (\<lambda>x. \<not> lt x x) xs \<and>
     list_all (\<lambda>x. list_all (\<lambda>y. list_all (\<lambda>z.
       (lt x y \<and> lt y z \<longrightarrow> lt x z) \<and>
       (\<not> lt x y \<and> \<not> lt y x \<and> \<not> lt y z \<and> \<not> lt z y \<longrightarrow> \<not> lt x z \<and> \<not> lt z x)) xs) xs) xs"

subsection \<open>Sorting and ordered containers\<close>

fun ins :: "('a \<Rightarrow> 'a \<Rightarrow> bool) \<Rightarrow> 'a \<Rightarrow> 'a list \<Rightarrow> 'a list" where
  "ins lt x [] = [x]"
| "ins lt x (y # ys) = (if lt y x then y # ins lt x ys else x # y # ys)"

definition sort_by :: "('a \<Rightarrow> 'a \<Rightarrow> bool) \<Rightarrow> 'a list \<Rightarrow> 'a list" where
  "sort_by lt xs = foldr (ins lt) xs []"

text \<open>
  \<^verbatim>\<open>std::partial_sort(first, first + k, last)\<close>: the \<open>k\<close> smallest in order. What is left behind them is
  unspecified and the code does not read it.
\<close>

definition partial_sort :: "('a \<Rightarrow> 'a \<Rightarrow> bool) \<Rightarrow> nat \<Rightarrow> 'a list \<Rightarrow> 'a list outcome" where
  "partial_sort lt k xs =
     (if k \<le> length xs \<and> strict_weak_on lt xs then Returns (take k (sort_by lt xs)) else Undefined)"

text \<open>
  A \<^verbatim>\<open>std::priority_queue\<close> is the list of its elements in the order in which \<open>pop\<close> takes them out;
  \<open>before x y\<close> says that \<open>x\<close> comes out before \<open>y\<close>. \<^verbatim>\<open>top\<close> and \<^verbatim>\<open>pop\<close> are \<open>hd\<close> and \<open>tl\<close>.
\<close>

definition pq_push :: "('a \<Rightarrow> 'a \<Rightarrow> bool) \<Rightarrow> 'a \<Rightarrow> 'a list \<Rightarrow> 'a list outcome" where
  "pq_push before x q =
     (if strict_weak_on before (x # q) then Returns (ins before x q) else Undefined)"

text \<open>A \<^verbatim>\<open>std::set\<close> is the list of its elements in order; an element equivalent to a member is dropped.\<close>

definition oset_insert :: "('a \<Rightarrow> 'a \<Rightarrow> bool) \<Rightarrow> 'a \<Rightarrow> 'a list \<Rightarrow> 'a list outcome" where
  "oset_insert lt x s =
     (if \<not> strict_weak_on lt (x # s) then Undefined
      else if list_ex (\<lambda>y. \<not> lt x y \<and> \<not> lt y x) s then Returns s
      else Returns (ins lt x s))"

subsection \<open>Sorted lists of keys\<close>

lemma take_insort_take: "sorted xs \<Longrightarrow> take k (insort x (take k xs)) = take k (insort x xs)"
proof (induction xs arbitrary: k)
  case (Cons y ys)
  then show ?case by (cases k) (auto simp: take_Cons')
qed simp

lemma take_sort_append:
  "take k (sort (take k (sort xs) @ ys)) = take k (sort (xs @ ys))" for xs ys :: "'a::linorder list"
proof (induction ys arbitrary: xs rule: rev_induct)
  case Nil
  then show ?case by (simp add: sorted_sort_id)
next
  case (snoc y ys)
  have s: "sort (zs @ [y]) = insort y (sort zs)" for zs
    by (rule properties_for_sort) (simp_all add: sorted_insort)
  have "take k (sort (take k (sort xs) @ ys @ [y])) = take k (insort y (sort (take k (sort xs) @ ys)))"
    using s [of "take k (sort xs) @ ys"] by simp
  also have "\<dots> = take k (insort y (take k (sort (take k (sort xs) @ ys))))"
    by (simp add: take_insort_take)
  also have "\<dots> = take k (insort y (take k (sort (xs @ ys))))" by (simp only: snoc.IH)
  also have "\<dots> = take k (insort y (sort (xs @ ys)))" by (simp add: take_insort_take)
  also have "\<dots> = take k (sort (xs @ ys @ [y]))" using s [of "xs @ ys"] by simp
  finally show ?case by simp
qed

lemma map_insort_key: "map f (insort_key f x xs) = insort (f x) (map f xs)"
  by (induction xs) auto

lemma map_sort_key: "map f (sort_key f xs) = sort (map f xs)"
  by (induction xs) (simp_all add: map_insort_key)

subsection \<open>The contract of a comparison\<close>

locale keyed_order =
  fixes lt :: "'a \<Rightarrow> 'a \<Rightarrow> bool"
    and key :: "'a \<Rightarrow> 'k::linorder"
    and ok :: "'a \<Rightarrow> bool"
  assumes less_iff: "ok x \<Longrightarrow> ok y \<Longrightarrow> lt x y \<longleftrightarrow> key x < key y"
begin

lemma strict_weak: "list_all ok xs \<Longrightarrow> strict_weak_on lt xs"
  by (auto simp: strict_weak_on_def list_all_iff less_iff)

lemma ins_key: "ok x \<Longrightarrow> list_all ok xs \<Longrightarrow> ins lt x xs = insort_key key x xs"
  by (induction xs) (auto simp: less_iff)

lemma sort_by_key: "list_all ok xs \<Longrightarrow> sort_by lt xs = sort_key key xs"
proof (induction xs)
  case (Cons x xs)
  then have "list_all ok (sort_key key xs)" by (simp add: list_all_iff)
  with Cons show ?case by (simp add: sort_by_def ins_key)
qed (simp add: sort_by_def)

lemma partial_sort_key:
  "list_all ok xs \<Longrightarrow> k \<le> length xs \<Longrightarrow> partial_sort lt k xs = Returns (take k (sort_key key xs))"
  by (simp add: partial_sort_def strict_weak sort_by_key)

text \<open>An ordered set of distinct keys.\<close>

lemma oset_insert_key:
  assumes "ok x" "list_all ok s" "sorted (map key s)" "distinct (map key s)"
  shows "oset_insert lt x s = Returns (if key x \<in> key ` set s then s else insort_key key x s)"
proof -
  have "list_ex (\<lambda>y. \<not> lt x y \<and> \<not> lt y x) s \<longleftrightarrow> key x \<in> key ` set s"
    using assms(1,2) by (auto simp: list_ex_iff list_all_iff less_iff image_iff)
  then show ?thesis using assms strict_weak [of "x # s"]
    by (simp add: oset_insert_def ins_key)
qed

end

text \<open>
  A queue from which the largest comes out first: \<open>before\<close> is the converse of the comparison. Pushing
  and dropping the top whenever there are more than \<open>k\<close> leaves the \<open>k\<close> smallest keys.
\<close>

definition converse_of :: "('a \<Rightarrow> 'a \<Rightarrow> bool) \<Rightarrow> 'a \<Rightarrow> 'a \<Rightarrow> bool" where
  "converse_of lt x y = lt y x"

definition bounded_push :: "('a \<Rightarrow> 'a \<Rightarrow> bool) \<Rightarrow> nat \<Rightarrow> 'a \<Rightarrow> 'a list \<Rightarrow> 'a list outcome" where
  "bounded_push before k x q =
     obind (pq_push before x q) (\<lambda>q'. Returns (if length q' > k then tl q' else q'))"

context keyed_order begin

lemma strict_weak_converse: "list_all ok xs \<Longrightarrow> strict_weak_on (converse_of lt) xs"
  by (auto simp: strict_weak_on_def converse_of_def list_all_iff less_iff)

lemma ins_converse_keys:
  "ok x \<Longrightarrow> list_all ok q \<Longrightarrow> sorted (rev (map key q)) \<Longrightarrow>
     map key (ins (converse_of lt) x q) = rev (insort (key x) (rev (map key q)))"
proof (induction q)
  case (Cons y q)
  have s: "insort a (ys @ [b]) = (if a \<le> b then insort a ys @ [b] else ys @ [b, a])"
    if "sorted (ys @ [b])" for a b and ys :: "'k list"
    using that by (induction ys) (auto simp: insort_is_Cons)
  from Cons have "lt x y \<longleftrightarrow> key x < key y" by (simp add: less_iff)
  moreover have "insort (key x) (rev (map key q)) = rev (map key q) @ [key x]"
    if "key y = key x"
    using Cons.prems that by (intro sorted_insort_is_snoc) (auto simp: sorted_append)
  ultimately show ?case using Cons s [of "rev (map key q)" "key y" "key x"]
    by (auto simp: converse_of_def sorted_append)
qed simp

lemma set_ins: "set (ins r x q) = insert x (set q)"
  by (induction q) auto

lemma length_ins: "length (ins r x q) = Suc (length q)"
  by (induction q) auto

lemma bounded_push_keys:
  assumes "ok x" "list_all ok q" "sorted (rev (map key q))" "length q \<le> k"
  shows "\<exists>q'. bounded_push (converse_of lt) k x q = Returns q' \<and> list_all ok q' \<and>
     length q' \<le> k \<and> set q' \<subseteq> insert x (set q) \<and>
     rev (map key q') = take k (insort (key x) (rev (map key q)))"
proof -
  let ?r = "ins (converse_of lt) x q"
  have push: "pq_push (converse_of lt) x q = Returns ?r"
    using assms strict_weak_converse [of "x # q"] by (simp add: pq_push_def)
  have keys: "rev (map key ?r) = insort (key x) (rev (map key q))"
    using assms by (simp add: ins_converse_keys)
  have ok_r: "list_all ok ?r" using assms by (auto simp: list_all_iff set_ins)
  show ?thesis
  proof (cases "k < length ?r")
    case True
    then have len: "length ?r = Suc k" using assms(4) by (simp add: length_ins)
    then obtain y r where r: "?r = y # r" by (cases ?r) auto
    have "rev (map key r) = take k (insort (key x) (rev (map key q)))"
      using len r by (simp flip: keys)
    moreover have "set r \<subseteq> insert x (set q)" using r set_ins [of "converse_of lt" x q] by auto
    ultimately show ?thesis using push True r len ok_r keys
      by (auto simp: bounded_push_def)
  next
    case False
    then have "take k (rev (map key ?r)) = rev (map key ?r)" by simp
    then show ?thesis using push False ok_r keys set_ins [of "converse_of lt" x q]
      by (auto simp: bounded_push_def)
  qed
qed

text \<open>A queue from which the smallest comes out first is sorted.\<close>

lemma pq_pushes_key:
  assumes "list_all ok xs" "list_all ok q" "sorted (map key q)"
  shows "\<exists>q'. fold_outcome (pq_push lt) xs q = Returns q' \<and> mset q' = mset xs + mset q \<and> sorted (map key q')"
  using assms
proof (induction xs arbitrary: q)
  case (Cons x xs)
  have "pq_push lt x q = Returns (insort_key key x q)"
    using Cons.prems strict_weak [of "x # q"] by (simp add: pq_push_def ins_key)
  moreover have "list_all ok (insort_key key x q)" "sorted (map key (insort_key key x q))"
    using Cons.prems by (auto simp: list_all_iff set_insort_key sorted_insort_key)
  ultimately show ?case using Cons.IH [of "insort_key key x q"] Cons.prems by auto
qed simp

text \<open>The whole loop: the keys kept are the \<open>k\<close> smallest of all that were pushed.\<close>

lemma bounded_pushes_keys:
  assumes "list_all ok xs" "list_all ok q" "rev (map key q) = take k (sort ks)"
  shows "\<exists>q'. fold_outcome (bounded_push (converse_of lt) k) xs q = Returns q' \<and> list_all ok q' \<and>
     set q' \<subseteq> set xs \<union> set q \<and> rev (map key q') = take k (sort (ks @ map key xs))"
  using assms
proof (induction xs arbitrary: q ks)
  case (Cons x xs)
  have "sorted (rev (map key q))" "length q \<le> k"
    using Cons.prems(3) by (simp, metis length_map length_rev length_take min.cobounded2)
  then obtain q1 where q1: "bounded_push (converse_of lt) k x q = Returns q1" "list_all ok q1"
      "set q1 \<subseteq> insert x (set q)" "rev (map key q1) = take k (insort (key x) (rev (map key q)))"
    using bounded_push_keys [of x q k] Cons.prems by auto
  have "take k (insort (key x) (take k (sort ks))) = take k (sort (ks @ [key x]))"
  proof -
    have "sort (ks @ [key x]) = insort (key x) (sort ks)"
      by (rule properties_for_sort) (simp_all add: sorted_insort)
    then show ?thesis by (simp add: take_insort_take)
  qed
  with q1(4) Cons.prems(3) have "rev (map key q1) = take k (sort (ks @ [key x]))" by simp
  then obtain q' where "fold_outcome (bounded_push (converse_of lt) k) xs q1 = Returns q'"
      "list_all ok q'" "set q' \<subseteq> set xs \<union> set q1"
      "rev (map key q') = take k (sort ((ks @ [key x]) @ map key xs))"
    using Cons.IH [of q1 "ks @ [key x]"] Cons.prems q1(2) by auto
  then show ?case using q1 by auto
qed simp

end

text \<open>Pairs without a NaN are ordered by the rank of the distance, then by the second component.\<close>

definition pair_key :: "double \<times> 'b \<Rightarrow> int \<times> 'b" where
  "pair_key p = (rank (fst p), snd p)"

definition pair_ok :: "double \<times> 'b \<Rightarrow> bool" where
  "pair_ok p \<longleftrightarrow> fst p \<noteq> NaN"

interpretation pairs: keyed_order pair_less pair_key pair_ok
  by unfold_locales (auto simp: pair_less_def pair_key_def pair_ok_def dless_def less_prod_def)

end
