(* ===== verification/K_Means.thy ===== *)
theory K_Means
  imports Vec_Table Ordering
begin

text \<open>
  \<^verbatim>\<open>include/core/utils/k_means.h\<close>: Lloyd's iteration from the first \<open>k\<close> vectors, at most
  \<^verbatim>\<open>max_iterations\<close> rounds. A centroid is its vector and the positions of the vectors assigned to it.
  The number of rounds that are left is the recursion argument, so the loop ends by construction.
\<close>

type_synonym centroid = "float_vector \<times> nat list"

text \<open>
  The scan for the nearest of some vectors: strictly smaller distances win, starting from
  \<^verbatim>\<open>numeric_limits<double>::max()\<close>, so a distance that is infinite or a NaN is never chosen.
\<close>

fun scan_nearest ::
  "dist_type \<Rightarrow> float_vector \<Rightarrow> float_vector list \<Rightarrow> nat \<Rightarrow> double \<times> nat option \<Rightarrow>
   (double \<times> nat option) outcome" where
  "scan_nearest t v [] j acc = Returns acc"
| "scan_nearest t v (c # cs) j (min_dist, best) =
     obind (compute_with t v c) (\<lambda>d.
       scan_nearest t v cs (Suc j) (if dless d min_dist then (d, Some j) else (min_dist, best)))"

definition assign_one :: "dist_type \<Rightarrow> nat \<times> float_vector \<Rightarrow> centroid list \<Rightarrow> centroid list outcome" where
  "assign_one t iv cs =
     obind (scan_nearest t (snd iv) (map fst cs) 0 (dmax, None)) (\<lambda>(min_dist, best).
       Returns (case best of
          None \<Rightarrow> cs
        | Some j \<Rightarrow> cs[j := (fst (cs ! j), snd (cs ! j) @ [fst iv])]))"

definition assign_all :: "dist_type \<Rightarrow> float_vector list \<Rightarrow> centroid list \<Rightarrow> centroid list outcome" where
  "assign_all t vs cs =
     fold_outcome (assign_one t) (enumerate 0 vs) (map (\<lambda>c. (fst c, [])) cs)"

text \<open>\<^verbatim>\<open>sum[d] += vectors[idx].data_[d]\<close> over the dimension of the first vector.\<close>

definition add_floats :: "u32 \<Rightarrow> float_vector \<Rightarrow> double list \<Rightarrow> double list outcome" where
  "add_floats dimension v totals =
     obind (copy_floats dimension (floats v)) (\<lambda>xs. Returns (map2 dadd totals (map f32_to_double xs)))"

definition mean_vector :: "u32 \<Rightarrow> double list \<Rightarrow> nat \<Rightarrow> float_vector" where
  "mean_vector dimension totals n =
     \<lparr>fv_data = Some (map (\<lambda>s. double_to_f32 (ddiv s (double_of_nat n))) totals), fv_meta = None,
      fv_dim = dimension\<rparr>"

definition update_one :: "u32 \<Rightarrow> float_vector list \<Rightarrow> centroid \<Rightarrow> (centroid \<times> bool) outcome" where
  "update_one dimension vs c =
     (if snd c = [] then Returns (c, False)
      else
        obind (make_array dimension) (\<lambda>_.
        obind (fold_outcome (\<lambda>idx. add_floats dimension (vs ! idx)) (snd c) (replicate (unat dimension) dzero)) (\<lambda>totals.
        obind (fv_eq (mean_vector dimension totals (length (snd c))) (fst c)) (\<lambda>same.
          Returns (if same then (c, False)
                   else ((mean_vector dimension totals (length (snd c)), snd c), True))))))"

fun kmeans_loop :: "nat \<Rightarrow> dist_type \<Rightarrow> u32 \<Rightarrow> float_vector list \<Rightarrow> centroid list \<Rightarrow> centroid list outcome" where
  "kmeans_loop 0 t dimension vs cs = Returns cs"
| "kmeans_loop (Suc n) t dimension vs cs =
     obind (assign_all t vs cs) (\<lambda>cs1.
     obind (map_outcome_list (update_one dimension vs) cs1) (\<lambda>us.
       if list_ex snd us then kmeans_loop n t dimension vs (map fst us) else Returns (map fst us)))"

definition k_means :: "float_vector list \<Rightarrow> u32 \<Rightarrow> dist_type \<Rightarrow> nat \<Rightarrow> centroid list outcome" where
  "k_means vs k t max_iterations =
     (case vs of
        [] \<Rightarrow> Returns []
      | v # _ \<Rightarrow>
          if k = 0 then Returns []
          else
            obind (map_outcome_list fv_copy (take (if length vs < unat k then length vs else unat k) vs)) (\<lambda>cs.
              kmeans_loop max_iterations t (fv_dim v) vs (map (\<lambda>c. (c, [])) cs)))"

subsection \<open>The scan\<close>

lemma dless_irrefl [simp]: "\<not> dless x x"
  by (simp add: dless_def)

lemma dless_trans: "dless x y \<Longrightarrow> dless y z \<Longrightarrow> dless x z"
  by (auto simp: dless_def)

text \<open>What a scan has found: nothing below the start, or the first of the least distances.\<close>

lemma scan_nearest_Returns:
  assumes "get_distance_instance t = Some f" "\<And>c. c \<in> set cs \<Longrightarrow> same_dim v c"
  shows "\<exists>r. scan_nearest t v cs j acc = Returns r"
  using assms(2)
proof (induction cs arbitrary: j acc)
  case (Cons c cs)
  then obtain d where "compute_with t v c = Returns d"
    using distance_fn.dist_returns [OF distance_instance_fn [OF assms(1)], of v c]
    by (auto simp: compute_with_def assms(1))
  with Cons show ?case by (cases acc) simp
qed simp

lemma scan_nearest_best:
  assumes "scan_nearest t v cs j (m, b) = Returns (m', b')"
  shows "(b' = b \<and> m' = m \<and> (\<forall>i < length cs. \<forall>d. compute_with t v (cs ! i) = Returns d \<longrightarrow> \<not> dless d m)) \<or>
    (\<exists>i < length cs. b' = Some (j + i) \<and> compute_with t v (cs ! i) = Returns m' \<and> dless m' m \<and>
       (\<forall>l < length cs. \<forall>d. compute_with t v (cs ! l) = Returns d \<longrightarrow> \<not> dless d m'))"
  using assms
proof (induction cs arbitrary: j m b)
  case (Cons c cs)
  then obtain d where d: "compute_with t v c = Returns d"
    and rest: "scan_nearest t v cs (Suc j) (if dless d m then (d, Some j) else (m, b)) = Returns (m', b')"
    by (auto simp: run)
  show ?case
  proof (cases "dless d m")
    case True
    then have "dless e m" "\<not> dless d e" if "dless e d" for e
      using that dless_trans by (blast, auto simp: dless_def)
    then show ?thesis using Cons.IH [of "Suc j" d "Some j"] rest d True
      by (auto simp: All_less_Suc2 Ex_less_Suc2)
  next
    case False
    moreover from this have "\<not> dless d e" if "dless e m" for e
      using that dless_trans by blast
    ultimately show ?thesis using Cons.IH [of "Suc j" m b] rest d
      by (auto simp: All_less_Suc2 Ex_less_Suc2)
  qed
qed simp

lemma scan_nearest_index:
  assumes "scan_nearest t v cs 0 (m, None) = Returns (m', Some i)"
  shows "i < length cs"
  using scan_nearest_best [OF assms] by auto

subsection \<open>The assignment\<close>

text \<open>The position of the nearest of some vectors, \<open>None\<close> when every distance is too large.\<close>

definition owner :: "dist_type \<Rightarrow> float_vector \<Rightarrow> float_vector list \<Rightarrow> nat option" where
  "owner t v cs = (case scan_nearest t v cs 0 (dmax, None) of Returns r \<Rightarrow> snd r | _ \<Rightarrow> None)"

definition all_dim :: "u32 \<Rightarrow> float_vector list \<Rightarrow> bool" where
  "all_dim d vs \<longleftrightarrow> list_all (\<lambda>v. fv_wf v \<and> fv_dim v = d) vs"

lemma all_dim_same: "all_dim d vs \<Longrightarrow> all_dim d cs \<Longrightarrow> v \<in> set vs \<Longrightarrow> c \<in> set cs \<Longrightarrow> same_dim v c"
  by (auto simp: all_dim_def list_all_iff same_dim_def)

lemma owner_scan:
  assumes "get_distance_instance t = Some f" "\<And>c. c \<in> set cs \<Longrightarrow> same_dim v c"
  shows "\<exists>m. scan_nearest t v cs 0 (dmax, None) = Returns (m, owner t v cs)"
  using scan_nearest_Returns [OF assms, of cs 0 "(dmax, None)"] by (auto simp: owner_def)

lemma owner_less: "owner t v cs = Some j \<Longrightarrow> j < length cs"
  using scan_nearest_index by (auto simp: owner_def split: outcome.splits)

text \<open>Nothing is nearer than the owner.\<close>

lemma owner_nearest:
  assumes "owner t v cs = Some j"
  shows "\<exists>d. compute_with t v (cs ! j) = Returns d \<and>
    (\<forall>l < length cs. \<forall>e. compute_with t v (cs ! l) = Returns e \<longrightarrow> \<not> dless e d)"
  using assms scan_nearest_best [of t v cs 0 dmax None]
  by (auto simp: owner_def split: outcome.splits)

lemma owner_exists:
  assumes "get_distance_instance t = Some f" "\<And>c. c \<in> set cs \<Longrightarrow> same_dim v c"
    and "l < length cs" "compute_with t v (cs ! l) = Returns e" "dless e dmax"
  shows "owner t v cs \<noteq> None"
  using owner_scan [OF assms(1,2)] scan_nearest_best [of t v cs 0 dmax None] assms(3-) by fastforce

definition assigned :: "dist_type \<Rightarrow> float_vector list \<Rightarrow> float_vector list \<Rightarrow> nat \<Rightarrow> nat list" where
  "assigned t vs cents j = filter (\<lambda>i. owner t (vs ! i) cents = Some j) [0..<length vs]"

lemma assign_fold:
  assumes "get_distance_instance t = Some f"
    and "\<And>p c. p \<in> set ivs \<Longrightarrow> c \<in> fst ` set cs \<Longrightarrow> same_dim (snd p) c"
  shows "fold_outcome (assign_one t) ivs cs =
    Returns (map (\<lambda>j. (fst (cs ! j),
        snd (cs ! j) @ map fst (filter (\<lambda>p. owner t (snd p) (map fst cs) = Some j) ivs))) [0..<length cs])"
  using assms(2)
proof (induction ivs arbitrary: cs)
  case Nil
  then show ?case by (simp add: map_nth)
next
  case (Cons p ivs)
  let ?o = "owner t (snd p) (map fst cs)"
  define cs1 where "cs1 = (case ?o of None \<Rightarrow> cs | Some j \<Rightarrow> cs[j := (fst (cs ! j), snd (cs ! j) @ [fst p])])"
  have "assign_one t p cs = Returns cs1"
    using owner_scan [OF assms(1), of "map fst cs" "snd p"] Cons.prems
    by (auto simp: assign_one_def cs1_def)
  moreover have fst1: "map fst cs1 = map fst cs"
    by (auto simp: cs1_def map_update split: option.splits intro: list_update_same_conv [THEN iffD2])
      (metis length_map list_update_id list_update_beyond not_less nth_map)
  moreover have "fst ` set cs1 = fst ` set cs" using fst1 by (metis list.set_map)
  moreover have "length cs1 = length cs" using fst1 by (metis length_map)
  moreover have "cs1 ! j = (fst (cs ! j), snd (cs ! j) @ (if ?o = Some j then [fst p] else []))"
    if "j < length cs" for j
    using that by (auto simp: cs1_def split: option.splits)
  ultimately show ?case using Cons.IH [of cs1] Cons.prems by (auto simp: o_def)
qed

lemma assign_all_assigned:
  assumes "get_distance_instance t = Some f" "all_dim d vs" "all_dim d (map fst cs)"
  shows "assign_all t vs cs =
    Returns (map (\<lambda>j. (fst (cs ! j), assigned t vs (map fst cs) j)) [0..<length cs])"
proof -
  let ?z = "map (\<lambda>c. (fst c, [])) cs :: centroid list"
  have "map fst (filter (\<lambda>p. owner t (snd p) cents = Some j) (enumerate 0 vs)) = assigned t vs cents j"
    for cents j
  proof -
    have "enumerate 0 vs = map (\<lambda>i. (i, vs ! i)) [0..<length vs]"
      by (rule nth_equalityI) (auto simp: nth_enumerate_eq)
    then show ?thesis by (simp add: assigned_def filter_map comp_def)
  qed
  moreover have "same_dim (snd p) c" if "p \<in> set (enumerate 0 vs)" "c \<in> fst ` set ?z" for p c
  proof (rule all_dim_same [OF assms(2,3)])
    show "snd p \<in> set vs" using that(1) set_zip_rightD [of "fst p" "snd p"] by (simp add: enumerate_eq_zip)
    show "c \<in> set (map fst cs)" using that(2) by force
  qed
  ultimately show ?thesis
    using assign_fold [OF assms(1), of "enumerate 0 vs" ?z]
    by (simp add: assign_all_def comp_def cong: map_cong)
qed

lemma assigned_parts:
  "distinct (assigned t vs cents j)" "sorted (assigned t vs cents j)"
  "set (assigned t vs cents j) \<subseteq> {..<length vs}"
  "j \<noteq> l \<Longrightarrow> set (assigned t vs cents j) \<inter> set (assigned t vs cents l) = {}"
  by (auto simp: assigned_def sorted_wrt_filter)

subsection \<open>The update\<close>

lemma add_floats_Returns:
  "fv_wf v \<Longrightarrow> fv_dim v = d \<Longrightarrow> add_floats d v totals = Returns (map2 dadd totals (map f32_to_double (floats v)))"
  by (auto simp: add_floats_def fv_wf_floats)

lemma mean_vector_wf:
  "length totals = unat d \<Longrightarrow> 0 \<le> sint d \<Longrightarrow> fv_wf (mean_vector d totals n) \<and> fv_dim (mean_vector d totals n) = d"
  by (simp add: mean_vector_def fv_wf_def floats_def)

text \<open>A centroid that owns vectors moves to their mean; the others stay. No assignment changes.\<close>

lemma update_one_ok:
  assumes "all_dim d vs" "0 \<le> sint d" "fv_wf (fst c)" "set (snd c) \<subseteq> {..<length vs}"
  shows "\<exists>c' b. update_one d vs c = Returns ((c', snd c), b) \<and> fv_wf c' \<and>
     (fv_dim (fst c) = d \<longrightarrow> fv_dim c' = d) \<and> (\<not> b \<longrightarrow> c' = fst c)"
proof (cases "snd c = []")
  case False
  let ?add = "\<lambda>idx. add_floats d (vs ! idx)"
  have "\<exists>totals. fold_outcome ?add (snd c) (replicate (unat d) dzero) = Returns totals \<and> length totals = unat d"
  proof (rule fold_outcome_inv)
    fix idx totals assume "idx \<in> set (snd c)" "length (totals :: double list) = unat d"
    then show "\<exists>s'. ?add idx totals = Returns s' \<and> length s' = unat d"
      using assms(1,4) by (auto simp: all_dim_def list_all_length add_floats_Returns fv_wf_def)
  qed simp
  then obtain totals where s: "fold_outcome ?add (snd c) (replicate (unat d) dzero) = Returns totals"
    "length totals = unat d" by blast
  have m: "fv_wf (mean_vector d totals (length (snd c)))" "fv_dim (mean_vector d totals (length (snd c))) = d"
    using mean_vector_wf [OF s(2) assms(2)] by auto
  show ?thesis using False s(1) m assms(2,3)
    by (cases c) (auto simp: update_one_def make_array_def fv_eq_iff)
qed (use assms in \<open>cases c; auto simp: update_one_def\<close>)

text \<open>The mean of fewer than \<open>2 ^ 29\<close> finite vectors is finite: no sum overflows.\<close>

lemma add_floats_bound:
  assumes "fv_wf v" "fv_dim v = d" "fv_finite v" "Suc k < 2 ^ 29"
    and "list_all (\<lambda>s. dfinite s \<and> dmag s \<le> real k * f32_max) totals"
  shows "list_all (\<lambda>s. dfinite s \<and> dmag s \<le> real (Suc k) * f32_max)
    (map2 dadd totals (map f32_to_double (floats v)))"
proof -
  have "representable binary64 (real (Suc k) * f32_max)"
    using assms(4) unfolding f32_max_def by (intro representable_multiple) simp_all
  moreover have "real (Suc k) * f32_max = real k * f32_max + f32_max" by (simp add: algebra_simps)
  ultimately have add: "dfinite (dadd s (f32_to_double x)) \<and> dmag (dadd s (f32_to_double x)) \<le> real (Suc k) * f32_max"
    if "dfinite s" "dmag s \<le> real k * f32_max" "f32_finite x" for s x
    using that f32_to_double_bound [OF that(3)] by (intro dadd_bound) simp_all
  have "s \<in> set totals \<and> x \<in> f32_to_double ` set (floats v)" if "(s, x) \<in> set (zip totals (map f32_to_double (floats v)))" for s x
    using that by (auto dest: set_zip_leftD set_zip_rightD)
  then show ?thesis using assms(3,5) add by (fastforce simp: list_all_iff fv_finite_def)
qed

lemma mean_vector_finite:
  assumes "list_all (\<lambda>s. dfinite s \<and> dmag s \<le> real n * f32_max) totals" "0 < n" "n < 2 ^ 29"
  shows "fv_finite (mean_vector d totals n)"
proof -
  have n: "dfinite (double_of_nat n) \<and> dmag (double_of_nat n) = real n"
    using assms(2,3) by (intro double_of_nat_exact) simp_all
  have "representable binary64 f32_max"
    using representable_multiple [of 1 "2 ^ 24 - 1" 104] by (simp add: f32_max_def)
  then have "f32_finite (double_to_f32 (ddiv s (double_of_nat n)))" if "s \<in> set totals" for s
    using assms that n ddiv_bound [of s "double_of_nat n" f32_max]
    by (intro double_to_f32_finite) (auto simp: list_all_iff mult.commute)
  then show ?thesis by (simp add: fv_finite_def mean_vector_def floats_def list_all_iff)
qed

definition all_finite :: "float_vector list \<Rightarrow> bool" where
  "all_finite vs \<longleftrightarrow> list_all fv_finite vs"

definition small_finite :: "float_vector list \<Rightarrow> bool" where
  "small_finite vs \<longleftrightarrow> all_finite vs \<and> length vs < 2 ^ 29"

lemma update_one_finite:
  assumes "all_dim d vs" "all_finite vs" "length (snd c) < 2 ^ 29" "set (snd c) \<subseteq> {..<length vs}"
    and "fv_finite (fst c)" "update_one d vs c = Returns (c', b)"
  shows "fv_finite (fst c')"
proof (cases "snd c = []")
  case False
  let ?add = "\<lambda>idx. add_floats d (vs ! idx)" and ?P = "\<lambda>k. list_all (\<lambda>s. dfinite s \<and> dmag s \<le> real k * f32_max)"
  have totals: "?P (k + length ids) totals'"
    if "fold_outcome ?add ids totals = Returns totals'" "?P k totals" "k + length ids < 2 ^ 29" "set ids \<subseteq> {..<length vs}"
    for ids k totals totals'
    using that
  proof (induction ids arbitrary: k totals)
    case (Cons i ids)
    have v: "fv_wf (vs ! i)" "fv_dim (vs ! i) = d" "fv_finite (vs ! i)"
      using assms(1,2) Cons.prems(4) by (auto simp: all_dim_def all_finite_def list_all_length)
    have "?P (Suc k) (map2 dadd totals (map f32_to_double (floats (vs ! i))))"
      using Cons.prems(2,3) by (intro add_floats_bound [OF v]) simp_all
    then show ?case using Cons.IH [of _ "Suc k"] Cons.prems v by (simp add: add_floats_Returns)
  qed simp
  from assms(6) False obtain s where s: "fold_outcome ?add (snd c) (replicate (unat d) dzero) = Returns s"
    "c' = c \<or> fst c' = mean_vector d s (length (snd c))"
    by (auto simp: update_one_def run split: if_splits)
  have "?P 0 (replicate (unat d) dzero)" by (simp add: list_all_iff dzero_def)
  from totals [OF s(1) this] have "?P (length (snd c)) s" using assms(3,4) by simp
  then have "fv_finite (mean_vector d s (length (snd c)))"
    using False assms(3) by (intro mean_vector_finite) simp_all
  then show ?thesis using s(2) assms(5) by auto
qed (use assms in \<open>auto simp: update_one_def\<close>)

lemma update_all_ok:
  assumes "all_dim d vs" "0 \<le> sint d" "all_dim d (map fst cs)"
    and "\<And>c. c \<in> set cs \<Longrightarrow> set (snd c) \<subseteq> {..<length vs}"
  shows "\<exists>us. map_outcome_list (update_one d vs) cs = Returns us \<and> all_dim d (map fst (map fst us)) \<and>
     map snd (map fst us) = map snd cs \<and> (\<not> list_ex snd us \<longrightarrow> map fst us = cs)"
  using assms(3,4)
proof (induction cs)
  case (Cons c cs)
  then have "fv_wf (fst c)" "fv_dim (fst c) = d" "set (snd c) \<subseteq> {..<length vs}"
    by (auto simp: all_dim_def)
  with update_one_ok [OF assms(1,2), of c] obtain c' b where
    u: "update_one d vs c = Returns ((c', snd c), b)" "fv_wf c'" "fv_dim c' = d" "\<not> b \<longrightarrow> c' = fst c"
    by blast
  from Cons obtain us where "map_outcome_list (update_one d vs) cs = Returns us"
    "all_dim d (map fst (map fst us))" "map snd (map fst us) = map snd cs"
    "\<not> list_ex snd us \<longrightarrow> map fst us = cs" by (auto simp: all_dim_def)
  with u show ?case by (cases c) (auto simp: all_dim_def)
qed (simp add: all_dim_def)

subsection \<open>The clustering\<close>

text \<open>
  A clustering of \<open>vs\<close>: the vectors are assigned to the nearest of some centroids \<open>cents\<close>, which are
  the centroids before the last update.
\<close>

definition clustering :: "dist_type \<Rightarrow> float_vector list \<Rightarrow> float_vector list \<Rightarrow> centroid list \<Rightarrow> bool" where
  "clustering t vs cents cs \<longleftrightarrow>
     length cents = length cs \<and> map snd cs = map (assigned t vs cents) [0..<length cs]"

lemma kmeans_round:
  assumes "get_distance_instance t = Some f" "all_dim d vs" "0 \<le> sint d" "all_dim d (map fst cs)"
  obtains cs1 us where "assign_all t vs cs = Returns cs1"
    "map_outcome_list (update_one d vs) cs1 = Returns us" "all_dim d (map fst (map fst us))"
    "length us = length cs" "clustering t vs (map fst cs) (map fst us)"
    "small_finite vs \<and> all_finite (map fst cs) \<longrightarrow> all_finite (map fst (map fst us))"
proof -
  define cs1 where "cs1 = map (\<lambda>j. (fst (cs ! j), assigned t vs (map fst cs) j)) [0..<length cs]"
  have a: "assign_all t vs cs = Returns cs1"
    unfolding cs1_def by (rule assign_all_assigned [OF assms(1,2,4)])
  have f1: "map fst cs1 = map fst cs" by (rule nth_equalityI) (simp_all add: cs1_def)
  have s1: "map snd cs1 = map (assigned t vs (map fst cs)) [0..<length cs]" by (simp add: cs1_def)
  have "set (snd c) \<subseteq> {..<length vs}" if "c \<in> set cs1" for c
    using that by (auto simp: cs1_def dest!: subsetD [OF assigned_parts(3)])
  then obtain us where u: "map_outcome_list (update_one d vs) cs1 = Returns us"
    "all_dim d (map fst (map fst us))" "map snd (map fst us) = map snd cs1"
    using update_all_ok [OF assms(2,3), of cs1] assms(4) f1 by auto
  have "length us = length cs" using u(3) s1 by (metis length_map length_upt diff_zero)
  with u(3) s1 have "clustering t vs (map fst cs) (map fst us)" by (simp add: clustering_def)
  moreover have "all_finite (map fst (map fst us))" if "small_finite vs" "all_finite (map fst cs)"
  proof -
    have "fv_finite (fst (fst w))" if w: "w \<in> set us" for w
    proof -
      obtain c where c: "c \<in> set cs1" "update_one d vs c = Returns w"
        using map_outcome_list_elem [OF u(1) w] by blast
      then obtain j where j: "snd c = assigned t vs (map fst cs) j" by (auto simp: cs1_def)
      have "fst c \<in> set (map fst cs)" using c(1) by (simp flip: f1)
      then have "fv_finite (fst c)" using \<open>all_finite (map fst cs)\<close> by (auto simp: all_finite_def list_all_iff)
      moreover have "length (snd c) \<le> length vs"
        unfolding j using length_filter_le [of _ "[0..<length vs]"] by (simp add: assigned_def)
      ultimately show ?thesis
        using update_one_finite [OF assms(2), of c "fst w" "snd w"] c(2) \<open>small_finite vs\<close> j assigned_parts(3)
        by (simp add: small_finite_def)
    qed
    then show ?thesis by (simp add: all_finite_def list_all_iff)
  qed
  ultimately show ?thesis using that a u \<open>length us = length cs\<close> by blast
qed

lemma kmeans_loop_ok:
  assumes "get_distance_instance t = Some f" "all_dim d vs" "0 \<le> sint d" "all_dim d (map fst cs)"
  shows "\<exists>cs' cents. kmeans_loop (Suc n) t d vs cs = Returns cs' \<and> length cs' = length cs \<and>
     all_dim d (map fst cs') \<and> all_dim d cents \<and> clustering t vs cents cs' \<and>
     (small_finite vs \<and> all_finite (map fst cs) \<longrightarrow> all_finite cents \<and> all_finite (map fst cs'))"
  using assms(4)
proof (induction n arbitrary: cs)
  case 0
  then obtain cs1 us where "assign_all t vs cs = Returns cs1"
    "map_outcome_list (update_one d vs) cs1 = Returns us" "all_dim d (map fst (map fst us))"
    "length us = length cs" "clustering t vs (map fst cs) (map fst us)"
    "small_finite vs \<and> all_finite (map fst cs) \<longrightarrow> all_finite (map fst (map fst us))"
    by (rule kmeans_round [OF assms(1-3)])
  then show ?case using 0 by (intro exI [of _ "map fst us"] exI [of _ "map fst cs"]) auto
next
  case (Suc n)
  from Suc.prems obtain cs1 us where u: "assign_all t vs cs = Returns cs1"
    "map_outcome_list (update_one d vs) cs1 = Returns us" "all_dim d (map fst (map fst us))"
    "length us = length cs" "clustering t vs (map fst cs) (map fst us)"
    "small_finite vs \<and> all_finite (map fst cs) \<longrightarrow> all_finite (map fst (map fst us))"
    by (rule kmeans_round [OF assms(1-3)])
  have eq: "kmeans_loop (Suc (Suc n)) t d vs cs =
      (if list_ex snd us then kmeans_loop (Suc n) t d vs (map fst us) else Returns (map fst us))"
    by (subst kmeans_loop.simps(2)) (simp only: u(1,2) obind.simps)
  show ?case
  proof (cases "list_ex snd us")
    case True
    then show ?thesis using Suc.IH [OF u(3)] u(4,6) unfolding eq
      by (simp del: kmeans_loop.simps) blast
  next
    case False
    then show ?thesis using u(3-6) Suc.prems unfolding eq
      by (intro exI [of _ "map fst us"] exI [of _ "map fst cs"]) auto
  qed
qed

lemma k_means_ok:
  assumes "get_distance_instance t = Some f" "all_dim d vs"
  shows "\<exists>cs cents. k_means vs k t (Suc n) = Returns cs \<and> length cs = min (unat k) (length vs) \<and>
     all_dim d (map fst cs) \<and> all_dim d cents \<and> clustering t vs cents cs \<and>
     (small_finite vs \<longrightarrow> all_finite cents \<and> all_finite (map fst cs))"
proof (cases "vs = [] \<or> k = 0")
  case True
  have "clustering t vs [] []" "all_dim d []" "all_finite []"
    by (simp_all add: clustering_def all_dim_def all_finite_def)
  then show ?thesis using True by (intro exI [of _ "[]"]) (cases vs; auto simp: k_means_def)
next
  case False
  then obtain v vs' where v: "vs = v # vs'" by (cases vs) auto
  let ?cs = "take (min (unat k) (length vs)) vs"
  have d: "fv_dim v = d" "0 \<le> sint d" using assms(2) v by (auto simp: all_dim_def fv_wf_def)
  have all: "fv_wf c" "fv_dim c = d" if "c \<in> set ?cs" for c
    using assms(2) that by (auto simp: all_dim_def list_all_iff dest: in_set_takeD)
  then have c: "map_outcome_list fv_copy ?cs = Returns (map stored ?cs)"
    by (intro map_outcome_list_Returns) (simp add: fv_copy_wf stored_def)
  have "all_dim d (map fst (map (\<lambda>c. (c, [])) (map stored ?cs)))"
    using all by (auto simp: all_dim_def list_all_iff)
  note loop = kmeans_loop_ok [OF assms(1,2) d(2) this, of n]
  have fin: "all_finite (map fst (map (\<lambda>c. (c, [])) (map stored ?cs)))" if "small_finite vs"
    using that by (auto simp: small_finite_def all_finite_def list_all_iff dest: in_set_takeD)
  have "k_means vs k t (Suc n) =
      obind (map_outcome_list fv_copy ?cs) (\<lambda>cs. kmeans_loop (Suc n) t d vs (map (\<lambda>c. (c, [])) cs))"
    unfolding k_means_def by (subst v, subst list.case)
      (use False d(1) in \<open>simp del: kmeans_loop.simps take.simps add: v min_def\<close>)
  then have "k_means vs k t (Suc n) = kmeans_loop (Suc n) t d vs (map (\<lambda>c. (c, [])) (map stored ?cs))"
    by (simp only: c obind.simps)
  moreover have "length (map (\<lambda>c. (c, [])) (map stored ?cs)) = min (unat k) (length vs)" by simp
  moreover obtain cs cents where "kmeans_loop (Suc n) t d vs (map (\<lambda>c. (c, [])) (map stored ?cs)) = Returns cs"
    "length cs = length (map (\<lambda>c. (c, [] :: nat list)) (map stored ?cs))" "all_dim d (map fst cs)" "all_dim d cents"
    "clustering t vs cents cs" "small_finite vs \<longrightarrow> all_finite cents \<and> all_finite (map fst cs)"
    using loop fin by blast
  ultimately show ?thesis by (intro exI [of _ cs] exI [of _ cents]) simp
qed

subsection \<open>Properties\<close>



end
