(* ===== verification/Exact_Index.thy ===== *)
theory Exact_Index
  imports Vec_Table Ordering
begin

text \<open>
  The exhaustive index of \<^verbatim>\<open>include/core/indices/euclidean.h\<close> and \<^verbatim>\<open>impl/core/indices/euclidean.cpp\<close>: it
  computes the euclidean distance of the query to every stored vector and keeps the \<open>k\<close> nearest, by
  distance and then by id. The collection it searches is a \<^verbatim>\<open>weak_ptr\<close>, \<open>None\<close> when it expired. The
  whole body is a \<^verbatim>\<open>try\<close> block that turns every exception into \<^verbatim>\<open>false\<close>; what can throw does so
  after the results were cleared and before the first one is written.
\<close>

type_synonym score = "double \<times> id_t \<times> float_vector"

fun exact_distances ::
  "vec_table \<Rightarrow> float_vector \<Rightarrow> id_t list \<Rightarrow> (double \<times> id_t) list option outcome" where
  "exact_distances col query [] = Returns (Some [])"
| "exact_distances col query (i # is) =
     obind (get_vector_by_id col i) (\<lambda>vector.
     case vector of
       None \<Rightarrow> Returns None
     | Some v \<Rightarrow>
         obind (euclidean_compute query v) (\<lambda>d.
         obind (exact_distances col query is) (\<lambda>r. Returns (map_option ((#) (d, i)) r))))"

text \<open>\<^verbatim>\<open>optional::value()\<close> throws when there is none.\<close>

definition exact_result :: "vec_table \<Rightarrow> double \<times> id_t \<Rightarrow> score outcome" where
  "exact_result col p =
     obind (get_vector_by_id col (snd p)) (\<lambda>vector.
     case vector of
       None \<Rightarrow> Throws Bad_optional_access
     | Some v \<Rightarrow> Returns (fst p, snd p, v))"

text \<open>\<open>k\<close> is cut down to the number of vectors.\<close>

definition clip_k :: "u32 \<Rightarrow> nat \<Rightarrow> u32" where
  "clip_k k n = (if unat k > n then word_of_nat n else k)"

definition exact_search ::
  "vec_table option \<Rightarrow> float_vector \<Rightarrow> u32 \<Rightarrow> score list \<Rightarrow> (bool \<times> score list) outcome" where
  "exact_search collection query k results =
     (case collection of
        None \<Rightarrow> Returns (False, results)
      | Some col \<Rightarrow>
          catch_all
            (obind (get_all_vector_ids col) (\<lambda>id_set.
             obind (exact_distances col query id_set) (\<lambda>dist_vec.
             case dist_vec of
               None \<Rightarrow> Returns (False, [])
             | Some ds \<Rightarrow>
                 obind (partial_sort pair_less (unat (clip_k k (length id_set))) ds) (\<lambda>top.
                 obind (map_outcome_list (exact_result col) top) (\<lambda>rs. Returns (True, rs))))))
            (\<lambda>e. Returns (False, [])))"

subsection \<open>The nearest neighbours\<close>

text \<open>The value a distance returns (a NaN stands for "does not return").\<close>

definition returned :: "double outcome \<Rightarrow> double" where
  "returned m = (case m of Returns d \<Rightarrow> d | _ \<Rightarrow> NaN)"

definition scored :: "float_vector \<Rightarrow> (id_t \<times> float_vector) list \<Rightarrow> (double \<times> id_t) list" where
  "scored query vs = map (\<lambda>(i, v). (returned (euclidean_compute query v), i)) vs"

text \<open>The specification: order every stored vector by distance and id, and take the first \<open>k\<close>.\<close>

definition nearest :: "float_vector \<Rightarrow> (id_t \<times> float_vector) list \<Rightarrow> nat \<Rightarrow> (double \<times> id_t) list" where
  "nearest query vs k = take k (sort_key pair_key (scored query vs))"

definition searchable :: "float_vector \<Rightarrow> vec_table \<Rightarrow> bool" where
  "searchable query t \<longleftrightarrow>
     table_wf (fv_dim query) t \<and> vec_mutex t \<noteq> Exclusive \<and> fv_wf query \<and> fv_finite query \<and>
     list_all (\<lambda>p. fv_finite (snd p)) (vectors t)"

lemma searchable_readable: "searchable q t \<Longrightarrow> table_readable t"
  by (auto simp: searchable_def intro: table_readableI)

lemma searchable_member:
  assumes "searchable q t" "(i, v) \<in> set (vectors t)"
  shows "same_dim q v" "fv_finite v" "map_of (vectors t) i = Some v"
    "euclidean_compute q v = Returns (returned (euclidean_compute q v))"
    "returned (euclidean_compute q v) \<noteq> NaN"
proof -
  show sd: "same_dim q v" and "fv_finite v"
    using assms by (auto simp: searchable_def same_dim_def table_wf_def list_all_iff)
  then show "euclidean_compute q v = Returns (returned (euclidean_compute q v))"
    "returned (euclidean_compute q v) \<noteq> NaN"
    using euclid.dist_returns [OF sd] euclid.dist_not_NaN [OF sd] assms(1)
    by (auto simp: returned_def searchable_def)
  show "map_of (vectors t) i = Some v" using assms by (simp add: searchable_def table_wf_def)
qed

lemma euclidean_stored [simp]: "euclidean_compute q (stored v) = euclidean_compute q v"
  by (rule euclid.dist_cong) simp_all

lemma exact_distances_scored:
  assumes "searchable q t" "set ps \<subseteq> set (vectors t)"
  shows "exact_distances t q (map fst ps) = Returns (Some (scored q ps))"
  using assms(2)
proof (induction ps)
  case (Cons p ps)
  obtain i v where p: "p = (i, v)" by (cases p)
  with Cons.prems have m: "(i, v) \<in> set (vectors t)" by simp
  have "get_vector_by_id t i = Returns (Some (stored v))"
    using assms(1) searchable_member(3) [OF assms(1) m]
    by (simp add: searchable_def get_vector_wf [of "fv_dim q"])
  moreover obtain d where "euclidean_compute q v = Returns d"
    using searchable_member(4) [OF assms(1) m] by blast
  ultimately show ?case using Cons p by (simp add: scored_def returned_def)
qed (simp add: scored_def)

lemma scored_ok: "searchable q t \<Longrightarrow> list_all pair_ok (scored q (vectors t))"
  using searchable_member(5) by (auto simp: scored_def list_all_iff pair_ok_def)

lemma set_nearest: "set (nearest q vs k) \<subseteq> set (scored q vs)"
  unfolding nearest_def by (metis set_sort set_take_subset)

lemma length_nearest: "length (nearest q vs k) = min k (length vs)"
  by (simp add: nearest_def scored_def min.commute)

lemma snd_scored [simp]: "map snd (scored q vs) = keys_of vs"
  by (simp add: scored_def comp_def case_prod_beta)

lemma distinct_nearest: "distinct (keys_of vs) \<Longrightarrow> distinct (map snd (nearest q vs k))"
proof -
  assume d: "distinct (keys_of vs)"
  have "mset (map snd (sort_key pair_key (scored q vs))) = mset (keys_of vs)"
    by (simp flip: mset_map add: mset_map [of snd "sort_key pair_key (scored q vs)"] mset_sort snd_scored [of q])
  then have "distinct (map snd (sort_key pair_key (scored q vs)))"
    using d by (metis mset_eq_imp_distinct_iff)
  then show ?thesis by (simp add: nearest_def flip: take_map)
qed

lemma sorted_nearest: "sorted (map pair_key (nearest q vs k))"
  by (simp add: nearest_def sorted_wrt_take flip: take_map)

text \<open>Nothing that is left out is nearer than anything that is returned.\<close>

lemma nearest_optimal:
  assumes "p \<in> set (nearest q vs k)" "r \<in> set (scored q vs)" "r \<notin> set (nearest q vs k)"
  shows "pair_key p \<le> pair_key r"
proof -
  let ?s = "sort_key pair_key (scored q vs)"
  have "r \<in> set ?s" using assms(2) by simp
  then have "r \<in> set (drop k ?s)"
    using assms(3) unfolding nearest_def by (metis Un_iff append_take_drop_id set_append)
  moreover have "sorted (map pair_key (take k ?s) @ map pair_key (drop k ?s))"
    by (metis append_take_drop_id map_append sorted_sort_key)
  ultimately show ?thesis using assms(1) unfolding nearest_def sorted_append by auto
qed

lemma unat_clip_k: "unat (clip_k k n) = min (unat k) n"
proof (cases "unat k > n")
  case True
  then have "n < 2 ^ 32" using unsigned_less [of k, where ?'a = nat] by simp
  then show ?thesis using True by (simp add: clip_k_def unat_of_nat)
qed (simp add: clip_k_def)

text \<open>The result of a search, in terms of the specification.\<close>

lemma exact_search_nearest:
  assumes "searchable q t"
  shows "exact_search (Some t) q k r =
     Returns (True, map (\<lambda>(d, i). (d, i, stored (the (map_of (vectors t) i)))) (nearest q (vectors t) (unat k)))"
proof -
  let ?n = "length (vectors t)"
  have ids: "get_all_vector_ids t = Returns (map fst (vectors t))"
    using assms by (simp add: searchable_def ids_wf [of "fv_dim q"])
  have ds: "exact_distances t q (map fst (vectors t)) = Returns (Some (scored q (vectors t)))"
    using exact_distances_scored [OF assms subset_refl] .
  have top: "partial_sort pair_less (unat (clip_k k ?n)) (scored q (vectors t)) = Returns (nearest q (vectors t) (unat k))"
  proof -
    have "length (scored q (vectors t)) = ?n" by (simp add: scored_def)
    then show ?thesis
      using pairs.partial_sort_key [OF scored_ok [OF assms], of "unat (clip_k k ?n)"]
      by (cases "unat k \<le> ?n") (simp_all add: unat_clip_k nearest_def)
  qed
  have "exact_result t p = Returns (fst p, snd p, stored (the (map_of (vectors t) (snd p))))"
    if p: "p \<in> set (nearest q (vectors t) (unat k))" for p
  proof -
    from p have "p \<in> set (scored q (vectors t))" using set_nearest by blast
    then obtain i v where "(i, v) \<in> set (vectors t)" "snd p = i" by (auto simp: scored_def)
    then show ?thesis using assms searchable_member(3) [OF assms]
      by (auto simp: exact_result_def searchable_def get_vector_wf [of "fv_dim q"])
  qed
  then have "map_outcome_list (exact_result t) (nearest q (vectors t) (unat k)) =
      Returns (map (\<lambda>p. (fst p, snd p, stored (the (map_of (vectors t) (snd p)))))
        (nearest q (vectors t) (unat k)))"
    by (rule map_outcome_list_Returns)
  then show ?thesis
    using ids ds top by (simp add: exact_search_def case_prod_beta)
qed

text \<open>The order in which the hash map is walked does not matter.\<close>

lemma sort_key_perm:
  "mset xs = mset ys \<Longrightarrow> inj_on f (set xs) \<Longrightarrow> sort_key f xs = sort_key f ys"
  by (rule sort_key_inj_key_eq) simp_all

lemma inj_pair_key: "distinct (map snd ps) \<Longrightarrow> inj_on pair_key (set ps)"
  by (auto simp: inj_on_def pair_key_def distinct_map)

lemma nearest_perm:
  assumes "mset vs = mset ws" "distinct (keys_of vs)"
  shows "nearest q vs k = nearest q ws k"
proof -
  have "mset (scored q vs) = mset (scored q ws)"
    using assms(1) by (simp add: scored_def mset_map)
  moreover have "inj_on pair_key (set (scored q vs))"
    using assms(2) by (intro inj_pair_key) simp
  ultimately show ?thesis by (simp add: nearest_def sort_key_perm)
qed

subsection \<open>Rankable queries\<close>

text \<open>The query can be ranked against everything in the table: no distance is a NaN.\<close>

definition rankable :: "dist_type \<Rightarrow> float_vector \<Rightarrow> vec_table \<Rightarrow> bool" where
  "rankable m q t \<longleftrightarrow>
     table_wf (fv_dim q) t \<and> vec_mutex t \<noteq> Exclusive \<and> fv_wf q \<and> get_distance_instance m \<noteq> None \<and>
     list_all (\<lambda>p. compute_with m q (snd p) \<noteq> Returns NaN) (vectors t)"

lemma compute_with_stored [simp]: "compute_with m q (stored v) = compute_with m q v"
proof (cases "get_distance_instance m")
  case (Some f)
  have "f q (stored v) = f q v"
    by (rule distance_fn.dist_cong [OF distance_instance_fn [OF Some]]) simp_all
  then show ?thesis using Some by (simp add: compute_with_def)
qed (simp add: compute_with_def)

lemma compute_with_euclidean [simp]: "compute_with euclidean = euclidean_compute"
  by (simp add: compute_with_def get_distance_instance_def fun_eq_iff)

lemma searchable_rankable: "searchable q t \<Longrightarrow> rankable euclidean q t"
  using searchable_member(5)
  by (fastforce simp: searchable_def rankable_def list_all_iff get_distance_instance_def returned_def)

subsection \<open>Properties\<close>

text \<open>
  C4. The exhaustive search returns \<open>min k n\<close> distinct stored vectors with their distances from the
  query, ordered by distance and then by id, and no vector it leaves out comes before one it returns.
\<close>

theorem exact_search_correct:
  assumes "searchable q t"
  shows "\<exists>rs. exact_search (Some t) q k r = Returns (True, rs) \<and>
    length rs = min (unat k) (length (vectors t)) \<and>
    distinct (map (\<lambda>s. fst (snd s)) rs) \<and>
    sorted (map (\<lambda>s. (rank (fst s), fst (snd s))) rs) \<and>
    list_all (\<lambda>(d, i, v). map_option stored (map_of (vectors t) i) = Some v \<and>
      euclidean_compute q v = Returns d) rs \<and>
    (\<forall>(i, v) \<in> set (vectors t). \<forall>d. euclidean_compute q v = Returns d \<longrightarrow>
      i \<notin> (\<lambda>s. fst (snd s)) ` set rs \<longrightarrow> list_all (\<lambda>s. (rank (fst s), fst (snd s)) \<le> (rank d, i)) rs)"
proof -
  let ?n = "nearest q (vectors t) (unat k)"
  define rs where "rs = map (\<lambda>(d, i). (d, i, stored (the (map_of (vectors t) i)))) ?n"
  have ids: "map (\<lambda>s. fst (snd s)) rs = map snd ?n" and keys: "map (\<lambda>s. (rank (fst s), fst (snd s))) rs = map pair_key ?n"
    by (simp_all add: rs_def comp_def case_prod_beta pair_key_def)
  have mem: "\<exists>v. (i, v) \<in> set (vectors t) \<and> euclidean_compute q v = Returns d" if "(d, i) \<in> set ?n" for d i
    using that set_nearest [of q "vectors t" "unat k"] searchable_member(4) [OF assms]
    by (force simp: scored_def)
  have "list_all (\<lambda>(d, i, v). map_option stored (map_of (vectors t) i) = Some v \<and>
      euclidean_compute q v = Returns d) rs"
    using mem searchable_member(3) [OF assms] by (fastforce simp: rs_def list_all_iff)
  moreover have "list_all (\<lambda>s. (rank (fst s), fst (snd s)) \<le> (rank d, i)) rs"
    if "(i, v) \<in> set (vectors t)" "euclidean_compute q v = Returns d" "i \<notin> (\<lambda>s. fst (snd s)) ` set rs" for i v d
  proof -
    have "(d, i) \<in> set (scored q (vectors t))" using that by (force simp: scored_def returned_def)
    moreover have "(d, i) \<notin> set ?n" using that(3) by (force simp: rs_def)
    ultimately have "pair_key p \<le> pair_key (d, i)" if "p \<in> set ?n" for p
      using nearest_optimal [OF that] by blast
    then have "list_all (\<lambda>x. x \<le> (rank d, i)) (map pair_key ?n)"
      by (auto simp only: list_all_iff set_map) (simp add: pair_key_def)
    then show ?thesis by (simp add: list.pred_map comp_def flip: keys)
  qed
  moreover have "exact_search (Some t) q k r = Returns (True, rs)"
    using exact_search_nearest [OF assms] by (simp add: rs_def)
  moreover have "length rs = min (unat k) (length (vectors t))" by (simp add: rs_def length_nearest)
  moreover have "distinct (map (\<lambda>s. fst (snd s)) rs)"
    using distinct_nearest assms by (simp add: ids searchable_def table_wf_def)
  moreover have "sorted (map (\<lambda>s. (rank (fst s), fst (snd s))) rs)"
    by (simp only: keys sorted_nearest)
  ultimately show ?thesis by blast
qed

theorem exact_search_correct_witness:
  "\<exists>rs. exact_search (Some (sample_table Free)) (sample_vector 0) 5 [] = Returns (True, rs) \<and>
    length rs = min (unat (5 :: u32)) (length (vectors (sample_table Free))) \<and>
    distinct (map (\<lambda>s. fst (snd s)) rs) \<and>
    sorted (map (\<lambda>s. (rank (fst s), fst (snd s))) rs) \<and>
    list_all (\<lambda>(d, i, v). map_option stored (map_of (vectors (sample_table Free)) i) = Some v \<and>
      euclidean_compute (sample_vector 0) v = Returns d) rs \<and>
    (\<forall>(i, v) \<in> set (vectors (sample_table Free)). \<forall>d. euclidean_compute (sample_vector 0) v = Returns d \<longrightarrow>
      i \<notin> (\<lambda>s. fst (snd s)) ` set rs \<longrightarrow> list_all (\<lambda>s. (rank (fst s), fst (snd s)) \<le> (rank d, i)) rs)"
  by (rule exact_search_correct) (simp add: searchable_def fp_eval)

text \<open>
  The result does not depend on the order in which the hash map of vectors is walked.
\<close>

lemma exact_search_order_independent:
  assumes "searchable q t" "searchable q t'" "mset (vectors t') = mset (vectors t)"
  shows "exact_search (Some t') q k r = exact_search (Some t) q k r"
proof -
  have d: "distinct (keys_of (vectors t))" "distinct (keys_of (vectors t'))"
    using assms by (auto simp: searchable_def table_wf_def)
  have "map_of (vectors t') = map_of (vectors t)"
    using assms(3) d by (metis mset_eq_setD map_of_inject_set)
  then show ?thesis
    using nearest_perm [OF assms(3) d(2)] by (simp add: exact_search_nearest assms(1,2))
qed

lemma exact_search_order_independent_instance:
  "exact_search (Some \<lparr>vectors = [(9, sample_vector 0x40400000), (7, sample_vector 0x3F800000)], vec_mutex = Free\<rparr>)
     (sample_vector 0) 1 [] = exact_search (Some (sample_table Free)) (sample_vector 0) 1 []"
  by (rule exact_search_order_independent) (simp_all add: searchable_def table_wf_def fp_eval)

lemma stored_vector_first:
  assumes "searchable v t" "map_of (vectors t) i = Some v" "0 < k"
  shows "\<exists>s rs. exact_search (Some t) v k r = Returns (True, s # rs) \<and> rank (fst s) = 0"
proof -
  let ?n = "nearest v (vectors t) (unat k)"
  have m: "(i, v) \<in> set (vectors t)" using assms(2) by (rule map_of_SomeD)
  have "euclidean_compute v v = Returns dzero"
    using assms(1) by (intro euclidean_self) (auto simp: searchable_def)
  then have z: "(dzero, i) \<in> set (scored v (vectors t))" using m by (force simp: scored_def returned_def)
  have "?n \<noteq> []"
    using m assms(3) length_nearest [of v "vectors t" "unat k"] by (auto simp: unat_eq_zero min_def split: if_splits)
  then obtain p ps where n: "?n = p # ps" by (cases ?n) auto
  have "pair_key p \<le> pair_key (dzero, i)"
  proof (cases "(dzero, i) \<in> set ?n")
    case True
    then show ?thesis using n sorted_nearest [of v "vectors t" "unat k"] by auto
  next
    case False
    show ?thesis by (rule nearest_optimal [OF _ z False]) (simp add: n)
  qed
  then have "rank (fst p) \<le> 0" by (auto simp: pair_key_def less_eq_prod_def dzero_def)
  moreover have "0 \<le> rank (fst p)"
  proof -
    have "p \<in> set (scored v (vectors t))" using set_nearest [of v "vectors t" "unat k"] n by auto
    then obtain j w where w: "(j, w) \<in> set (vectors t)" "fst p = returned (euclidean_compute v w)"
      by (auto simp: scored_def)
    then have "dnonneg (fst p)"
      using euclidean_nonneg [OF _ searchable_member(2) [OF assms(1) w(1)] searchable_member(4) [OF assms(1) w(1)]]
        assms(1) by (simp add: searchable_def)
    moreover have "canonical binary64 (fst p)"
      using euclidean_canonical [OF searchable_member(4) [OF assms(1) w(1)]] w(2) by simp
    ultimately show ?thesis by (rule rank_nonneg)
  qed
  ultimately show ?thesis using exact_search_nearest [OF assms(1), of k r] n by (auto simp: case_prod_beta)
qed

end
