(* ===== verification/Index_Params.thy ===== *)
theory Index_Params
  imports Distance
begin

text \<open>
  The kinds of index (\<^verbatim>\<open>include/core/indices/index.h\<close>) and their parameters
  (\<^verbatim>\<open>include/core/indices/hnsw.h\<close>, \<^verbatim>\<open>include/core/indices/ivfflat.h\<close>): constructors, \<^verbatim>\<open>clone\<close> and the
  binary form. \<^verbatim>\<open>distance_\<close> is the instance that \<open>h_dist\<close> selects and \<^verbatim>\<open>ml_\<close> only scales the random
  level of a node, which is an input of the model; neither is a field here. \<^verbatim>\<open>size_t\<close> has 64 bits.
\<close>

datatype index_type = ivf_flat | hnsw | unknown

definition index_type_code :: "index_type \<Rightarrow> byte" where
  "index_type_code t = (case t of ivf_flat \<Rightarrow> 0 | hnsw \<Rightarrow> 1 | unknown \<Rightarrow> 255)"

subsection \<open>Distance types as bytes\<close>

definition dist_code :: "dist_type \<Rightarrow> byte" where
  "dist_code t =
     (case t of cosine \<Rightarrow> 0 | euclidean \<Rightarrow> 1 | inner_product \<Rightarrow> 2 | unrecognized b \<Rightarrow> b)"

definition dist_of_code :: "byte \<Rightarrow> dist_type" where
  "dist_of_code b =
     (if b = 0 then cosine else if b = 1 then euclidean else if b = 2 then inner_product
      else unrecognized b)"

definition dist_ok :: "dist_type \<Rightarrow> bool" where
  "dist_ok t \<longleftrightarrow> dist_of_code (dist_code t) = t"

lemma dist_ok_known [simp]: "dist_ok cosine" "dist_ok euclidean" "dist_ok inner_product"
  by (simp_all add: dist_ok_def dist_code_def dist_of_code_def)

definition read_dist :: "byte list \<Rightarrow> (dist_type \<times> byte list) outcome" where
  "read_dist bs = obind (read_u8 bs) (\<lambda>(b, rest). Returns (dist_of_code b, rest))"

subsection \<open>HNSW\<close>

record hnsw_params =
  h_dist :: dist_type
  h_M :: u32
  h_M0 :: u32
  h_ef_construction :: u32
  h_ef_search :: u32

text \<open>The constructor refuses a distance type without an instance; \<^verbatim>\<open>2 * M_\<close> wraps around.\<close>

definition hnsw_params_new :: "dist_type \<Rightarrow> u32 \<Rightarrow> u32 \<Rightarrow> u32 \<Rightarrow> hnsw_params outcome" where
  "hnsw_params_new dtype m ef_construction ef_search =
     (if get_distance_instance dtype = None then Throws (Runtime_error ''Unknown distance type'')
      else Returns \<lparr>h_dist = dtype, h_M = m, h_M0 = 2 * m,
        h_ef_construction = ef_construction, h_ef_search = ef_search\<rparr>)"

definition hnsw_params_default :: hnsw_params where
  "hnsw_params_default =
     \<lparr>h_dist = cosine, h_M = 16, h_M0 = 32, h_ef_construction = 64, h_ef_search = 32\<rparr>"

definition hnsw_params_clear :: "hnsw_params \<Rightarrow> hnsw_params" where
  "hnsw_params_clear p = p\<lparr>h_M := 0, h_M0 := 0, h_ef_construction := 0, h_ef_search := 0\<rparr>"

definition hnsw_params_bytes :: "hnsw_params \<Rightarrow> byte list" where
  "hnsw_params_bytes p =
     write_u8 (dist_code (h_dist p)) @ write_u32 (h_M p) @ write_u32 (h_ef_construction p) @
     write_u32 (h_ef_search p)"

definition hnsw_params_deserialize :: "byte list \<Rightarrow> (hnsw_params \<times> byte list) outcome" where
  "hnsw_params_deserialize bs =
     obind (read_dist bs) (\<lambda>(dtype, r1).
     obind (read_u32 r1) (\<lambda>(m, r2).
     obind (read_u32 r2) (\<lambda>(ef_construction, r3).
     obind (read_u32 r3) (\<lambda>(ef_search, r4).
     obind (hnsw_params_new dtype m ef_construction ef_search) (\<lambda>p. Returns (p, r4))))))"

definition hnsw_params_clone :: "hnsw_params \<Rightarrow> hnsw_params outcome" where
  "hnsw_params_clone p = hnsw_params_new (h_dist p) (h_M p) (h_ef_construction p) (h_ef_search p)"

lemma hnsw_params_default_new: "hnsw_params_new cosine 16 64 32 = Returns hnsw_params_default"
  by (simp add: hnsw_params_new_def hnsw_params_default_def get_distance_instance_def)

text \<open>Parameters as the constructor builds them.\<close>

definition hnsw_params_ok :: "hnsw_params \<Rightarrow> bool" where
  "hnsw_params_ok p \<longleftrightarrow> get_distance_instance (h_dist p) \<noteq> None \<and> h_M0 p = 2 * h_M p"

lemma hnsw_params_new_ok: "hnsw_params_new d m a b = Returns p \<Longrightarrow> hnsw_params_ok p"
  by (auto simp: hnsw_params_new_def hnsw_params_ok_def split: if_splits)

lemma known_dist_ok: "get_distance_instance t \<noteq> None \<Longrightarrow> dist_ok t"
  by (cases t) (auto simp: get_distance_instance_def)

lemma hnsw_params_clone_ok: "hnsw_params_ok p \<Longrightarrow> hnsw_params_clone p = Returns p"
  by (simp add: hnsw_params_clone_def hnsw_params_new_def hnsw_params_ok_def)

interpretation hnswc: codec hnsw_params_bytes hnsw_params_deserialize hnsw_params_ok
proof unfold_locales
  fix p rest assume ok: "hnsw_params_ok p"
  then have "dist_of_code (dist_code (h_dist p)) = h_dist p"
    using known_dist_ok by (auto simp: hnsw_params_ok_def dist_ok_def)
  then show "hnsw_params_deserialize (hnsw_params_bytes p @ rest) = Returns (p, rest)"
    using ok
    by (simp add: hnsw_params_bytes_def hnsw_params_deserialize_def read_dist_def u8c.dec_enc
        u32c.dec_enc hnsw_params_new_def hnsw_params_ok_def)
qed

subsection \<open>IVF-Flat\<close>

record ivf_params =
  i_dist :: dist_type
  i_k :: u32
  i_n_probe :: u32
  i_rebuild_threshold :: u64

definition ivf_params_new :: "dist_type \<Rightarrow> u32 \<Rightarrow> u32 \<Rightarrow> u64 \<Rightarrow> ivf_params" where
  "ivf_params_new dtype k n_probe rebuild_threshold =
     \<lparr>i_dist = dtype, i_k = k, i_n_probe = n_probe, i_rebuild_threshold = rebuild_threshold\<rparr>"

definition ivf_params_default :: ivf_params where
  "ivf_params_default = ivf_params_new euclidean 100 10 1000"

definition ivf_params_bytes :: "ivf_params \<Rightarrow> byte list" where
  "ivf_params_bytes p =
     write_u8 (dist_code (i_dist p)) @ write_u32 (i_k p) @ write_u32 (i_n_probe p) @
     write_u64 (i_rebuild_threshold p)"

definition ivf_params_deserialize :: "byte list \<Rightarrow> (ivf_params \<times> byte list) outcome" where
  "ivf_params_deserialize bs =
     obind (read_dist bs) (\<lambda>(dtype, r1).
     obind (read_u32 r1) (\<lambda>(k, r2).
     obind (read_u32 r2) (\<lambda>(n_probe, r3).
     obind (read_u64 r3) (\<lambda>(rebuild_threshold, r4).
       Returns (ivf_params_new dtype k n_probe rebuild_threshold, r4)))))"

definition ivf_params_clone :: "ivf_params \<Rightarrow> ivf_params" where
  "ivf_params_clone p = ivf_params_new (i_dist p) (i_k p) (i_n_probe p) (i_rebuild_threshold p)"

lemma ivf_params_clone_id [simp]: "ivf_params_clone p = p"
  by (simp add: ivf_params_clone_def ivf_params_new_def)

interpretation ivfc: codec ivf_params_bytes ivf_params_deserialize "\<lambda>p. dist_ok (i_dist p)"
  by unfold_locales
    (simp add: ivf_params_bytes_def ivf_params_deserialize_def read_dist_def u8c.dec_enc u32c.dec_enc
      u64c.dec_enc ivf_params_new_def dist_ok_def)

subsection \<open>Parameters of any index\<close>

text \<open>\<^verbatim>\<open>params_t\<close>: the dynamic type that \<^verbatim>\<open>dynamic_cast\<close> asks for.\<close>

datatype params = Hnsw_params hnsw_params | Ivf_params ivf_params

subsection \<open>Properties\<close>

text \<open>
  The parameters of an HNSW index are read back from a stream as they were written, and cloning
  them changes nothing.
\<close>

lemma hnsw_params_roundtrip:
  assumes "hnsw_params_new d m efc efs = Returns p"
  shows "hnsw_params_deserialize (hnsw_params_bytes p @ rest) = Returns (p, rest) \<and> hnsw_params_clone p = Returns p"
  using hnsw_params_new_ok [OF assms] hnswc.dec_enc hnsw_params_clone_ok by blast

lemma hnsw_params_roundtrip_instance:
  "hnsw_params_deserialize (hnsw_params_bytes hnsw_params_default @ [1]) = Returns (hnsw_params_default, [1]) \<and>
    hnsw_params_clone hnsw_params_default = Returns hnsw_params_default"
  by (rule hnsw_params_roundtrip [OF hnsw_params_default_new])

end
