(* ===== verification/Ivf_Flat.thy ===== *)
theory Ivf_Flat
  imports K_Means Exact_Index Index_Params
begin

text \<open>
  The inverted-file index, \<^verbatim>\<open>impl/core/indices/ivfflat.cpp\<close>: clusters of ids around the centroids that
  \<open>k_means\<close> found, rebuilt after \<^verbatim>\<open>rebuild_threshold_\<close> changes and maintained incrementally in between.
  The collection is an argument, \<open>None\<close> when the \<^verbatim>\<open>weak_ptr\<close> expired. The index's own mutex is never
  taken twice by one thread and is left to \<open>Locking\<close>.

  Two entries of the result queue with the same distance and id are compared by the address of their
  vectors; both are copies of the same vector, so the model's order among them makes no difference.
\<close>

record cluster =
  c_centroid :: float_vector
  c_ids :: "id_t list"

record ivf_index =
  ivf_params :: ivf_params
  clusters :: "cluster list"
  since_rebuild :: u64

definition ivf_new :: "ivf_params \<Rightarrow> ivf_index" where
  "ivf_new p = \<lparr>ivf_params = p, clusters = [], since_rebuild = 0\<rparr>"

subsection \<open>Building\<close>

fun fetch_present :: "vec_table \<Rightarrow> id_t list \<Rightarrow> (id_t \<times> float_vector) list outcome" where
  "fetch_present col [] = Returns []"
| "fetch_present col (i # is) =
     obind (get_vector_by_id col i) (\<lambda>vec.
     obind (fetch_present col is) (\<lambda>r.
       Returns (case vec of None \<Rightarrow> r | Some v \<Rightarrow> (i, v) # r)))"

definition ivf_build :: "vec_table option \<Rightarrow> ivf_index \<Rightarrow> ivf_index outcome" where
  "ivf_build collection ix =
     (case collection of
        None \<Rightarrow> Returns ix
      | Some col \<Rightarrow>
          obind (get_all_vector_ids col) (\<lambda>all_ids.
          if all_ids = [] then Returns (ix\<lparr>clusters := [], since_rebuild := 0\<rparr>)
          else
            obind (fetch_present col all_ids) (\<lambda>present.
            if present = [] then Returns (ix\<lparr>clusters := [], since_rebuild := 0\<rparr>)
            else
              obind (k_means (map snd present) (i_k (ivf_params ix)) (i_dist (ivf_params ix)) 100) (\<lambda>centroids.
                Returns (ix\<lparr>since_rebuild := 0,
                  clusters := map (\<lambda>c. \<lparr>c_centroid = fst c,
                    c_ids = map (\<lambda>idx. map fst present ! idx) (snd c)\<rparr>) centroids\<rparr>)))))"

definition ivf_init :: "vec_table option \<Rightarrow> ivf_index \<Rightarrow> ivf_index outcome" where
  "ivf_init = ivf_build"

subsection \<open>Searching\<close>

definition score_less :: "score \<Rightarrow> score \<Rightarrow> bool" where
  "score_less a b \<longleftrightarrow> pair_less (fst a, fst (snd a)) (fst b, fst (snd b))"

definition push_cluster ::
  "dist_type \<Rightarrow> float_vector \<Rightarrow> nat \<times> cluster \<Rightarrow> (double \<times> nat) list \<Rightarrow> (double \<times> nat) list outcome" where
  "push_cluster t query ic q =
     obind (compute_with t query (c_centroid (snd ic))) (\<lambda>d. pq_push pair_less (d, fst ic) q)"

definition probe_id ::
  "dist_type \<Rightarrow> vec_table \<Rightarrow> float_vector \<Rightarrow> nat \<Rightarrow> id_t \<Rightarrow> score list \<Rightarrow> score list outcome" where
  "probe_id t col query k i q =
     obind (get_vector_by_id col i) (\<lambda>vec.
     case vec of
       None \<Rightarrow> Returns q
     | Some v \<Rightarrow>
         obind (compute_with t query v) (\<lambda>d. bounded_push (converse_of score_less) k (d, i, v) q))"

definition ivf_search ::
  "ivf_index \<Rightarrow> vec_table option \<Rightarrow> float_vector \<Rightarrow> u32 \<Rightarrow> score list \<Rightarrow> (bool \<times> score list) outcome" where
  "ivf_search ix collection query k results =
     (if clusters ix = [] then Returns (False, results)
      else
        (case collection of
           None \<Rightarrow> Returns (False, results)
         | Some col \<Rightarrow>
             obind (fold_outcome (push_cluster (i_dist (ivf_params ix)) query) (enumerate 0 (clusters ix)) [])
               (\<lambda>pq_clusters.
             obind (fold_outcome
                 (\<lambda>j. fold_outcome (probe_id (i_dist (ivf_params ix)) col query (unat k)) (c_ids (clusters ix ! j)))
                 (map snd (take (unat (min (i_n_probe (ivf_params ix)) (word_of_nat (length pq_clusters)))) pq_clusters)) [])
               (\<lambda>pq_results. Returns (pq_results \<noteq> [], rev pq_results)))))"

subsection \<open>Maintenance\<close>

text \<open>Cluster 0 is the answer when no distance is below \<^verbatim>\<open>numeric_limits<double>::max()\<close>.\<close>

definition find_nearest_cluster :: "ivf_index \<Rightarrow> float_vector \<Rightarrow> nat outcome" where
  "find_nearest_cluster ix vec =
     obind (scan_nearest (i_dist (ivf_params ix)) vec (map c_centroid (clusters ix)) 0 (dmax, None))
       (\<lambda>(min_dist, best). Returns (case best of None \<Rightarrow> 0 | Some j \<Rightarrow> j))"

definition push_id :: "nat \<Rightarrow> id_t \<Rightarrow> cluster list \<Rightarrow> cluster list" where
  "push_id j i cs = cs[j := (cs ! j)\<lparr>c_ids := c_ids (cs ! j) @ [i]\<rparr>]"

definition add_one :: "vec_table \<Rightarrow> id_t \<Rightarrow> ivf_index \<Rightarrow> ivf_index outcome" where
  "add_one col i ix =
     obind (get_vector_by_id col i) (\<lambda>vec.
     case vec of
       None \<Rightarrow> Returns ix
     | Some v \<Rightarrow>
         obind (find_nearest_cluster ix v) (\<lambda>j.
           Returns (ix\<lparr>clusters := push_id j i (clusters ix)\<rparr>)))"

definition add_vectors_incremental :: "vec_table option \<Rightarrow> id_t list \<Rightarrow> ivf_index \<Rightarrow> ivf_index outcome" where
  "add_vectors_incremental collection new_ids ix =
     (case collection of
        None \<Rightarrow> Returns ix
      | Some col \<Rightarrow> fold_outcome (add_one col) new_ids ix)"

text \<open>The first cluster that holds the id loses its first occurrence, and the scan stops there.\<close>

fun remove_id :: "id_t \<Rightarrow> cluster list \<Rightarrow> cluster list" where
  "remove_id i [] = []"
| "remove_id i (c # cs) =
     (if i \<in> set (c_ids c) then c\<lparr>c_ids := remove1 i (c_ids c)\<rparr> # cs else c # remove_id i cs)"

definition remove_vectors_incremental :: "id_t list \<Rightarrow> ivf_index \<Rightarrow> ivf_index" where
  "remove_vectors_incremental removed_ids ix =
     ix\<lparr>clusters := fold remove_id removed_ids (clusters ix)\<rparr>"

definition ivf_on_vectors_added :: "vec_table option \<Rightarrow> id_t list \<Rightarrow> ivf_index \<Rightarrow> ivf_index outcome" where
  "ivf_on_vectors_added collection new_ids ix =
     (if clusters ix = [] then ivf_build collection ix
      else if i_rebuild_threshold (ivf_params ix) \<le> since_rebuild ix + word_of_nat (length new_ids)
      then ivf_build collection (ix\<lparr>since_rebuild := since_rebuild ix + word_of_nat (length new_ids)\<rparr>)
      else add_vectors_incremental collection new_ids
             (ix\<lparr>since_rebuild := since_rebuild ix + word_of_nat (length new_ids)\<rparr>))"

definition ivf_on_vectors_removed :: "vec_table option \<Rightarrow> id_t list \<Rightarrow> ivf_index \<Rightarrow> ivf_index outcome" where
  "ivf_on_vectors_removed collection removed_ids ix =
     (if clusters ix = [] then Returns ix
      else if i_rebuild_threshold (ivf_params ix) \<le> since_rebuild ix + word_of_nat (length removed_ids)
      then ivf_build collection (ix\<lparr>since_rebuild := since_rebuild ix + word_of_nat (length removed_ids)\<rparr>)
      else Returns (remove_vectors_incremental removed_ids
             (ix\<lparr>since_rebuild := since_rebuild ix + word_of_nat (length removed_ids)\<rparr>)))"

subsection \<open>The ids in the clusters\<close>

definition indexed_ids :: "ivf_index \<Rightarrow> id_t list" where
  "indexed_ids ix = concat (map c_ids (clusters ix))"

lemma mset_push_id:
  "j < length cs \<Longrightarrow> mset (concat (map c_ids (push_id j i cs))) = add_mset i (mset (concat (map c_ids cs)))"
  by (induction cs arbitrary: j) (auto simp: push_id_def nth_Cons' split: nat.splits)

lemma mset_remove_id: "mset (concat (map c_ids (remove_id i cs))) = mset (concat (map c_ids cs)) - {#i#}"
  by (induction cs) (auto simp: multiset_eq_iff count_mset_0_iff [THEN iffD2])

lemma remove_id_length [simp]: "length (remove_id i cs) = length cs"
  by (induction cs) auto

lemma remove_id_centroids [simp]: "map c_centroid (remove_id i cs) = map c_centroid cs"
  by (induction cs) auto

lemma push_id_centroids [simp]: "map c_centroid (push_id j i cs) = map c_centroid cs"
  by (cases "j < length cs") (auto simp: push_id_def map_update list_update_same_conv list_update_beyond)


text \<open>The centroids can be compared with the vectors of the collection.\<close>

definition ivf_wf :: "u32 \<Rightarrow> ivf_index \<Rightarrow> bool" where
  "ivf_wf d ix \<longleftrightarrow>
     get_distance_instance (i_dist (ivf_params ix)) \<noteq> None \<and> all_dim d (map c_centroid (clusters ix))"

text \<open>Every vector of the table is in exactly one cluster, and nothing else is.\<close>

definition tracks :: "vec_table \<Rightarrow> ivf_index \<Rightarrow> bool" where
  "tracks t ix \<longleftrightarrow> mset (indexed_ids ix) = mset (keys_of (vectors t))"

lemma find_nearest_cluster_ok:
  assumes "ivf_wf d ix" "fv_wf v" "fv_dim v = d" "clusters ix \<noteq> []"
  shows "\<exists>j < length (clusters ix). find_nearest_cluster ix v = Returns j \<and>
     (owner (i_dist (ivf_params ix)) v (map c_centroid (clusters ix)) \<noteq> None \<longrightarrow>
        owner (i_dist (ivf_params ix)) v (map c_centroid (clusters ix)) = Some j)"
proof -
  let ?cs = "map c_centroid (clusters ix)" and ?t = "i_dist (ivf_params ix)"
  obtain f where f: "get_distance_instance ?t = Some f" using assms(1) by (auto simp: ivf_wf_def)
  have "same_dim v c" if "c \<in> set ?cs" for c
    using that assms by (auto simp: ivf_wf_def all_dim_def list_all_iff same_dim_def)
  then obtain m where "scan_nearest ?t v ?cs 0 (dmax, None) = Returns (m, owner ?t v ?cs)"
    using owner_scan [OF f] by blast
  then show ?thesis using owner_less [of ?t v ?cs] assms(4)
    by (auto simp: find_nearest_cluster_def split: option.splits)
qed

lemma add_one_ok:
  assumes "table_wf d t" "vec_mutex t \<noteq> Exclusive" "ivf_wf d ix" "clusters ix \<noteq> []"
  shows "\<exists>ix'. add_one t i ix = Returns ix' \<and> ivf_wf d ix' \<and> clusters ix' \<noteq> [] \<and>
     mset (indexed_ids ix') = mset (indexed_ids ix) + (if map_of (vectors t) i = None then {#} else {#i#})"
proof (cases "map_of (vectors t) i")
  case None
  then show ?thesis using assms by (auto simp: add_one_def get_vector_wf)
next
  case (Some v)
  with assms(1) have "fv_wf (stored v)" "fv_dim (stored v) = d" by (auto dest: table_wf_lookup)
  then obtain j where "j < length (clusters ix)" "find_nearest_cluster ix (stored v) = Returns j"
    using find_nearest_cluster_ok [OF assms(3) _ _ assms(4)] by blast
  then show ?thesis using Some assms
    by (auto simp: add_one_def get_vector_wf indexed_ids_def mset_push_id ivf_wf_def)
      (simp add: push_id_def)
qed

lemma add_incremental_ok:
  assumes "table_wf d t" "vec_mutex t \<noteq> Exclusive" "ivf_wf d ix" "clusters ix \<noteq> []"
  shows "\<exists>ix'. add_vectors_incremental (Some t) is ix = Returns ix' \<and> ivf_wf d ix' \<and>
     mset (indexed_ids ix') = mset (indexed_ids ix) + mset (filter (\<lambda>i. map_of (vectors t) i \<noteq> None) is)"
  using assms(3,4)
proof (induction "is" arbitrary: ix)
  case (Cons i "is")
  obtain ix1 where 1: "add_one t i ix = Returns ix1" "ivf_wf d ix1" "clusters ix1 \<noteq> []"
    "mset (indexed_ids ix1) = mset (indexed_ids ix) + (if map_of (vectors t) i = None then {#} else {#i#})"
    using add_one_ok [OF assms(1,2) Cons.prems] by blast
  from Cons.IH [OF 1(2,3)] 1 show ?case by (auto simp: add_vectors_incremental_def)
qed (simp add: add_vectors_incremental_def)

lemma remove_incremental_ids:
  "mset (indexed_ids (remove_vectors_incremental is ix)) = mset (indexed_ids ix) - mset is"
proof -
  have "mset (concat (map c_ids (fold remove_id is cs))) = mset (concat (map c_ids cs)) - mset is" for cs
    by (induction "is" arbitrary: cs) (simp_all add: mset_remove_id)
  then show ?thesis by (simp add: remove_vectors_incremental_def indexed_ids_def)
qed

lemma remove_incremental_wf: "ivf_wf d ix \<Longrightarrow> ivf_wf d (remove_vectors_incremental is ix)"
proof -
  have "map c_centroid (fold remove_id is cs) = map c_centroid cs" for cs
    by (induction "is" arbitrary: cs) simp_all
  then show "ivf_wf d ix \<Longrightarrow> ?thesis" by (simp add: ivf_wf_def remove_vectors_incremental_def)
qed

subsection \<open>A rebuilt index\<close>

lemma fetch_present_all:
  assumes "table_wf d t" "vec_mutex t \<noteq> Exclusive"
  shows "fetch_present t is = Returns (map (\<lambda>i. (i, stored (the (map_of (vectors t) i))))
     (filter (\<lambda>i. map_of (vectors t) i \<noteq> None) is))"
  using assms by (induction "is") (auto simp: get_vector_wf)

lemma concat_partition:
  assumes "\<And>i. i \<in> set is \<Longrightarrow> \<exists>j < n. g i = Some j"
  shows "mset (concat (map (\<lambda>j. filter (\<lambda>i. g i = Some j) is) [0..<n])) = mset is"
  using assms
proof (induction "is")
  case Nil
  show ?case by (induction n) auto
next
  case (Cons i "is")
  then obtain j where j: "j < n" "g i = Some j" by (meson list.set_intros(1))
  have split: "mset (concat (map (\<lambda>j. filter (\<lambda>i. g i = Some j) (i # is)) js)) =
      (if j \<in> set js then {#i#} else {#}) + mset (concat (map (\<lambda>j. filter (\<lambda>i. g i = Some j) is) js))"
    if "distinct js" for js
    using that j(2) by (induction js) auto
  have "mset (concat (map (\<lambda>j. filter (\<lambda>i. g i = Some j) is) [0..<n])) = mset is"
    using Cons by simp
  then show ?case using split [of "[0..<n]"] j(1) by simp
qed

lemma concat_assigned:
  assumes "\<And>v. v \<in> set vs \<Longrightarrow> owner t v cents \<noteq> None"
  shows "mset (concat (map (assigned t vs cents) [0..<length cents])) = mset [0..<length vs]"
proof -
  have "\<exists>j < length cents. owner t (vs ! i) cents = Some j" if "i \<in> set [0..<length vs]" for i
  proof -
    have "vs ! i \<in> set vs" using that by simp
    with assms obtain j where "owner t (vs ! i) cents = Some j" by blast
    with owner_less [OF this] show ?thesis by blast
  qed
  then show ?thesis unfolding assigned_def by (rule concat_partition)
qed

text \<open>Among finite vectors every one has a nearest centroid.\<close>

lemma euclidean_owner:
  assumes "all_dim d vs" "all_finite vs" "all_dim d cents" "all_finite cents" "cents \<noteq> []" "v \<in> set vs"
  shows "owner euclidean v cents \<noteq> None"
proof -
  have s: "same_dim v c" if "c \<in> set cents" for c using all_dim_same [OF assms(1,3,6) that] .
  have c: "cents ! 0 \<in> set cents" using assms(5) by simp
  then obtain e where "euclidean_compute v (cents ! 0) = Returns e" "dless e dmax"
    using euclidean_below_max [OF s [OF c]] assms(2,4,6) by (auto simp: all_finite_def list_all_iff)
  then show ?thesis
    using s assms(5) by (intro owner_exists [of euclidean euclidean_compute _ _ 0 e])
      (simp_all add: get_distance_instance_def)
qed

text \<open>An index whose centroids are finite vectors of the collection's dimension.\<close>

definition centroids_finite :: "ivf_index \<Rightarrow> bool" where
  "centroids_finite ix \<longleftrightarrow> list_all (\<lambda>c. fv_finite (c_centroid c)) (clusters ix)"

text \<open>The clusters of k-means, by positions in the list of ids, hold every id exactly once.\<close>

lemma clustering_ids:
  assumes "clustering m vs cents cs" "cs \<noteq> []" "length ids = length vs" "\<And>v. v \<in> set vs \<Longrightarrow> owner m v cents \<noteq> None"
  shows "mset (concat (map (\<lambda>c. map ((!) ids) (snd c)) cs)) = mset ids"
proof -
  have "length cents = length cs" using assms(1) by (auto simp: clustering_def)
  then have "mset (concat (map (assigned m vs cents) [0..<length cs])) = mset [0..<length ids]"
    using concat_assigned [of vs m cents] assms(3,4) by simp
  moreover have "map snd cs = map (assigned m vs cents) [0..<length cs]" using assms(1) by (simp add: clustering_def)
  ultimately have "mset (concat (map snd cs)) = mset [0..<length ids]" by simp
  then have "mset (map ((!) ids) (concat (map snd cs))) = mset (map ((!) ids) [0..<length ids])" by (metis mset_map)
  also have "\<dots> = mset ids" by (simp only: map_nth)
  finally show ?thesis by (simp add: map_concat comp_def)
qed

lemma fetch_every_id:
  assumes "table_wf d t" "vec_mutex t \<noteq> Exclusive"
  shows "fetch_present t (keys_of (vectors t)) = Returns (map (\<lambda>p. (fst p, stored (snd p))) (vectors t))"
proof -
  have "filter (\<lambda>i. map_of (vectors t) i \<noteq> None) (keys_of (vectors t)) = keys_of (vectors t)"
    by (simp add: filter_id_conv map_of_eq_None_iff)
  moreover have "distinct (keys_of (vectors t))" using assms(1) by (simp add: table_wf_def)
  ultimately show ?thesis using fetch_present_all [OF assms, of "keys_of (vectors t)"] by (auto simp: case_prod_beta)
qed

text \<open>
  A build returns an index of the collection's dimension; with the euclidean distance and
  finite vectors it holds every vector exactly once.
\<close>

lemma ivf_build_ok:
  assumes "table_wf d t" "vec_mutex t \<noteq> Exclusive" "get_distance_instance (i_dist (ivf_params ix)) \<noteq> None"
  shows "\<exists>ix'. ivf_build (Some t) ix = Returns ix' \<and> ivf_params ix' = ivf_params ix \<and> since_rebuild ix' = 0 \<and>
     ivf_wf d ix' \<and> length (clusters ix') = min (unat (i_k (ivf_params ix))) (length (vectors t)) \<and>
     (i_k (ivf_params ix) \<noteq> 0 \<and> i_dist (ivf_params ix) = euclidean \<and>
        small_finite (map (\<lambda>p. stored (snd p)) (vectors t)) \<longrightarrow> tracks t ix' \<and> centroids_finite ix')"
proof (cases "vectors t = []")
  case True
  then show ?thesis using assms
    by (simp add: ivf_build_def ids_wf ivf_wf_def all_dim_def tracks_def indexed_ids_def centroids_finite_def)
next
  case False
  let ?ids = "keys_of (vectors t)" and ?vs = "map (\<lambda>p. stored (snd p)) (vectors t)" and ?p = "ivf_params ix"
  obtain f where f: "get_distance_instance (i_dist ?p) = Some f" using assms(3) by blast
  have wf: "distinct ?ids" "list_all (\<lambda>p. fv_wf (snd p) \<and> fv_dim (snd p) = d) (vectors t)"
    using assms(1) by (auto simp: table_wf_def)
  have ids: "get_all_vector_ids t = Returns ?ids" using assms by (simp add: ids_wf)
  note fetch = fetch_every_id [OF assms(1,2)]
  have dims: "all_dim d ?vs" using wf(2) by (auto simp: all_dim_def list_all_iff)
  obtain cs cents where k: "k_means ?vs (i_k ?p) (i_dist ?p) 100 = Returns cs"
    "length cs = min (unat (i_k ?p)) (length ?vs)" "all_dim d (map fst cs)" "all_dim d cents"
    "clustering (i_dist ?p) ?vs cents cs" "small_finite ?vs \<longrightarrow> all_finite cents \<and> all_finite (map fst cs)"
    using k_means_ok [OF f dims, of "i_k ?p" 99] by auto
  let ?ix = "ix\<lparr>since_rebuild := 0, clusters := map (\<lambda>c. \<lparr>c_centroid = fst c,
      c_ids = map (\<lambda>idx. ?ids ! idx) (snd c)\<rparr>) cs\<rparr>"
  have build: "ivf_build (Some t) ix = Returns ?ix"
    using False by (simp add: ivf_build_def ids fetch k(1) comp_def)
  have "tracks t ?ix \<and> centroids_finite ?ix"
    if "i_k ?p \<noteq> 0" "i_dist ?p = euclidean" "small_finite ?vs"
  proof -
    have "cs \<noteq> []" using k(2) that(1) False by (auto simp: unat_eq_zero min_def split: if_splits)
    then have cents: "cents \<noteq> []" using k(5) by (auto simp: clustering_def)
    have "owner (i_dist ?p) v cents \<noteq> None" if "v \<in> set ?vs" for v
      unfolding \<open>i_dist ?p = euclidean\<close>
      by (rule euclidean_owner [OF dims _ k(4)]) (use that k(6) cents \<open>small_finite ?vs\<close> in \<open>auto simp: small_finite_def\<close>)
    then have "tracks t ?ix"
      using clustering_ids [OF k(5) \<open>cs \<noteq> []\<close>, of ?ids] by (simp add: tracks_def indexed_ids_def comp_def)
    moreover have "centroids_finite ?ix"
      using k(6) \<open>small_finite ?vs\<close> by (auto simp: centroids_finite_def all_finite_def list_all_iff)
    ultimately show ?thesis by blast
  qed
  moreover have "ivf_wf d ?ix" using k(3) assms(3) by (simp add: ivf_wf_def comp_def)
  ultimately show ?thesis using build k(2) by auto
qed

subsection \<open>Searching a set of clusters\<close>

definition score_key :: "score \<Rightarrow> int \<times> id_t" where
  "score_key s = pair_key (fst s, fst (snd s))"

definition score_ok :: "score \<Rightarrow> bool" where
  "score_ok s \<longleftrightarrow> fst s \<noteq> NaN"

interpretation scores: keyed_order score_less score_key score_ok
  by unfold_locales (auto simp: score_less_def score_key_def score_ok_def pairs.less_iff pair_ok_def)

definition score_of :: "dist_type \<Rightarrow> float_vector \<Rightarrow> vec_table \<Rightarrow> id_t \<Rightarrow> score" where
  "score_of m q t i =
     (returned (compute_with m q (stored (the (map_of (vectors t) i)))), i, stored (the (map_of (vectors t) i)))"

lemma rankable_score:
  assumes "rankable m q t" "map_of (vectors t) i = Some v"
  shows "compute_with m q (stored v) = Returns (fst (score_of m q t i))" "score_ok (score_of m q t i)"
proof -
  obtain f where f: "get_distance_instance m = Some f" using assms(1) by (auto simp: rankable_def)
  have "same_dim q v" using assms by (auto simp: rankable_def same_dim_def dest: table_wf_lookup)
  then obtain d where d: "compute_with m q v = Returns d"
    using distance_fn.dist_returns [OF distance_instance_fn [OF f]] f by (auto simp: compute_with_def)
  then show "compute_with m q (stored v) = Returns (fst (score_of m q t i))"
    using assms(2) by (simp add: score_of_def returned_def)
  show "score_ok (score_of m q t i)"
    using assms d by (fastforce simp: score_ok_def score_of_def returned_def rankable_def list_all_iff
        dest: map_of_SomeD)
qed

lemma probe_id_push:
  assumes "rankable m q t"
  shows "probe_id m t q k i s =
    (if map_of (vectors t) i = None then Returns s
     else bounded_push (converse_of score_less) k (score_of m q t i) s)"
proof (cases "map_of (vectors t) i")
  case None
  then show ?thesis using assms by (auto simp: probe_id_def rankable_def get_vector_wf)
next
  case (Some v)
  have "score_of m q t i = (fst (score_of m q t i), i, stored v)" using Some by (simp add: score_of_def)
  then show ?thesis using Some assms rankable_score(1) [OF assms Some]
    by (auto simp: probe_id_def rankable_def get_vector_wf)
qed

lemma probe_all:
  assumes "rankable m q t"
  shows "fold_outcome (probe_id m t q k) is s =
    fold_outcome (bounded_push (converse_of score_less) k)
      (map (score_of m q t) (filter (\<lambda>i. map_of (vectors t) i \<noteq> None) is)) s"
  by (induction "is" arbitrary: s)
    (auto simp: probe_id_push [OF assms] intro!: obind_cong)

text \<open>The best \<open>k\<close> of the given ids, nearest first.\<close>

definition best :: "dist_type \<Rightarrow> float_vector \<Rightarrow> vec_table \<Rightarrow> nat \<Rightarrow> id_t list \<Rightarrow> score list" where
  "best m q t k is =
     take k (sort_key score_key (map (score_of m q t) (filter (\<lambda>i. map_of (vectors t) i \<noteq> None) is)))"

lemma inj_score_of: "inj_on score_key (range (score_of m q t))"
  by (auto simp: inj_on_def score_key_def pair_key_def score_of_def)

lemma probe_best:
  assumes "rankable m q t"
  shows "\<exists>s. fold_outcome (probe_id m t q k) is [] = Returns s \<and> rev s = best m q t k is"
proof -
  let ?xs = "map (score_of m q t) (filter (\<lambda>i. map_of (vectors t) i \<noteq> None) is)"
  have "list_all score_ok ?xs" using rankable_score(2) [OF assms] by (auto simp: list_all_iff)
  then obtain s where s: "fold_outcome (bounded_push (converse_of score_less) k) ?xs [] = Returns s"
    "set s \<subseteq> set ?xs" "rev (map score_key s) = take k (sort (map score_key ?xs))"
    using scores.bounded_pushes_keys [of ?xs "[]" k "[]"] by auto
  have "map score_key (rev s) = map score_key (best m q t k is)"
    using s(3) by (simp add: rev_map best_def map_sort_key flip: take_map)
  moreover have "set (rev s) \<union> set (best m q t k is) \<subseteq> range (score_of m q t)"
    using s(2) by (auto simp: best_def dest!: in_set_takeD)
  then have "inj_on score_key (set (rev s) \<union> set (best m q t k is))"
    using inj_score_of inj_on_subset by blast
  ultimately have "rev s = best m q t k is" by (metis inj_on_Un map_inj_on)
  then show ?thesis using s(1) by (auto simp: probe_all [OF assms])
qed

lemma best_perm: "mset is = mset js \<Longrightarrow> best m q t k is = best m q t k js"
proof -
  assume m: "mset is = mset js"
  let ?f = "\<lambda>is. map (score_of m q t) (filter (\<lambda>i. map_of (vectors t) i \<noteq> None) is)"
  have "mset (?f is) = mset (?f js)" using m by (simp add: mset_map mset_filter)
  moreover have "inj_on score_key (set (?f is))" using inj_score_of by (rule inj_on_subset) auto
  ultimately show ?thesis unfolding best_def by (simp only: sort_key_perm)
qed

subsection \<open>Searching the index\<close>

definition cluster_scores :: "dist_type \<Rightarrow> float_vector \<Rightarrow> cluster list \<Rightarrow> (double \<times> nat) list" where
  "cluster_scores m q cs =
     map (\<lambda>(j, c). (returned (compute_with m q (c_centroid c)), j)) (enumerate 0 cs)"

text \<open>The ids of the clusters that are probed: those with the nearest centroids.\<close>

definition probed_ids :: "ivf_index \<Rightarrow> float_vector \<Rightarrow> id_t list" where
  "probed_ids ix q =
     concat (map (\<lambda>p. c_ids (clusters ix ! snd p))
       (take (unat (i_n_probe (ivf_params ix)))
         (sort_key pair_key (cluster_scores (i_dist (ivf_params ix)) q (clusters ix)))))"

definition ivf_rankable :: "ivf_index \<Rightarrow> float_vector \<Rightarrow> vec_table \<Rightarrow> bool" where
  "ivf_rankable ix q t \<longleftrightarrow>
     rankable (i_dist (ivf_params ix)) q t \<and> ivf_wf (fv_dim q) ix \<and> length (clusters ix) < 2 ^ 32 \<and>
     list_all (\<lambda>c. compute_with (i_dist (ivf_params ix)) q (c_centroid c) \<noteq> Returns NaN) (clusters ix)"

lemma push_clusters:
  assumes "ivf_rankable ix q t"
  shows "fold_outcome (push_cluster (i_dist (ivf_params ix)) q) (enumerate 0 (clusters ix)) [] =
    Returns (sort_key pair_key (cluster_scores (i_dist (ivf_params ix)) q (clusters ix)))"
proof -
  let ?m = "i_dist (ivf_params ix)" and ?g = "\<lambda>p. (returned (compute_with (i_dist (ivf_params ix)) q (c_centroid (snd p))), fst p)"
  let ?s = "cluster_scores ?m q (clusters ix)"
  obtain f where f: "get_distance_instance ?m = Some f" using assms by (auto simp: ivf_rankable_def ivf_wf_def)
  have c: "\<exists>d. compute_with ?m q (c_centroid c) = Returns d \<and> d \<noteq> NaN" if "c \<in> set (clusters ix)" for c
  proof -
    have "same_dim q (c_centroid c)"
      using that assms by (auto simp: ivf_rankable_def rankable_def ivf_wf_def all_dim_def same_dim_def list_all_iff)
    then obtain d where "compute_with ?m q (c_centroid c) = Returns d"
      using distance_fn.dist_returns [OF distance_instance_fn [OF f]] f by (auto simp: compute_with_def)
    then show ?thesis using that assms by (auto simp: ivf_rankable_def list_all_iff)
  qed
  have m: "c \<in> set (clusters ix)" if "(j, c) \<in> set (enumerate 0 (clusters ix))" for j c
    using that by (auto simp: enumerate_eq_zip dest: set_zip_rightD)
  have push: "fold_outcome (push_cluster ?m q) ps s = fold_outcome (pq_push pair_less) (map ?g ps) s"
    if "set ps \<subseteq> set (enumerate 0 (clusters ix))" for ps s
    using that
  proof (induction ps arbitrary: s)
    case (Cons p ps)
    obtain j c' where p: "p = (j, c')" by (cases p)
    with Cons.prems m c obtain d where "compute_with ?m q (c_centroid c') = Returns d" by fastforce
    with Cons p show ?case by (auto simp: push_cluster_def returned_def intro!: obind_cong)
  qed simp
  have "list_all pair_ok ?s"
    using c m by (fastforce simp: cluster_scores_def list_all_iff pair_ok_def returned_def)
  then obtain r where r: "fold_outcome (pq_push pair_less) ?s [] = Returns r" "mset r = mset ?s"
    "sorted (map pair_key r)" using pairs.pq_pushes_key [of ?s "[]"] by auto
  have "distinct (map snd ?s)"
    by (simp add: cluster_scores_def comp_def case_prod_beta)
  then have "sort_key pair_key ?s = sort_key pair_key r"
    using r(2) by (intro sort_key_perm inj_pair_key) simp_all
  then have "sort_key pair_key ?s = r" using r(3) by (simp add: sort_key_id_if_sorted)
  moreover have "map ?g (enumerate 0 (clusters ix)) = ?s" by (auto simp: cluster_scores_def)
  ultimately show ?thesis
    using push [OF subset_refl, of "[]"] r(1) by simp
qed

lemma fold_outcome_concat:
  "fold_outcome (\<lambda>j. fold_outcome f (g j)) js s = fold_outcome f (concat (map g js)) s"
  by (induction js arbitrary: s) (auto simp: fold_outcome_append intro!: obind_cong)

text \<open>The result of a search: the best \<open>k\<close> of the ids in the probed clusters.\<close>

lemma ivf_search_best:
  assumes "ivf_rankable ix q t" "clusters ix \<noteq> []"
  shows "ivf_search ix (Some t) q k r =
    Returns (best (i_dist (ivf_params ix)) q t (unat k) (probed_ids ix q) \<noteq> [],
      best (i_dist (ivf_params ix)) q t (unat k) (probed_ids ix q))"
proof -
  let ?m = "i_dist (ivf_params ix)"
  let ?o = "sort_key pair_key (cluster_scores ?m q (clusters ix))"
  let ?n = "unat (i_n_probe (ivf_params ix))"
  have "length ?o < 2 ^ 32" using assms(1) by (simp add: ivf_rankable_def cluster_scores_def)
  then have "unat (word_of_nat (length ?o) :: u32) = length ?o" by (simp add: unat_of_nat)
  then have "take (unat (min (i_n_probe (ivf_params ix)) (word_of_nat (length ?o)))) ?o = take ?n ?o"
    by (simp add: min_def word_le_nat_alt)
  moreover obtain s where s: "fold_outcome (probe_id ?m t q (unat k)) (probed_ids ix q) [] = Returns s"
    "rev s = best ?m q t (unat k) (probed_ids ix q)"
    using probe_best assms(1) unfolding ivf_rankable_def by blast
  moreover have "(s \<noteq> []) = (rev s \<noteq> [])" by simp
  ultimately show ?thesis
    using assms(2) by (simp add: ivf_search_def push_clusters [OF assms(1)] fold_outcome_concat
        probed_ids_def comp_def)
qed

lemma sum_list_perm: "mset xs = mset ys \<Longrightarrow> (\<Sum>x\<leftarrow>xs. f x) = (\<Sum>x\<leftarrow>ys. f x)"
  for f :: "'a \<Rightarrow> 'b::comm_monoid_add"
  by (simp flip: sum_mset_sum_list)

text \<open>Probing all clusters looks at every indexed id.\<close>

lemma probed_all:
  assumes "length (clusters ix) \<le> unat (i_n_probe (ivf_params ix))"
  shows "mset (probed_ids ix q) = mset (indexed_ids ix)"
proof -
  let ?s = "cluster_scores (i_dist (ivf_params ix)) q (clusters ix)" and ?g = "\<lambda>p. mset (c_ids (clusters ix ! snd p))"
  have "length ?s = length (clusters ix)" by (simp add: cluster_scores_def)
  then have "mset (probed_ids ix q) = (\<Sum>p\<leftarrow>sort_key pair_key ?s. ?g p)"
    using assms by (simp add: probed_ids_def mset_concat comp_def)
  also have "\<dots> = (\<Sum>p\<leftarrow>?s. ?g p)"
    by (rule sum_list_perm) simp
  also have "\<dots> = (\<Sum>j\<leftarrow>map snd ?s. mset (c_ids (clusters ix ! j)))"
    by (simp add: comp_def)
  also have "map snd ?s = [0..<length (clusters ix)]"
    by (simp add: cluster_scores_def comp_def case_prod_beta)
  also have "(\<Sum>j\<leftarrow>[0..<length (clusters ix)]. mset (c_ids (clusters ix ! j))) = mset (indexed_ids ix)"
  proof -
    have "map (\<lambda>j. mset (c_ids (clusters ix ! j))) [0..<length (clusters ix)] = map (\<lambda>c. mset (c_ids c)) (clusters ix)"
      by (rule nth_equalityI) simp_all
    then show ?thesis by (simp add: indexed_ids_def mset_concat comp_def)
  qed
  finally show ?thesis .
qed

subsection \<open>Euclidean indices against the exhaustive search\<close>

lemma searchable_ivf_rankable:
  assumes "searchable q t" "ivf_wf (fv_dim q) ix" "centroids_finite ix" "i_dist (ivf_params ix) = euclidean"
    and "length (clusters ix) \<le> unat (i_n_probe (ivf_params ix))"
  shows "ivf_rankable ix q t"
proof -
  have "euclidean_compute q (c_centroid c) \<noteq> Returns NaN" if "c \<in> set (clusters ix)" for c
  proof (rule euclid.dist_not_NaN)
    show "same_dim q (c_centroid c)" "fv_finite q" "fv_finite (c_centroid c)"
      using that assms by (auto simp: searchable_def ivf_wf_def all_dim_def same_dim_def list_all_iff centroids_finite_def)
  qed
  moreover have "length (clusters ix) < 2 ^ 32"
    using assms(5) unsigned_less [of "i_n_probe (ivf_params ix)", where ?'a = nat] by simp
  ultimately show ?thesis using assms searchable_rankable
    by (simp add: ivf_rankable_def list_all_iff)
qed

lemma best_nearest:
  assumes "searchable q t"
  shows "best euclidean q t k (keys_of (vectors t)) =
    map (\<lambda>(d, i). (d, i, stored (the (map_of (vectors t) i)))) (nearest q (vectors t) k)"
proof -
  let ?f = "\<lambda>p :: double \<times> id_t. (fst p, snd p, stored (the (map_of (vectors t) (snd p))))"
  have "filter (\<lambda>i. map_of (vectors t) i \<noteq> None) (keys_of (vectors t)) = keys_of (vectors t)"
    by (simp add: filter_id_conv map_of_eq_None_iff)
  moreover have "map (score_of euclidean q t) (keys_of (vectors t)) = map ?f (scored q (vectors t))"
    using searchable_member(3) [OF assms] by (auto simp: scored_def score_of_def)
  moreover have "sort_key score_key (map ?f xs) = map ?f (sort_key pair_key xs)" for xs
  proof -
    have "insort_key score_key (?f x) (map ?f xs) = map ?f (insort_key pair_key x xs)" for x xs
      by (induction xs) (auto simp: score_key_def)
    then show ?thesis by (induction xs) simp_all
  qed
  ultimately show ?thesis by (simp add: best_def nearest_def take_map case_prod_beta)
qed

subsection \<open>Properties\<close>

definition sample_ivf :: "u64 \<Rightarrow> ivf_index" where
  "sample_ivf n = \<lparr>ivf_params = ivf_params_new euclidean 2 2 10,
     clusters = [\<lparr>c_centroid = sample_vector 0x3F800000, c_ids = [7]\<rparr>,
                 \<lparr>c_centroid = sample_vector 0x40400000, c_ids = [9]\<rparr>],
     since_rebuild = n\<rparr>"

lemma sample_ivf_simps [simp]:
  "clusters (sample_ivf n) \<noteq> []" "length (clusters (sample_ivf n)) = 2" "since_rebuild (sample_ivf n) = n"
  "ivf_wf 1 (sample_ivf n)" "centroids_finite (sample_ivf n)" "tracks (sample_table m) (sample_ivf n)"
  "i_dist (ivf_params (sample_ivf n)) = euclidean" "i_n_probe (ivf_params (sample_ivf n)) = 2"
  "i_rebuild_threshold (ivf_params (sample_ivf n)) = 10" "indexed_ids (sample_ivf n) = [7, 9]"
  by (simp_all add: sample_ivf_def ivf_wf_def get_distance_instance_def all_dim_def centroids_finite_def
      tracks_def indexed_ids_def ivf_params_new_def fp_eval)

text \<open>
  Building a euclidean index over fewer than \<open>2 ^ 29\<close> finite vectors returns \<open>min k n\<close> clusters
  around finite centroids, and every vector of the collection is in exactly one of them.
\<close>

lemma ivf_build_tracks:
  assumes "table_wf d t" "vec_mutex t \<noteq> Exclusive" "i_dist (ivf_params ix) = euclidean" "i_k (ivf_params ix) \<noteq> 0"
    and "list_all (\<lambda>p. fv_finite (snd p)) (vectors t)" "length (vectors t) < 2 ^ 29"
  shows "\<exists>ix'. ivf_init (Some t) ix = Returns ix' \<and> ivf_wf d ix' \<and> tracks t ix' \<and> centroids_finite ix' \<and>
    length (clusters ix') = min (unat (i_k (ivf_params ix))) (length (vectors t)) \<and> since_rebuild ix' = 0"
proof -
  have "small_finite (map (\<lambda>p. stored (snd p)) (vectors t))"
    using assms(5,6) by (simp add: small_finite_def all_finite_def list_all_iff)
  then show ?thesis using ivf_build_ok [OF assms(1,2), of ix] assms(3,4)
    by (auto simp: ivf_init_def get_distance_instance_def)
qed

lemma ivf_build_tracks_instance:
  "\<exists>ix'. ivf_init (Some (sample_table Free)) (ivf_new ivf_params_default) = Returns ix' \<and> ivf_wf 1 ix' \<and>
    tracks (sample_table Free) ix' \<and> centroids_finite ix' \<and>
    length (clusters ix') = min (unat (i_k (ivf_params (ivf_new ivf_params_default)))) (length (vectors (sample_table Free))) \<and>
    since_rebuild ix' = 0"
  by (rule ivf_build_tracks)
    (simp_all add: ivf_new_def ivf_params_default_def ivf_params_new_def f32_finite_def f32_exp_def)

lemma full_probe_exact:
  assumes "searchable q t" "ivf_wf (fv_dim q) ix" "centroids_finite ix" "tracks t ix" "clusters ix \<noteq> []"
    and "i_dist (ivf_params ix) = euclidean" "length (clusters ix) \<le> unat (i_n_probe (ivf_params ix))"
  shows "\<exists>rs. exact_search (Some t) q k r = Returns (True, rs) \<and>
    ivf_search ix (Some t) q k r = Returns (rs \<noteq> [], rs)"
proof -
  have "mset (probed_ids ix q) = mset (keys_of (vectors t))"
    using probed_all [OF assms(7)] assms(4) by (simp add: tracks_def)
  then have "best euclidean q t (unat k) (probed_ids ix q) = best euclidean q t (unat k) (keys_of (vectors t))"
    by (rule best_perm)
  then show ?thesis
    using ivf_search_best [OF searchable_ivf_rankable [OF assms(1-3,6,7)] assms(5)]
    by (simp add: assms(6) exact_search_nearest [OF assms(1)] best_nearest [OF assms(1)])
qed


lemma sample_searchable: "f32_finite x \<Longrightarrow> m \<noteq> Exclusive \<Longrightarrow> searchable (sample_vector x) (sample_table m)"
  by (simp add: searchable_def fp_eval)


text \<open>
  Vectors that are new in the collection and fit in the incremental budget are added to the
  clusters, each of them once: an index that tracked the collection before tracks it afterwards.
\<close>

lemma ivf_added_tracked:
  assumes "table_wf d t'" "vec_mutex t' \<noteq> Exclusive" "ivf_wf d ix" "tracks t ix" "clusters ix \<noteq> []"
    and "mset (keys_of (vectors t')) = mset (keys_of (vectors t)) + mset is"
    and "since_rebuild ix + word_of_nat (length is) < i_rebuild_threshold (ivf_params ix)"
  shows "\<exists>ix'. ivf_on_vectors_added (Some t') is ix = Returns ix' \<and> ivf_wf d ix' \<and> tracks t' ix'"
proof -
  let ?ix = "ix\<lparr>since_rebuild := since_rebuild ix + word_of_nat (length is)\<rparr>"
  have "set is \<subseteq> set (keys_of (vectors t'))"
    by (metis assms(6) set_mset_mset set_mset_union Un_upper2)
  then have "filter (\<lambda>i. map_of (vectors t') i \<noteq> None) is = is"
    by (force simp: filter_id_conv map_of_eq_None_iff)
  then show ?thesis
    using add_incremental_ok [OF assms(1,2), of ?ix "is"] assms(3-)
    by (auto simp: ivf_on_vectors_added_def ivf_wf_def tracks_def indexed_ids_def)
qed

lemma ivf_added_tracked_instance:
  "\<exists>ix'. ivf_on_vectors_added (Some (sample_table Free)) [9]
      (sample_ivf 0\<lparr>clusters := [\<lparr>c_centroid = sample_vector 0x3F800000, c_ids = [7]\<rparr>]\<rparr>) = Returns ix' \<and>
    ivf_wf 1 ix' \<and> tracks (sample_table Free) ix'"
  by (rule ivf_added_tracked [where t = "\<lparr>vectors = [(7, sample_vector 0)], vec_mutex = Free\<rparr>"])
    (simp_all add: sample_ivf_def ivf_wf_def get_distance_instance_def all_dim_def tracks_def
      indexed_ids_def ivf_params_new_def)

text \<open>
  Removing vectors within the incremental budget takes each of them out of its cluster, without
  looking at the collection: an index that tracked it before tracks what is left.
\<close>

lemma ivf_removed_tracked:
  assumes "ivf_wf d ix" "tracks t ix" "clusters ix \<noteq> []"
    and "mset (keys_of (vectors t)) = mset (keys_of (vectors t')) + mset is"
    and "since_rebuild ix + word_of_nat (length is) < i_rebuild_threshold (ivf_params ix)"
  shows "\<exists>ix'. ivf_on_vectors_removed (Some t') is ix = Returns ix' \<and> ivf_wf d ix' \<and> tracks t' ix'"
  using assms remove_incremental_wf [of d ix] remove_incremental_ids [of "is" ix]
  by (auto simp: ivf_on_vectors_removed_def tracks_def ivf_wf_def remove_vectors_incremental_def indexed_ids_def)

lemma ivf_removed_tracked_instance:
  "\<exists>ix'. ivf_on_vectors_removed (Some \<lparr>vectors = [(9, sample_vector 0x40400000)], vec_mutex = Exclusive\<rparr>) [7]
      (sample_ivf 0) = Returns ix' \<and> ivf_wf 1 ix' \<and>
    tracks \<lparr>vectors = [(9, sample_vector 0x40400000)], vec_mutex = Exclusive\<rparr> ix'"
  by (rule ivf_removed_tracked [where t = "sample_table Free"]) simp_all

text \<open>
  A removal that reaches the rebuild threshold never returns when the caller holds the
  collection's mutex exclusively, as \<^verbatim>\<open>collection::remove_vectors\<close> does: the rebuild waits for it.
\<close>

lemma ivf_removal_rebuild_blocks:
  assumes "clusters ix \<noteq> []" "vec_mutex t = Exclusive"
    and "i_rebuild_threshold (ivf_params ix) \<le> since_rebuild ix + word_of_nat (length is)"
  shows "ivf_on_vectors_removed (Some t) is ix = Blocks"
  using assms by (simp add: ivf_on_vectors_removed_def ivf_build_def blocked_table)

lemma ivf_removal_rebuild_blocks_instance:
  "ivf_on_vectors_removed (Some (sample_table Exclusive)) [5] (sample_ivf 9) = Blocks"
  by (rule ivf_removal_rebuild_blocks) simp_all

text \<open>
  Announcing a stored id as added always appends an entry for it, also when it has one already:
  updating a vector leaves its old entry in place and the index holds the id twice.
\<close>

lemma ivf_readd_duplicates:
  assumes "table_wf d t" "vec_mutex t \<noteq> Exclusive" "ivf_wf d ix" "clusters ix \<noteq> []"
    and "map_of (vectors t) i = Some v" "since_rebuild ix + 1 < i_rebuild_threshold (ivf_params ix)"
  shows "\<exists>ix'. ivf_on_vectors_added (Some t) [i] ix = Returns ix' \<and>
    count (mset (indexed_ids ix')) i = Suc (count (mset (indexed_ids ix)) i)"
  using add_incremental_ok [OF assms(1,2), of "ix\<lparr>since_rebuild := since_rebuild ix + 1\<rparr>" "[i]"] assms(3-)
  by (auto simp: ivf_on_vectors_added_def ivf_wf_def indexed_ids_def)

lemma ivf_readd_duplicates_instance:
  "\<exists>ix'. ivf_on_vectors_added (Some (sample_table Free)) [7] (sample_ivf 0) = Returns ix' \<and>
    count (mset (indexed_ids ix')) 7 = Suc (count (mset (indexed_ids (sample_ivf 0))) 7)"
  by (rule ivf_readd_duplicates [where d = 1]) simp_all

end
