(* ===== verification/Hnsw.thy ===== *)
theory Hnsw
  imports Exact_Index Index_Params
begin

text \<open>
  The layered graph index, \<^verbatim>\<open>include/core/indices/hnsw.h\<close> and \<^verbatim>\<open>impl/core/indices/hnsw.cpp\<close>.

  \<^item> A layer \<^verbatim>\<open>neighbours_[l]\<close> is a function from an id to the list of its neighbours: reading a missing
    key with \<^verbatim>\<open>operator[]\<close> creates an empty set, which nothing can tell from no set. \<^verbatim>\<open>node_levels_\<close>
    likewise is a function with default 0. Using a layer that does not exist is \<open>Undefined\<close>.
  \<^item> The level that \<^verbatim>\<open>generate_random_level\<close> draws for an id during one build is an input of the model,
    \<open>lv\<close>. For \<^verbatim>\<open>M_ = 1\<close> the factor \<^verbatim>\<open>ml_\<close> is infinite and converting the product to \<^verbatim>\<open>int\<close> is undefined.
  \<^item> Changing the set that a \<^verbatim>\<open>for\<close> loop walks over is \<open>Undefined\<close>.
  \<^item> Entry point 0 stands for "none", as in the code. The index's own mutex is left to \<open>Locking\<close>.
\<close>

type_synonym cand_set = "(double \<times> id_t) list"

record hnsw_index =
  hx_params :: hnsw_params
  inserted :: "id_t list"
  to_be_inserted :: "id_t list"
  to_be_removed :: "id_t list"
  node_levels :: "id_t \<Rightarrow> int"
  neighbours :: "(id_t \<Rightarrow> id_t list) list"
  entry_point :: id_t
  max_layer :: int

definition hnsw_clear :: "hnsw_index \<Rightarrow> hnsw_index" where
  "hnsw_clear ix =
     ix\<lparr>to_be_inserted := [], to_be_removed := [], inserted := [], node_levels := (\<lambda>_. 0),
       neighbours := [], entry_point := 0, max_layer := - 1\<rparr>"

definition hnsw_new :: "vec_table option \<Rightarrow> hnsw_params \<Rightarrow> hnsw_index outcome" where
  "hnsw_new collection p =
     (if collection = None then Throws (Runtime_error ''Collection pointer expired'')
      else Returns \<lparr>hx_params = p, inserted = [], to_be_inserted = [], to_be_removed = [],
        node_levels = (\<lambda>_. 0), neighbours = [], entry_point = 0, max_layer = - 1\<rparr>)"

subsection \<open>Distances\<close>

text \<open>A vector that is gone is at \<^verbatim>\<open>numeric_limits<double>::max()\<close>.\<close>

definition id_dist :: "dist_type \<Rightarrow> vec_table \<Rightarrow> id_t \<Rightarrow> id_t \<Rightarrow> double outcome" where
  "id_dist m col a b =
     obind (get_vector_by_id col a) (\<lambda>va.
     obind (get_vector_by_id col b) (\<lambda>vb.
     case (va, vb) of
       (Some x, Some y) \<Rightarrow> compute_with m x y
     | _ \<Rightarrow> Returns dmax))"

definition query_dist :: "dist_type \<Rightarrow> vec_table \<Rightarrow> float_vector \<Rightarrow> id_t \<Rightarrow> double outcome" where
  "query_dist m col q b =
     obind (get_vector_by_id col b) (\<lambda>vb.
     case vb of None \<Rightarrow> Returns dmax | Some y \<Rightarrow> compute_with m q y)"

subsection \<open>Searching one layer\<close>

text \<open>The state of the search: the results, the candidates and the visited ids.\<close>

type_synonym search_state = "cand_set \<times> cand_set \<times> id_t list"

definition seed :: "(id_t \<Rightarrow> double outcome) \<Rightarrow> id_t \<Rightarrow> search_state \<Rightarrow> search_state outcome" where
  "seed dst ep s =
     (case s of (res, cand, vis) \<Rightarrow>
        obind (dst ep) (\<lambda>d.
        obind (oset_insert pair_less (d, ep) res) (\<lambda>res'.
        obind (oset_insert pair_less (d, ep) cand) (\<lambda>cand'.
          Returns (res', cand', set_insert ep vis)))))"

definition relax :: "(id_t \<Rightarrow> double outcome) \<Rightarrow> nat \<Rightarrow> id_t \<Rightarrow> search_state \<Rightarrow> search_state outcome" where
  "relax dst ef nb s =
     (case s of (res, cand, vis) \<Rightarrow>
        if nb \<in> set vis then Returns (res, cand, vis)
        else if res = [] then Undefined
        else
          obind (dst nb) (\<lambda>d.
          if dless d (fst (last res)) \<or> length res < ef then
            obind (oset_insert pair_less (d, nb) cand) (\<lambda>cand'.
            obind (oset_insert pair_less (d, nb) res) (\<lambda>res'.
              Returns (if length res' > ef then butlast res' else res', cand', set_insert nb vis)))
          else Returns (res, cand, set_insert nb vis)))"

text \<open>Every round takes a candidate away, and a new candidate is an id that was not visited before.\<close>

definition search_weight :: "search_state \<Rightarrow> nat" where
  "search_weight s = (case s of (res, cand, vis) \<Rightarrow> length cand + card (UNIV - set vis))"

lemma oset_insert_length: "oset_insert lt x s = Returns s' \<Longrightarrow> length s' \<le> Suc (length s)"
proof -
  have "length (ins lt x s) = Suc (length s)" by (induction s) auto
  then show "oset_insert lt x s = Returns s' \<Longrightarrow> ?thesis" by (auto simp: oset_insert_def split: if_splits)
qed

lemma card_visit: "x \<notin> set vis \<Longrightarrow> Suc (card (UNIV - set (set_insert x vis))) = card (UNIV - set vis)"
  for x :: id_t
proof -
  assume "x \<notin> set vis"
  then have "UNIV - set vis = insert x (UNIV - set (set_insert x vis))" by auto
  then show ?thesis by (simp add: card_insert_disjoint)
qed

lemma relax_weight: "relax dst ef nb s = Returns s' \<Longrightarrow> search_weight s' \<le> search_weight s"
proof -
  assume r: "relax dst ef nb s = Returns s'"
  obtain res cand vis where s: "s = (res, cand, vis)" by (cases s)
  show ?thesis
  proof (cases "nb \<in> set vis")
    case True
    then show ?thesis using r by (simp add: relax_def s)
  next
    case False
    then show ?thesis using r card_visit [OF False] oset_insert_length
      by (fastforce simp: relax_def s run search_weight_def split: if_splits)
  qed
qed

lemma fold_relax_weight: "fold_outcome (relax dst ef) nbs s = Returns s' \<Longrightarrow> search_weight s' \<le> search_weight s"
  by (erule fold_outcome_keeps [where P = "\<lambda>x. search_weight x \<le> search_weight s"])
    (auto dest: relax_weight)

function search_loop ::
  "(id_t \<Rightarrow> id_t list) \<Rightarrow> (id_t \<Rightarrow> double outcome) \<Rightarrow> nat \<Rightarrow> search_state \<Rightarrow> cand_set outcome" where
  "search_loop nbs dst ef (res, [], vis) = Returns res"
| "search_loop nbs dst ef (res, c # cand, vis) =
     (if res = [] then Undefined
      else if dless (fst (last res)) (fst c) then Returns res
      else
        obind (fold_outcome (relax dst ef) (nbs (snd c)) (res, cand, vis)) (search_loop nbs dst ef))"
  by pat_completeness auto

termination
proof (relation "measure (\<lambda>(nbs, dst, ef, s). search_weight s)")
  fix nbs :: "id_t \<Rightarrow> id_t list" and dst ef and res :: cand_set and c :: "double \<times> id_t" and cand vis s
  assume "fold_outcome (relax dst ef) (nbs (snd c)) (res, cand, vis) = Returns s"
  then have "search_weight s \<le> search_weight (res, cand, vis)" by (rule fold_relax_weight)
  then show "((nbs, dst, ef, s), nbs, dst, ef, res, c # cand, vis) \<in> measure (\<lambda>(nbs, dst, ef, s). search_weight s)"
    by (simp add: search_weight_def)
qed simp

definition layer_at :: "hnsw_index \<Rightarrow> nat \<Rightarrow> (id_t \<Rightarrow> id_t list) outcome" where
  "layer_at ix lc = (if lc < length (neighbours ix) then Returns (neighbours ix ! lc) else Undefined)"

text \<open>The first round of the loop always looks at the layer, so it may be looked up before.\<close>

definition search_layer ::
  "hnsw_index \<Rightarrow> vec_table \<Rightarrow> float_vector \<Rightarrow> id_t list \<Rightarrow> u32 \<Rightarrow> nat \<Rightarrow> cand_set outcome" where
  "search_layer ix col q eps ef lc =
     (if eps = [] then Returns []
      else
        obind (fold_outcome (seed (query_dist (h_dist (hx_params ix)) col q)) eps ([], [], [])) (\<lambda>s.
        obind (layer_at ix lc) (\<lambda>nbs.
          search_loop nbs (query_dist (h_dist (hx_params ix)) col q) (unat ef) s)))"

subsection \<open>Selecting neighbours\<close>

fun select_loop :: "nat \<Rightarrow> cand_set \<Rightarrow> cand_set \<Rightarrow> cand_set \<Rightarrow> (cand_set \<times> cand_set) outcome" where
  "select_loop n [] res disc = Returns (res, disc)"
| "select_loop n (e # es) res disc =
     (if n \<le> length res then Returns (res, disc)
      else if res = [] \<or> dless (fst e) (fst (hd res))
      then obind (oset_insert pair_less e res) (\<lambda>res'. select_loop n es res' disc)
      else obind (oset_insert pair_less e disc) (\<lambda>disc'. select_loop n es res disc'))"

fun backfill :: "nat \<Rightarrow> cand_set \<Rightarrow> cand_set \<Rightarrow> cand_set outcome" where
  "backfill n [] res = Returns res"
| "backfill n (e # es) res =
     (if n \<le> length res then Returns res
      else obind (oset_insert pair_less e res) (backfill n es))"

definition select_neighbors_heuristic :: "cand_set \<Rightarrow> u32 \<Rightarrow> cand_set outcome" where
  "select_neighbors_heuristic candidates no_of_cand =
     obind (select_loop (unat no_of_cand) candidates [] []) (\<lambda>(res, disc).
       if length res < unat no_of_cand then backfill (unat no_of_cand) disc res else Returns res)"

subsection \<open>Inserting a node\<close>

definition draw_level :: "hnsw_index \<Rightarrow> (id_t \<Rightarrow> nat) \<Rightarrow> id_t \<Rightarrow> int outcome" where
  "draw_level ix lv i = (if h_M (hx_params ix) = 1 then Undefined else Returns (int (lv i)))"

definition layer_cap :: "hnsw_index \<Rightarrow> nat \<Rightarrow> u32" where
  "layer_cap ix lc = (if lc = 0 then h_M0 (hx_params ix) else h_M (hx_params ix))"

text \<open>\<^verbatim>\<open>neighbours_[lc][id].insert(nb); neighbours_[lc][nb].insert(id);\<close>\<close>

definition link :: "id_t \<Rightarrow> id_t \<Rightarrow> (id_t \<Rightarrow> id_t list) \<Rightarrow> id_t \<Rightarrow> id_t list" where
  "link i nb nbs =
     (nbs(i := set_insert nb (nbs i)))(nb := set_insert i ((nbs(i := set_insert nb (nbs i))) nb))"

text \<open>
  \<^verbatim>\<open>create_cand_set\<close> gives every neighbour of \<open>node\<close> one and the same distance, that from the node
  being inserted to \<open>node\<close>.
\<close>

definition create_cand_set :: "double outcome \<Rightarrow> id_t list \<Rightarrow> cand_set outcome" where
  "create_cand_set d ids =
     fold_outcome (\<lambda>nb s. obind d (\<lambda>x. oset_insert pair_less (x, nb) s)) ids []"

definition create_neighbour_set :: "cand_set \<Rightarrow> id_t list" where
  "create_neighbour_set cs = fold (\<lambda>c ids. set_insert (snd c) ids) cs []"

definition shrink_one ::
  "(id_t \<Rightarrow> double outcome) \<Rightarrow> u32 \<Rightarrow> id_t \<Rightarrow> id_t \<Rightarrow> (id_t \<Rightarrow> id_t list) \<Rightarrow> (id_t \<Rightarrow> id_t list) outcome" where
  "shrink_one dst cap i nb nbs =
     (if length (nbs nb) > unat cap then
        (if nb = i then Undefined
         else
           obind (create_cand_set (dst nb) (nbs nb)) (\<lambda>cs.
           obind (select_neighbors_heuristic cs cap) (\<lambda>sel.
             Returns (nbs(nb := create_neighbour_set sel)))))
      else Returns nbs)"

definition link_layer ::
  "vec_table \<Rightarrow> id_t \<Rightarrow> float_vector \<Rightarrow> nat \<Rightarrow> hnsw_index \<times> id_t list \<Rightarrow> (hnsw_index \<times> id_t list) outcome" where
  "link_layer col i v lc s =
     (case s of (ix, ep) \<Rightarrow>
        obind (search_layer ix col v ep (h_ef_construction (hx_params ix)) lc) (\<lambda>candidates.
        obind (select_neighbors_heuristic candidates (layer_cap ix lc)) (\<lambda>selected.
        obind (layer_at ix lc) (\<lambda>nbs.
        obind (fold_outcome (shrink_one (id_dist (h_dist (hx_params ix)) col i) (layer_cap ix lc) i)
                 (fold (\<lambda>c. link i (snd c)) selected nbs i)
                 (fold (\<lambda>c. link i (snd c)) selected nbs)) (\<lambda>nbs'.
          Returns (ix\<lparr>neighbours := (neighbours ix)[lc := nbs']\<rparr>, create_neighbour_set candidates))))))"

definition descend_layer ::
  "hnsw_index \<Rightarrow> vec_table \<Rightarrow> float_vector \<Rightarrow> nat \<Rightarrow> id_t list \<Rightarrow> id_t list outcome" where
  "descend_layer ix col v lc ep =
     obind (search_layer ix col v ep 1 lc) (\<lambda>candidates.
     case candidates of [] \<Rightarrow> Undefined | c # _ \<Rightarrow> Returns [snd c])"

text \<open>The layers from \<open>hi\<close> down to \<open>lo\<close>.\<close>

definition layers_down :: "int \<Rightarrow> int \<Rightarrow> nat list" where
  "layers_down hi lo = rev [nat lo..<nat (hi + 1)]"

definition promote :: "id_t \<Rightarrow> int \<Rightarrow> hnsw_index \<Rightarrow> hnsw_index" where
  "promote i node_level ix =
     (if node_level > max_layer ix
      then ix\<lparr>entry_point := i, max_layer := node_level,
        neighbours := neighbours ix @ replicate (nat (node_level + 1) - length (neighbours ix)) (\<lambda>_. [])\<rparr>
      else ix)"

definition hnsw_insert :: "vec_table \<Rightarrow> (id_t \<Rightarrow> nat) \<Rightarrow> id_t \<Rightarrow> hnsw_index \<Rightarrow> hnsw_index outcome" where
  "hnsw_insert col lv i ix =
     obind (draw_level ix lv i) (\<lambda>node_level.
     obind (Returns (ix\<lparr>node_levels := (node_levels ix)(i := node_level),
              entry_point := (if entry_point ix = 0 then i else entry_point ix)\<rparr>)) (\<lambda>ix1.
     obind (get_vector_by_id col i) (\<lambda>curr_vector.
     case curr_vector of
       None \<Rightarrow> Returns ix1
     | Some v \<Rightarrow>
         obind (fold_outcome (descend_layer ix1 col v) (layers_down (max_layer ix1) (node_level + 1)) [entry_point ix1]) (\<lambda>ep.
         obind (fold_outcome (link_layer col i v) (layers_down (min node_level (max_layer ix1)) 0) (ix1, ep)) (\<lambda>(ix2, ep2).
           Returns ((promote i node_level ix2)\<lparr>inserted := set_insert i (inserted ix2)\<rparr>))))))"

subsection \<open>Building\<close>

text \<open>A node that is its own neighbour would be erased from the set that the loop walks over.\<close>

definition unlink_layer :: "id_t \<Rightarrow> nat \<Rightarrow> hnsw_index \<Rightarrow> hnsw_index outcome" where
  "unlink_layer i lc ix =
     obind (layer_at ix lc) (\<lambda>nbs.
       if i \<in> set (nbs i) then Undefined
       else Returns (ix\<lparr>neighbours := (neighbours ix)[lc :=
         (fold (\<lambda>nb f. f(nb := set_erase i (f nb))) (nbs i) nbs)(i := [])]\<rparr>))"

definition hnsw_remove_node :: "id_t \<Rightarrow> hnsw_index \<Rightarrow> hnsw_index outcome" where
  "hnsw_remove_node i ix =
     obind (fold_outcome (unlink_layer i) [0..<nat (max_layer ix + 1)] ix) (\<lambda>ix'.
       Returns (ix'\<lparr>node_levels := (node_levels ix')(i := 0), inserted := set_erase i (inserted ix')\<rparr>))"

definition fix_entry_point :: "hnsw_index \<Rightarrow> hnsw_index" where
  "fix_entry_point ix =
     (if entry_point ix \<noteq> 0 \<and> entry_point ix \<notin> set (inserted ix) then
        (if inserted ix = [] then ix\<lparr>entry_point := 0\<rparr>
         else
           (case find (\<lambda>i. node_levels ix i = max_layer ix) (inserted ix) of
              None \<Rightarrow> ix
            | Some i \<Rightarrow> ix\<lparr>entry_point := i\<rparr>))
      else ix)"

definition hnsw_build :: "vec_table \<Rightarrow> (id_t \<Rightarrow> nat) \<Rightarrow> hnsw_index \<Rightarrow> hnsw_index outcome" where
  "hnsw_build col lv ix =
     obind (fold_outcome hnsw_remove_node (to_be_removed ix) ix) (\<lambda>ix1.
     obind (fold_outcome (hnsw_insert col lv) (to_be_inserted ix)
              (fix_entry_point (ix1\<lparr>to_be_removed := []\<rparr>))) (\<lambda>ix2.
       Returns (ix2\<lparr>to_be_removed := [], to_be_inserted := []\<rparr>)))"

definition hnsw_init :: "vec_table option \<Rightarrow> (id_t \<Rightarrow> nat) \<Rightarrow> hnsw_index \<Rightarrow> hnsw_index outcome" where
  "hnsw_init collection lv ix =
     (case collection of
        None \<Rightarrow> Throws (Runtime_error ''Collection pointer expired during build'')
      | Some col \<Rightarrow>
          obind (get_all_vector_ids col) (\<lambda>ids.
          if ids = [] then Returns (hnsw_clear ix)
          else hnsw_build col lv ((hnsw_clear ix)\<lparr>to_be_inserted := fold set_insert ids []\<rparr>)))"

subsection \<open>Searching\<close>

fun take_results :: "vec_table \<Rightarrow> nat \<Rightarrow> cand_set \<Rightarrow> score list outcome" where
  "take_results col 0 cs = Returns []"
| "take_results col (Suc k) [] = Returns []"
| "take_results col (Suc k) (c # cs) =
     obind (exact_result col c) (\<lambda>r. obind (take_results col k cs) (\<lambda>rs. Returns (r # rs)))"

text \<open>The search first builds what was announced since the last one, so it returns the index too.\<close>

definition hnsw_search_built ::
  "vec_table \<Rightarrow> float_vector \<Rightarrow> u32 \<Rightarrow> hnsw_index \<Rightarrow> score list outcome" where
  "hnsw_search_built col q k ix =
     (if inserted ix = [] \<or> k = 0 then Returns []
      else
        obind (Returns (min k (word_of_nat (length (inserted ix))))) (\<lambda>k'.
        obind (fold_outcome (descend_layer ix col q) (layers_down (max_layer ix) 1) [entry_point ix]) (\<lambda>ep.
        obind (search_layer ix col q ep (max k' (h_ef_search (hx_params ix))) 0) (\<lambda>candidates.
          take_results col (unat k') candidates))))"

definition hnsw_search ::
  "vec_table option \<Rightarrow> (id_t \<Rightarrow> nat) \<Rightarrow> float_vector \<Rightarrow> u32 \<Rightarrow> hnsw_index \<Rightarrow> (hnsw_index \<times> bool \<times> score list) outcome" where
  "hnsw_search collection lv q k ix =
     (case collection of
        None \<Rightarrow> Throws (Runtime_error ''Collection pointer expired during search'')
      | Some col \<Rightarrow>
          obind (if to_be_inserted ix \<noteq> [] \<or> to_be_removed ix \<noteq> [] then hnsw_build col lv ix else Returns ix) (\<lambda>ix'.
          obind (hnsw_search_built col q k ix') (\<lambda>rs. Returns (ix', True, rs))))"

subsection \<open>Announcements\<close>

definition hnsw_on_vectors_added :: "id_t list \<Rightarrow> hnsw_index \<Rightarrow> hnsw_index" where
  "hnsw_on_vectors_added new_ids ix =
     fold (\<lambda>i ix. ix\<lparr>to_be_removed := (if i \<in> set (inserted ix) then set_insert i (to_be_removed ix) else to_be_removed ix),
       to_be_inserted := set_insert i (to_be_inserted ix)\<rparr>) new_ids ix"

definition hnsw_on_vectors_removed :: "id_t list \<Rightarrow> hnsw_index \<Rightarrow> hnsw_index" where
  "hnsw_on_vectors_removed removed_ids ix =
     fold (\<lambda>i ix.
       if i \<in> set (to_be_inserted ix) then ix\<lparr>to_be_inserted := set_erase i (to_be_inserted ix)\<rparr>
       else ix\<lparr>to_be_removed := set_insert i (to_be_removed ix)\<rparr>) removed_ids ix"

subsection \<open>Ordered candidate sets\<close>

text \<open>A \<^verbatim>\<open>std::set\<close> of candidates: no NaN, strictly ordered by distance and id.\<close>

definition cand_ok :: "cand_set \<Rightarrow> bool" where
  "cand_ok s \<longleftrightarrow> list_all pair_ok s \<and> sorted (map pair_key s) \<and> distinct (map pair_key s)"

lemma cand_ok_Nil [simp]: "cand_ok []"
  by (simp add: cand_ok_def)

lemma cand_ok_butlast: "cand_ok s \<Longrightarrow> cand_ok (butlast s)"
  by (auto simp: cand_ok_def list_all_iff map_butlast sorted_butlast distinct_butlast dest: in_set_butlastD)

lemma cand_ok_tl: "cand_ok (c # s) \<Longrightarrow> cand_ok s"
  by (simp add: cand_ok_def)

lemma oset_insert_cand:
  assumes "cand_ok s" "pair_ok c"
  shows "oset_insert pair_less c s = Returns (if pair_key c \<in> pair_key ` set s then s else insort_key pair_key c s)"
    and "cand_ok (if pair_key c \<in> pair_key ` set s then s else insort_key pair_key c s)"
  using assms pairs.oset_insert_key [of c s]
  by (auto simp: cand_ok_def list_all_iff set_insort_key sorted_insort_key map_insort_key distinct_insort sorted_insort)

text \<open>Inserting beyond the end appends.\<close>

lemma oset_insert_last:
  assumes "cand_ok (s @ [c])"
  shows "oset_insert pair_less c s = Returns (s @ [c])"
proof -
  have ok: "cand_ok s" "pair_ok c" "pair_key c \<notin> pair_key ` set s" "\<forall>x \<in> set s. pair_key x \<le> pair_key c"
    using assms by (auto simp: cand_ok_def sorted_append)
  from ok(3,4) have "\<forall>x \<in> set s. pair_key x < pair_key c" by (metis image_eqI less_le)
  then have "insort_key pair_key c s = s @ [c]" by (induction s) auto
  then show ?thesis using oset_insert_cand(1) [OF ok(1,2)] ok(3) by simp
qed

subsection \<open>Neighbour selection\<close>

text \<open>
  The candidates come in order, so after the first one none is nearer than the result; all others are
  discarded and filled in again: the heuristic takes the nearest ones.
\<close>

lemma select_loop_rest:
  assumes "cand_ok (r # disc @ es)" "1 < n"
  shows "select_loop n es [r] disc = Returns ([r], disc @ es)"
  using assms
proof (induction es arbitrary: disc)
  case (Cons e es)
  have "pair_key r \<le> pair_key e" "pair_ok r" "pair_ok e" "cand_ok (disc @ [e])"
    using Cons.prems(1) by (auto simp: cand_ok_def sorted_append)
  then have "\<not> dless (fst e) (fst r)" "oset_insert pair_less e disc = Returns (disc @ [e])"
    by (auto simp: pair_key_def dless_def less_eq_prod_def oset_insert_last)
  then show ?case using Cons by simp
qed simp

lemma backfill_take:
  assumes "cand_ok (res @ es)" "res \<noteq> []"
  shows "backfill n es res = Returns (res @ take (n - length res) es)"
  using assms
proof (induction es arbitrary: res)
  case (Cons e es)
  have "cand_ok (res @ [e])" using Cons.prems by (auto simp: cand_ok_def sorted_append)
  with Cons show ?case
    by (cases "n \<le> length res") (simp_all add: oset_insert_last Suc_diff_Suc [symmetric])
qed simp

lemma select_take:
  assumes "cand_ok cs"
  shows "select_neighbors_heuristic cs n = Returns (take (unat n) cs)"
proof (cases cs)
  case Nil
  then show ?thesis by (simp add: select_neighbors_heuristic_def)
next
  case (Cons c es)
  have c: "oset_insert pair_less c [] = Returns [c]"
    using assms Cons by (intro oset_insert_last [of "[]", simplified]) (simp add: cand_ok_def)
  consider "unat n = 0" | "unat n = 1" | "1 < unat n" by linarith
  then show ?thesis
  proof cases
    case 2
    then show ?thesis using Cons c by (cases es) (simp_all add: select_neighbors_heuristic_def)
  next
    case 3
    then show ?thesis
      using Cons c select_loop_rest [of c "[]" es "unat n"] backfill_take [of "[c]" es "unat n"] assms
      by (cases "unat n") (simp_all add: select_neighbors_heuristic_def)
  qed (simp add: Cons select_neighbors_heuristic_def)
qed

text \<open>
  On candidates in order the neighbour heuristic selects exactly the nearest ones: of two
  candidates the first is never farther, so the test against the best result rejects all but one, and
  the backfill takes the others back in order.
\<close>

lemma heuristic_takes_nearest:
  assumes "cand_ok cs"
  shows "select_neighbors_heuristic cs n = Returns (take (unat n) cs)"
  by (rule select_take [OF assms])

lemma heuristic_takes_nearest_instance:
  "select_neighbors_heuristic [(dzero, 4), (dzero, 9)] 1 = Returns (take (unat (1 :: u32)) [(dzero, 4), (dzero, 9)])"
  by (rule heuristic_takes_nearest) (simp add: cand_ok_def pair_ok_def pair_key_def dzero_def)

subsection \<open>What a layer search returns\<close>

text \<open>Candidates of ids in \<open>S\<close> with their distances \<open>D\<close>.\<close>

definition cands_in :: "(id_t \<Rightarrow> double) \<Rightarrow> id_t set \<Rightarrow> cand_set \<Rightarrow> bool" where
  "cands_in D S s \<longleftrightarrow> cand_ok s \<and> (\<forall>c \<in> set s. fst c = D (snd c) \<and> snd c \<in> S)"

lemma cands_in_Nil [simp]: "cands_in D S []"
  by (simp add: cands_in_def)

lemma cands_in_distinct: "cands_in D S s \<Longrightarrow> distinct (map snd s)"
proof -
  assume s: "cands_in D S s"
  then have eq: "map pair_key s = map (\<lambda>i. pair_key (D i, i)) (map snd s)"
    by (auto simp: cands_in_def pair_key_def)
  have "distinct (map pair_key s)" using s by (simp add: cands_in_def cand_ok_def)
  then have "distinct (map (\<lambda>i. pair_key (D i, i)) (map snd s))" by (simp only: eq)
  then show ?thesis by (rule distinct_map [THEN iffD1, THEN conjunct1])
qed

lemma cands_in_mono: "cands_in D S s \<Longrightarrow> S \<subseteq> T \<Longrightarrow> cands_in D T s"
  by (auto simp: cands_in_def)

lemma cands_in_length: "cands_in D S s \<Longrightarrow> finite S \<Longrightarrow> length s \<le> card S"
proof -
  assume s: "cands_in D S s" "finite S"
  have "length s = card (set (map snd s))"
    using distinct_card [OF cands_in_distinct [OF s(1)]] by simp
  also have "\<dots> \<le> card S" using s by (intro card_mono) (auto simp: cands_in_def)
  finally show ?thesis .
qed

lemma oset_insert_cands:
  assumes "cands_in D S s" "D i \<noteq> NaN" "i \<in> S"
  shows "\<exists>s'. oset_insert pair_less (D i, i) s = Returns s' \<and> cands_in D S s' \<and> s' \<noteq> [] \<and>
    set s' = insert (D i, i) (set s) \<and> (i \<notin> snd ` set s \<longrightarrow> length s' = Suc (length s)) \<and> length s' \<le> Suc (length s)"
proof -
  let ?c = "(D i, i)"
  define r where "r = (if pair_key ?c \<in> pair_key ` set s then s else insort_key pair_key ?c s)"
  have ok: "cand_ok s" "pair_ok ?c" using assms by (simp_all add: cands_in_def pair_ok_def)
  have in_iff: "pair_key ?c \<in> pair_key ` set s \<longleftrightarrow> ?c \<in> set s"
    using assms(1) by (force simp: cands_in_def pair_key_def)
  have set_r: "set r = insert ?c (set s)" using in_iff by (auto simp: r_def set_insort_key)
  have "length r = Suc (length s)" if "i \<notin> snd ` set s"
  proof -
    have "?c \<notin> set s" using that by (metis imageI snd_conv)
    then show ?thesis by (simp add: r_def in_iff)
  qed
  moreover have "cands_in D S r"
    using assms(1,3) oset_insert_cand(2) [OF ok] set_r by (simp add: cands_in_def r_def)
  moreover have "r \<noteq> []" "length r \<le> Suc (length s)" using set_r by (auto simp: r_def)
  moreover have "oset_insert pair_less ?c s = Returns r" using oset_insert_cand(1) [OF ok] by (simp add: r_def)
  ultimately show ?thesis using set_r by blast
qed

definition search_ok :: "(id_t \<Rightarrow> double) \<Rightarrow> id_t set \<Rightarrow> nat \<Rightarrow> search_state \<Rightarrow> bool" where
  "search_ok D S b s =
     (case s of (res, cand, vis) \<Rightarrow> res \<noteq> [] \<and> length res \<le> b \<and>
        cands_in D (S \<inter> set vis) res \<and> cands_in D (S \<inter> set vis) cand)"

text \<open>A total distance without a NaN.\<close>

definition dist_total :: "(id_t \<Rightarrow> double outcome) \<Rightarrow> (id_t \<Rightarrow> double) \<Rightarrow> bool" where
  "dist_total dst D \<longleftrightarrow> (\<forall>i. dst i = Returns (D i) \<and> D i \<noteq> NaN)"

lemma relax_ok:
  assumes "dist_total dst D" "search_ok D S b s" "nb \<in> S" "ef \<le> b"
  shows "\<exists>s'. relax dst ef nb s = Returns s' \<and> search_ok D S b s'"
proof -
  obtain res cand vis where s: "s = (res, cand, vis)" by (cases s)
  have d: "dst nb = Returns (D nb)" "D nb \<noteq> NaN" using assms(1) by (auto simp: dist_total_def)
  have inv: "res \<noteq> []" "length res \<le> b" "cands_in D (S \<inter> set vis) res" "cands_in D (S \<inter> set vis) cand"
    using assms(2) by (auto simp: search_ok_def s)
  let ?S = "S \<inter> set (set_insert nb vis)"
  have mono: "cands_in D ?S res" "cands_in D ?S cand"
    using inv(3,4) by (auto intro: cands_in_mono)
  show ?thesis
  proof (cases "nb \<in> set vis \<or> \<not> (dless (D nb) (fst (last res)) \<or> length res < ef)")
    case True
    then show ?thesis using assms(2) mono inv d by (auto simp: relax_def search_ok_def s)
  next
    case False
    have "nb \<in> ?S" using assms(3) by simp
    from oset_insert_cands [OF mono(1) d(2) this] oset_insert_cands [OF mono(2) d(2) this]
    obtain res' cand' where r: "oset_insert pair_less (D nb, nb) res = Returns res'" "cands_in D ?S res'" "res' \<noteq> []"
      "nb \<notin> snd ` set res \<longrightarrow> length res' = Suc (length res)"
      and c: "oset_insert pair_less (D nb, nb) cand = Returns cand'" "cands_in D ?S cand'" by blast
    have len: "length res' = Suc (length res)" using r(4) inv(3) False by (auto simp: cands_in_def)
    have "cands_in D ?S (butlast res')"
      using r(2) cand_ok_butlast by (auto simp: cands_in_def dest: in_set_butlastD)
    moreover have "butlast res' \<noteq> []" using len inv(1) by (cases res' rule: rev_cases) auto
    ultimately show ?thesis using False r c d(1) inv len assms(4)
      by (auto simp: relax_def search_ok_def s)
  qed
qed

definition closed_under :: "(id_t \<Rightarrow> id_t list) \<Rightarrow> id_t set \<Rightarrow> bool" where
  "closed_under nbs S \<longleftrightarrow> (\<forall>i \<in> S. set (nbs i) \<subseteq> S)"

lemma search_loop_ok:
  assumes "dist_total dst D" "closed_under nbs S" "search_ok D S b s" "ef \<le> b"
  shows "\<exists>res. search_loop nbs dst ef s = Returns res \<and> res \<noteq> [] \<and> length res \<le> b \<and> cands_in D S res"
  using assms
proof (induction nbs dst ef s rule: search_loop.induct)
  case (1 nbs dst ef res vis)
  then show ?case by (auto simp: search_ok_def intro: cands_in_mono)
next
  case (2 nbs dst ef res c cand vis)
  have inv: "search_ok D S b (res, cand, vis)" "res \<noteq> []" "snd c \<in> S"
    using 2(4) by (auto simp: search_ok_def cands_in_def dest: cand_ok_tl)
  have nb: "set (nbs (snd c)) \<subseteq> S" using 2(3) inv(3) by (simp add: closed_under_def)
  show ?case
  proof (cases "dless (fst (last res)) (fst c)")
    case True
    then show ?thesis using inv(1,2) by (auto simp: search_ok_def intro: cands_in_mono)
  next
    case False
    obtain s' where s': "fold_outcome (relax dst ef) (nbs (snd c)) (res, cand, vis) = Returns s'" "search_ok D S b s'"
      using fold_outcome_inv [of "search_ok D S b" "(res, cand, vis)" "nbs (snd c)" "relax dst ef"]
        inv(1) relax_ok [OF 2(2) _ _ 2(5)] nb by blast
    from 2(1) [OF inv(2) False s'(1) 2(2,3) s'(2) 2(5)] show ?thesis using False inv(2) s'(1) by simp
  qed
qed

lemma seed_ok:
  assumes "dist_total dst D" "set eps \<subseteq> S"
    and "cands_in D (S \<inter> set vis0) res0" "cands_in D (S \<inter> set vis0) cand0"
  shows "\<exists>res cand vis. fold_outcome (seed dst) eps (res0, cand0, vis0) = Returns (res, cand, vis) \<and>
    cands_in D (S \<inter> set vis) res \<and> cands_in D (S \<inter> set vis) cand \<and> set vis = set vis0 \<union> set eps \<and>
    set res = set res0 \<union> (\<lambda>i. (D i, i)) ` set eps \<and> set cand = set cand0 \<union> (\<lambda>i. (D i, i)) ` set eps"
  using assms(2-)
proof (induction eps arbitrary: res0 cand0 vis0)
  case (Cons e eps)
  let ?S = "S \<inter> set (set_insert e vis0)"
  have e: "D e \<noteq> NaN" "dst e = Returns (D e)" "e \<in> ?S" using assms(1) Cons.prems by (auto simp: dist_total_def)
  have "cands_in D ?S res0" "cands_in D ?S cand0" using Cons.prems by (auto intro: cands_in_mono)
  from oset_insert_cands [OF this(1) e(1,3)] oset_insert_cands [OF this(2) e(1,3)]
  obtain r c where r: "oset_insert pair_less (D e, e) res0 = Returns r" "cands_in D ?S r"
      "set r = insert (D e, e) (set res0)"
    and c: "oset_insert pair_less (D e, e) cand0 = Returns c" "cands_in D ?S c" "set c = insert (D e, e) (set cand0)"
    by blast
  have sd: "seed dst e (res0, cand0, vis0) = Returns (r, c, set_insert e vis0)"
    using e r(1) c(1) by (simp add: seed_def)
  from Cons.prems(1) have "set eps \<subseteq> S" by simp
  from Cons.IH [OF this r(2) c(2)] obtain res cand vis where
    "fold_outcome (seed dst) eps (r, c, set_insert e vis0) = Returns (res, cand, vis)"
    "cands_in D (S \<inter> set vis) res" "cands_in D (S \<inter> set vis) cand" "set vis = set (set_insert e vis0) \<union> set eps"
    "set res = set r \<union> (\<lambda>i. (D i, i)) ` set eps" "set cand = set c \<union> (\<lambda>i. (D i, i)) ` set eps" by blast
  then show ?case using sd r(3) c(3) by auto
qed simp

text \<open>The ids a search can reach: any set with the entry points in it that is closed under links.\<close>

lemma search_layer_ok:
  assumes "dist_total (query_dist (h_dist (hx_params ix)) col q) D" "lc < length (neighbours ix)"
    and "set eps \<subseteq> S" "closed_under (neighbours ix ! lc) S" "eps \<noteq> []"
  shows "\<exists>res. search_layer ix col q eps ef lc = Returns res \<and> res \<noteq> [] \<and>
    length res \<le> max (unat ef) (length eps) \<and> cands_in D S res"
proof -
  let ?d = "query_dist (h_dist (hx_params ix)) col q" and ?b = "max (unat ef) (length eps)"
  from seed_ok [OF assms(1,3), of "[]" "[]" "[]"] obtain res cand vis where
    s: "fold_outcome (seed ?d) eps ([], [], []) = Returns (res, cand, vis)" "cands_in D (S \<inter> set vis) res"
    "cands_in D (S \<inter> set vis) cand" "set vis = set eps" "set res = (\<lambda>i. (D i, i)) ` set eps" by auto
  have "length res \<le> card (S \<inter> set vis)" using s(2) by (rule cands_in_length) simp
  also have "\<dots> \<le> card (set eps)" using s(4) by (intro card_mono) auto
  also have "\<dots> \<le> length eps" by (rule card_length)
  finally have "search_ok D S ?b (res, cand, vis)"
    using s assms(5) by (auto simp: search_ok_def)
  from search_loop_ok [OF assms(1,4) this] show ?thesis
    using s(1) assms(2,5) by (simp add: search_layer_def layer_at_def)
qed

end
