(* ===== verification/Hnsw_Graph.thy ===== *)
theory Hnsw_Graph
  imports Hnsw
begin

text \<open>
  The graph that insertions build: every link stays among the inserted nodes, no node has more links
  than the layer allows, and there is an entry point as soon as there is a node. On such a graph a
  search returns.
\<close>

text \<open>A layer without surplus links.\<close>

definition layer_ok :: "u32 \<Rightarrow> id_t set \<Rightarrow> (id_t \<Rightarrow> id_t list) \<Rightarrow> bool" where
  "layer_ok cap S nbs \<longleftrightarrow>
     (\<forall>i. distinct (nbs i) \<and> set (nbs i) \<subseteq> S \<and> length (nbs i) \<le> unat cap \<and> (i \<notin> S \<longrightarrow> nbs i = []))"

definition graph_ok :: "id_t set \<Rightarrow> hnsw_index \<Rightarrow> bool" where
  "graph_ok S ix \<longleftrightarrow>
     - 1 \<le> max_layer ix \<and> length (neighbours ix) = nat (max_layer ix + 1) \<and>
     (\<forall>lc < length (neighbours ix). layer_ok (layer_cap ix lc) S (neighbours ix ! lc))"

definition hnsw_ok :: "hnsw_index \<Rightarrow> bool" where
  "hnsw_ok ix \<longleftrightarrow>
     graph_ok (set (inserted ix)) ix \<and> distinct (inserted ix) \<and>
     (entry_point ix = 0 \<or> entry_point ix \<in> set (inserted ix)) \<and>
     (inserted ix \<noteq> [] \<longrightarrow> entry_point ix \<in> set (inserted ix) \<and> 0 \<le> max_layer ix)"

lemma layer_cap_simps [simp]:
  "layer_cap (neighbours_update n ix) lc = layer_cap ix lc"
  "layer_cap (node_levels_update l ix) lc = layer_cap ix lc"
  "layer_cap (entry_point_update e ix) lc = layer_cap ix lc"
  "layer_cap (max_layer_update k ix) lc = layer_cap ix lc"
  "layer_cap (inserted_update s ix) lc = layer_cap ix lc"
  "layer_cap (to_be_inserted_update s ix) lc = layer_cap ix lc"
  "layer_cap (to_be_removed_update s ix) lc = layer_cap ix lc"
  by (simp_all add: layer_cap_def)

lemma layer_ok_closed: "layer_ok cap S nbs \<Longrightarrow> closed_under nbs S"
  by (auto simp: layer_ok_def closed_under_def)

lemma layer_ok_mono: "layer_ok cap S nbs \<Longrightarrow> S \<subseteq> T \<Longrightarrow> layer_ok cap T nbs"
  by (auto simp: layer_ok_def)

lemma graph_ok_mono: "graph_ok S ix \<Longrightarrow> S \<subseteq> T \<Longrightarrow> graph_ok T ix"
  by (auto simp: graph_ok_def intro: layer_ok_mono)

lemma graph_layer: "graph_ok S ix \<Longrightarrow> lc < length (neighbours ix) \<Longrightarrow> layer_ok (layer_cap ix lc) S (neighbours ix ! lc)"
  by (simp add: graph_ok_def)

lemma hnsw_layer:
  "hnsw_ok ix \<Longrightarrow> lc < length (neighbours ix) \<Longrightarrow> layer_ok (layer_cap ix lc) (set (inserted ix)) (neighbours ix ! lc)"
  by (simp add: hnsw_ok_def graph_layer)

subsection \<open>Linking\<close>

lemma link_nbs:
  "set (link i nb nbs j) = set (nbs j) \<union> (if j = i then {nb} else {}) \<union> (if j = nb then {i} else {})"
  "distinct (nbs j) \<Longrightarrow> distinct (link i nb nbs j)"
  by (auto simp: link_def)

lemma fold_link_nbs:
  "set (fold (\<lambda>c. link i (snd c)) sel nbs j) =
     set (nbs j) \<union> (if j = i then snd ` set sel else {}) \<union> (if j \<in> snd ` set sel then {i} else {})"
  "distinct (nbs j) \<Longrightarrow> distinct (fold (\<lambda>c. link i (snd c)) sel nbs j)"
  by (induction sel arbitrary: nbs) (auto simp: link_nbs)

lemma fold_link_length:
  assumes "layer_ok cap S nbs" "nbs i = []" "cands_in D S sel" "length sel \<le> unat cap"
  shows "length (fold (\<lambda>c. link i (snd c)) sel nbs i) \<le> unat cap"
    and "j \<noteq> i \<Longrightarrow> j \<notin> snd ` set sel \<Longrightarrow> length (fold (\<lambda>c. link i (snd c)) sel nbs j) \<le> unat cap"
proof -
  let ?n = "fold (\<lambda>c. link i (snd c)) sel nbs"
  have d: "distinct (?n j)" for j using assms(1) by (auto simp: layer_ok_def intro: fold_link_nbs(2))
  have "length (?n i) = card (set (?n i))" by (rule distinct_card [symmetric, OF d])
  also have "set (?n i) = snd ` set sel" using assms(2) by (auto simp: fold_link_nbs(1))
  also have "card (snd ` set sel) \<le> length sel"
    by (metis card_length image_set length_map)
  finally show "length (?n i) \<le> unat cap" using assms(4) by simp
  show "length (?n j) \<le> unat cap" if "j \<noteq> i" "j \<notin> snd ` set sel"
  proof -
    have "set (?n j) = set (nbs j)" using that by (simp add: fold_link_nbs(1))
    then have "length (?n j) = length (nbs j)"
      using d assms(1) by (metis distinct_card layer_ok_def)
    then show ?thesis using assms(1) by (simp add: layer_ok_def)
  qed
qed

subsection \<open>Shrinking\<close>

lemma create_cand_set_ok:
  assumes "d \<noteq> NaN" "distinct ids"
  shows "\<exists>cs. create_cand_set (Returns d) ids = Returns cs \<and> cand_ok cs \<and> snd ` set cs = set ids \<and>
    length cs = length ids \<and> cands_in (\<lambda>_. d) UNIV cs"
proof -
  have "\<exists>cs. fold_outcome (\<lambda>nb s. obind (Returns d) (\<lambda>x. oset_insert pair_less (x, nb) s)) is cs0 = Returns cs \<and>
      cands_in (\<lambda>_. d) UNIV cs \<and> snd ` set cs = snd ` set cs0 \<union> set is \<and> length cs = length cs0 + length is"
    if "cands_in (\<lambda>_. d) UNIV cs0" "distinct is" "snd ` set cs0 \<inter> set is = {}" for "is" cs0
    using that
  proof (induction "is" arbitrary: cs0)
    case (Cons i "is")
    from oset_insert_cands [of "\<lambda>_. d" UNIV cs0 i] Cons.prems assms(1) obtain c where
      "oset_insert pair_less (d, i) cs0 = Returns c" "cands_in (\<lambda>_. d) UNIV c"
      "set c = insert (d, i) (set cs0)" "length c = Suc (length cs0)" by auto
    with Cons.IH [of c] Cons.prems show ?case by auto
  qed simp
  from this [of "[]" ids] assms(2) show ?thesis by (auto simp: create_cand_set_def cands_in_def)
qed

lemma create_neighbour_set:
  "distinct (create_neighbour_set cs)" "set (create_neighbour_set cs) = snd ` set cs"
proof -
  have *: "distinct (fold (\<lambda>c ids. set_insert (snd c) ids) cs ids) = distinct ids"
    "set (fold (\<lambda>c ids. set_insert (snd c) ids) cs ids) = snd ` set cs \<union> set ids" for cs ids
    by (induction cs arbitrary: ids) auto
  show "distinct (create_neighbour_set cs)" "set (create_neighbour_set cs) = snd ` set cs"
    unfolding create_neighbour_set_def by (simp_all only: *) simp_all
qed

lemma create_neighbour_set_length: "length (create_neighbour_set cs) \<le> length cs"
  by (metis card_length create_neighbour_set distinct_card image_set length_map)

text \<open>One round of the loop cuts one node down to the cap and leaves the others alone.\<close>

lemma shrink_one_ok:
  assumes "\<exists>d. dst nb = Returns d \<and> d \<noteq> NaN" "distinct (nbs nb)" "nb = i \<longrightarrow> length (nbs i) \<le> unat cap"
  shows "\<exists>nbs'. shrink_one dst cap i nb nbs = Returns nbs' \<and> (\<forall>j. j \<noteq> nb \<longrightarrow> nbs' j = nbs j) \<and>
    distinct (nbs' nb) \<and> set (nbs' nb) \<subseteq> set (nbs nb) \<and> length (nbs' nb) \<le> unat cap"
proof (cases "length (nbs nb) > unat cap")
  case True
  then have "nb \<noteq> i" using assms(3) by auto
  obtain d where d: "dst nb = Returns d" "d \<noteq> NaN" using assms(1) by blast
  obtain cs where cs: "create_cand_set (Returns d) (nbs nb) = Returns cs" "cand_ok cs" "snd ` set cs = set (nbs nb)"
    using create_cand_set_ok [OF d(2) assms(2)] by blast
  let ?s = "create_neighbour_set (take (unat cap) cs)"
  have "set ?s \<subseteq> set (nbs nb)" using cs(3) by (auto simp: create_neighbour_set dest: in_set_takeD)
  moreover have "length ?s \<le> unat cap"
    using create_neighbour_set_length [of "take (unat cap) cs"] by simp
  ultimately show ?thesis
    using True \<open>nb \<noteq> i\<close> cs d(1) by (simp add: shrink_one_def select_take create_neighbour_set(1))
qed (use assms in \<open>simp add: shrink_one_def\<close>)

lemma shrink_all_ok:
  assumes "\<And>nb. nb \<in> set sel \<Longrightarrow> \<exists>d. dst nb = Returns d \<and> d \<noteq> NaN" "length (nbs i) \<le> unat cap"
    and "\<And>j. distinct (nbs j)"
  shows "\<exists>nbs'. fold_outcome (shrink_one dst cap i) sel nbs = Returns nbs' \<and>
    (\<forall>j. distinct (nbs' j) \<and> set (nbs' j) \<subseteq> set (nbs j) \<and> length (nbs' j) \<le> length (nbs j) \<and>
       (j \<in> set sel \<longrightarrow> length (nbs' j) \<le> unat cap))"
  using assms
proof (induction sel arbitrary: nbs)
  case (Cons nb sel)
  from shrink_one_ok [of dst nb nbs i cap] Cons.prems obtain n1 where n1: "shrink_one dst cap i nb nbs = Returns n1"
    "\<forall>j. j \<noteq> nb \<longrightarrow> n1 j = nbs j" "distinct (n1 nb)" "set (n1 nb) \<subseteq> set (nbs nb)" "length (n1 nb) \<le> unat cap"
    by auto
  have sub: "set (n1 j) \<subseteq> set (nbs j)" "distinct (n1 j)" for j using n1 Cons.prems(3) by (cases "j = nb"; auto)+
  have len: "length (n1 j) \<le> length (nbs j)" for j
    using card_mono [OF _ sub(1) [of j]] distinct_card [OF sub(2) [of j]] distinct_card [OF Cons.prems(3) [of j]] by simp
  obtain n2 where n2: "fold_outcome (shrink_one dst cap i) sel n1 = Returns n2"
    "\<forall>j. distinct (n2 j) \<and> set (n2 j) \<subseteq> set (n1 j) \<and> length (n2 j) \<le> length (n1 j) \<and>
       (j \<in> set sel \<longrightarrow> length (n2 j) \<le> unat cap)"
    using Cons.IH [of n1, OF _ order_trans [OF len [of i] Cons.prems(2)] sub(2)] Cons.prems(1) by auto
  have "distinct (n2 j) \<and> set (n2 j) \<subseteq> set (nbs j) \<and> length (n2 j) \<le> length (nbs j) \<and>
      (j \<in> set (nb # sel) \<longrightarrow> length (n2 j) \<le> unat cap)" for j
    using n2(2) [rule_format, of j] sub(1) [of j] len [of j] n1(5) by auto
  then show ?case using n1(1) n2(1) by auto
qed simp

subsection \<open>One layer of an insertion\<close>

text \<open>All distances that the insertion of \<open>i\<close>, whose vector is \<open>v\<close>, computes return and are no NaN.\<close>

definition insertable :: "dist_type \<Rightarrow> vec_table \<Rightarrow> id_t \<Rightarrow> float_vector \<Rightarrow> bool" where
  "insertable m col i v \<longleftrightarrow>
     (\<exists>D. dist_total (query_dist m col v) D) \<and> (\<forall>nb. \<exists>d. id_dist m col i nb = Returns d \<and> d \<noteq> NaN)"

lemma cands_ids: "cands_in D S cs \<Longrightarrow> snd ` set cs \<subseteq> S"
  by (auto simp: cands_in_def)

lemma cands_take: "cands_in D S cs \<Longrightarrow> cands_in D S (take n cs)"
  by (auto simp: cands_in_def cand_ok_def list_all_iff sorted_wrt_take distinct_take simp flip: take_map
      dest: in_set_takeD)

text \<open>Shrinking the new neighbours of \<open>i\<close> restores the bounds of a layer that \<open>i\<close> was linked into.\<close>

lemma shrink_layer_ok:
  assumes "\<And>j. distinct (n j)" "\<And>j. set (n j) \<subseteq> S" "\<And>j. j \<notin> S \<Longrightarrow> n j = []" "length (n i) \<le> unat cap"
    and "\<And>j. j \<noteq> i \<Longrightarrow> j \<notin> set (n i) \<Longrightarrow> length (n j) \<le> unat cap"
    and "\<And>nb. \<exists>d. dst nb = Returns d \<and> d \<noteq> NaN"
  shows "\<exists>n'. fold_outcome (shrink_one dst cap i) (n i) n = Returns n' \<and> layer_ok cap S n'"
proof -
  obtain n' where n': "fold_outcome (shrink_one dst cap i) (n i) n = Returns n'"
    "\<forall>j. distinct (n' j) \<and> set (n' j) \<subseteq> set (n j) \<and> length (n' j) \<le> length (n j) \<and>
       (j \<in> set (n i) \<longrightarrow> length (n' j) \<le> unat cap)"
    using shrink_all_ok [of "n i" dst n i cap] assms(1,4,6) by blast
  have "layer_ok cap S n'" unfolding layer_ok_def
  proof (intro allI conjI impI)
    fix j
    note j = n'(2) [rule_format, of j]
    show "distinct (n' j)" "set (n' j) \<subseteq> S" using j assms(2) by auto
    show "n' j = []" if "j \<notin> S" using j assms(3) [OF that] by simp
    show "length (n' j) \<le> unat cap"
      using j assms(4) assms(5) [of j] by (cases "j \<in> set (n i)"; cases "j = i") auto
  qed
  then show ?thesis using n'(1) by blast
qed

lemma link_layer_ok:
  assumes "insertable (h_dist (hx_params ix)) col i v" "lc < length (neighbours ix)"
    and "layer_ok (layer_cap ix lc) S (neighbours ix ! lc)" "(neighbours ix ! lc) i = []" "i \<in> S"
    and "ep \<noteq> []" "set ep \<subseteq> S"
  shows "\<exists>nbs' ep'. link_layer col i v lc (ix, ep) = Returns (ix\<lparr>neighbours := (neighbours ix)[lc := nbs']\<rparr>, ep') \<and>
    layer_ok (layer_cap ix lc) S nbs' \<and> ep' \<noteq> [] \<and> set ep' \<subseteq> S"
proof -
  let ?cap = "layer_cap ix lc" and ?nbs = "neighbours ix ! lc" and ?m = "h_dist (hx_params ix)"
  obtain D where D: "dist_total (query_dist ?m col v) D" using assms(1) by (auto simp: insertable_def)
  obtain cs where cs: "search_layer ix col v ep (h_ef_construction (hx_params ix)) lc = Returns cs" "cs \<noteq> []" "cands_in D S cs"
    using search_layer_ok [OF D assms(2,7) layer_ok_closed [OF assms(3)] assms(6)] by blast
  let ?sel = "take (unat ?cap) cs" and ?n = "fold (\<lambda>c. link i (snd c)) (take (unat ?cap) cs) ?nbs"
  have sel: "select_neighbors_heuristic cs ?cap = Returns ?sel" "cands_in D S ?sel"
    using cs(3) by (simp_all add: select_take cands_in_def [of D S cs] cands_take)
  have len: "length (?n i) \<le> unat ?cap" "\<And>j. j \<noteq> i \<Longrightarrow> j \<notin> snd ` set ?sel \<Longrightarrow> length (?n j) \<le> unat ?cap"
    using fold_link_length [OF assms(3,4) sel(2)] by auto
  have dist_n: "distinct (?n j)" for j using assms(3) by (auto simp: layer_ok_def intro: fold_link_nbs(2))
  have n_i: "set (?n i) = snd ` set ?sel" using assms(4) by (auto simp: fold_link_nbs(1))
  have n_S: "set (?n j) \<subseteq> S" "j \<notin> S \<Longrightarrow> ?n j = []" for j
  proof -
    have "set (?n j) = set (?nbs j) \<union> (if j = i then snd ` set ?sel else {}) \<union> (if j \<in> snd ` set ?sel then {i} else {})"
      by (rule fold_link_nbs(1))
    then show "set (?n j) \<subseteq> S" "j \<notin> S \<Longrightarrow> ?n j = []"
      using assms(3,5) cands_ids [OF sel(2)] by (auto simp: layer_ok_def split: if_splits)
  qed
  have "\<exists>d. id_dist ?m col i nb = Returns d \<and> d \<noteq> NaN" for nb using assms(1) by (auto simp: insertable_def)
  then obtain nbs' where nbs': "fold_outcome (shrink_one (id_dist ?m col i) ?cap i) (?n i) ?n = Returns nbs'"
    "layer_ok ?cap S nbs'"
    using shrink_layer_ok [of ?n S i ?cap "id_dist ?m col i"] dist_n n_S len n_i by auto
  have "create_neighbour_set cs \<noteq> []" "set (create_neighbour_set cs) \<subseteq> S"
    using create_neighbour_set(2) [of cs] cs(2) cands_ids [OF cs(3)] by (auto simp flip: set_empty)
  then show ?thesis using cs(1) sel(1) nbs' assms(2)
    by (auto simp: link_layer_def layer_at_def)
qed

subsection \<open>A whole insertion\<close>

lemma link_layers_ok:
  assumes "insertable (h_dist (hx_params ix)) col i v" "graph_ok S ix" "i \<in> S" "ep \<noteq> []" "set ep \<subseteq> S"
    and "distinct lcs" "\<And>lc. lc \<in> set lcs \<Longrightarrow> lc < length (neighbours ix) \<and> (neighbours ix ! lc) i = []"
  shows "\<exists>n' ep'. fold_outcome (link_layer col i v) lcs (ix, ep) = Returns (ix\<lparr>neighbours := n'\<rparr>, ep') \<and>
    graph_ok S (ix\<lparr>neighbours := n'\<rparr>) \<and> length n' = length (neighbours ix)"
  using assms
proof (induction lcs arbitrary: ix ep)
  case Nil
  have "ix\<lparr>neighbours := neighbours ix\<rparr> = ix" by simp
  then show ?case using Nil by (metis fold_outcome.simps(1))
next
  case (Cons lc lcs)
  have lc: "lc < length (neighbours ix)" "(neighbours ix ! lc) i = []" using Cons.prems(7) by auto
  have "layer_ok (layer_cap ix lc) S (neighbours ix ! lc)"
    using Cons.prems(2) lc(1) by (simp add: graph_ok_def)
  from link_layer_ok [OF Cons.prems(1) lc(1) this lc(2) Cons.prems(3-5)] obtain nbs' ep' where
    l: "link_layer col i v lc (ix, ep) = Returns (ix\<lparr>neighbours := (neighbours ix)[lc := nbs']\<rparr>, ep')"
    "layer_ok (layer_cap ix lc) S nbs'" "ep' \<noteq> []" "set ep' \<subseteq> S" by blast
  let ?ix = "ix\<lparr>neighbours := (neighbours ix)[lc := nbs']\<rparr>"
  have "graph_ok S ?ix" using Cons.prems(2) l(2) lc(1)
    by (auto simp: graph_ok_def nth_list_update)
  moreover have "lc' < length (neighbours ?ix) \<and> (neighbours ?ix ! lc') i = []" if "lc' \<in> set lcs" for lc'
    using that Cons.prems(6,7) by (auto simp: nth_list_update)
  ultimately obtain n' ep'' where
    "fold_outcome (link_layer col i v) lcs (?ix, ep') = Returns (?ix\<lparr>neighbours := n'\<rparr>, ep'')"
    "graph_ok S (?ix\<lparr>neighbours := n'\<rparr>)" "length n' = length (neighbours ?ix)"
    using Cons.IH [of ?ix ep'] Cons.prems(1,3,6) l(3,4) by auto
  then show ?case using l(1) by auto
qed

lemma descend_ok:
  assumes "dist_total (query_dist (h_dist (hx_params ix)) col q) D" "graph_ok S ix"
    and "ep \<noteq> []" "set ep \<subseteq> S" "\<And>lc. lc \<in> set lcs \<Longrightarrow> lc < length (neighbours ix)"
  shows "\<exists>ep'. fold_outcome (descend_layer ix col q) lcs ep = Returns ep' \<and> ep' \<noteq> [] \<and> set ep' \<subseteq> S \<and>
    length ep' \<le> max 1 (length ep)"
  using assms(3-)
proof (induction lcs arbitrary: ep)
  case (Cons lc lcs)
  have lc: "lc < length (neighbours ix)" using Cons.prems(3) by simp
  have "closed_under (neighbours ix ! lc) S"
    using assms(2) lc by (auto simp: graph_ok_def intro: layer_ok_closed)
  from search_layer_ok [OF assms(1) lc Cons.prems(2) this Cons.prems(1), of 1] obtain cs where
    cs: "search_layer ix col q ep 1 lc = Returns cs" "cs \<noteq> []" "cands_in D S cs" by blast
  then obtain c cs' where "cs = c # cs'" "snd c \<in> S" by (cases cs) (auto simp: cands_in_def)
  then have "descend_layer ix col q lc ep = Returns [snd c]" using cs(1) by (simp add: descend_layer_def)
  then show ?case using Cons.IH [of "[snd c]"] Cons.prems(3) \<open>snd c \<in> S\<close> by auto
qed auto

lemma layers_down_range:
  "lc \<in> set (layers_down hi lo) \<longleftrightarrow> nat lo \<le> lc \<and> int lc \<le> hi" "distinct (layers_down hi lo)"
  by (auto simp: layers_down_def)

lemma promote_ok:
  assumes "graph_ok S ix" "0 \<le> l"
  shows "graph_ok S (promote i l ix)" "0 \<le> max_layer (promote i l ix)"
    "hx_params (promote i l ix) = hx_params ix" "to_be_inserted (promote i l ix) = to_be_inserted ix"
    "to_be_removed (promote i l ix) = to_be_removed ix" "inserted (promote i l ix) = inserted ix"
    "entry_point (promote i l ix) = (if l > max_layer ix then i else entry_point ix)"
proof -
  have "layer_ok c S (\<lambda>_. [])" for c by (simp add: layer_ok_def)
  then show "graph_ok S (promote i l ix)"
    using assms by (auto simp: graph_ok_def promote_def nth_append)
qed (use assms in \<open>auto simp: promote_def\<close>)

text \<open>The descent to the level of the new node and the links on the layers from there down.\<close>

lemma insert_layers_ok:
  assumes "graph_ok S ix" "entry_point ix \<in> S" "i \<in> S" "insertable (h_dist (hx_params ix)) col i v"
    and "\<And>lc. lc < length (neighbours ix) \<Longrightarrow> (neighbours ix ! lc) i = []" "0 \<le> l"
  shows "\<exists>ep n' ep'. fold_outcome (descend_layer ix col v) (layers_down (max_layer ix) (l + 1)) [entry_point ix] = Returns ep \<and>
    fold_outcome (link_layer col i v) (layers_down (min l (max_layer ix)) 0) (ix, ep) = Returns (ix\<lparr>neighbours := n'\<rparr>, ep') \<and>
    graph_ok S (ix\<lparr>neighbours := n'\<rparr>)"
proof -
  have len: "length (neighbours ix) = nat (max_layer ix + 1)" using assms(1) by (simp add: graph_ok_def)
  obtain D where D: "dist_total (query_dist (h_dist (hx_params ix)) col v) D" using assms(4) by (auto simp: insertable_def)
  have "lc < length (neighbours ix)" if "lc \<in> set (layers_down (max_layer ix) (l + 1))" for lc
    using that len assms(6) by (auto simp: layers_down_range)
  with descend_ok [OF D assms(1), of "[entry_point ix]" "layers_down (max_layer ix) (l + 1)"] assms(2)
  obtain ep where e: "fold_outcome (descend_layer ix col v) (layers_down (max_layer ix) (l + 1)) [entry_point ix] = Returns ep"
    "ep \<noteq> []" "set ep \<subseteq> S" by auto
  have "lc < length (neighbours ix) \<and> (neighbours ix ! lc) i = []" if "lc \<in> set (layers_down (min l (max_layer ix)) 0)" for lc
    using that len assms(5) by (auto simp: layers_down_range)
  from link_layers_ok [OF assms(4,1,3) e(2,3) layers_down_range(2) [of "min l (max_layer ix)" 0] this] e(1) show ?thesis
    by blast
qed

lemma hnsw_insert_ok:
  assumes "hnsw_ok ix" "i \<notin> set (inserted ix)" "h_M (hx_params ix) \<noteq> 1"
    and "get_vector_by_id col i = Returns (Some v)" "insertable (h_dist (hx_params ix)) col i v"
  shows "\<exists>ix'. hnsw_insert col lv i ix = Returns ix' \<and> hnsw_ok ix' \<and> inserted ix' = inserted ix @ [i] \<and>
    hx_params ix' = hx_params ix \<and> to_be_inserted ix' = to_be_inserted ix \<and> to_be_removed ix' = to_be_removed ix"
proof -
  let ?S = "insert i (set (inserted ix))" and ?l = "int (lv i)"
  define ix1 where "ix1 = ix\<lparr>node_levels := (node_levels ix)(i := ?l),
    entry_point := (if entry_point ix = 0 then i else entry_point ix)\<rparr>"
  have sel: "hx_params ix1 = hx_params ix" "max_layer ix1 = max_layer ix" "neighbours ix1 = neighbours ix"
    "inserted ix1 = inserted ix" "to_be_inserted ix1 = to_be_inserted ix" "to_be_removed ix1 = to_be_removed ix"
    by (simp_all add: ix1_def)
  have g: "graph_ok ?S ix1"
  proof -
    have "graph_ok ?S ix" using assms(1) by (auto simp: hnsw_ok_def intro: graph_ok_mono)
    then show ?thesis by (simp add: graph_ok_def ix1_def)
  qed
  have ep: "entry_point ix1 \<in> ?S" using assms(1) by (auto simp: hnsw_ok_def ix1_def)
  have fresh: "(neighbours ix1 ! lc) i = []" if "lc < length (neighbours ix1)" for lc
    using assms(1,2) that sel by (auto simp: hnsw_ok_def graph_ok_def layer_ok_def)
  have ins: "insertable (h_dist (hx_params ix1)) col i v" using assms(5) sel by simp
  obtain ep1 n' ep2 where
    e1: "fold_outcome (descend_layer ix1 col v) (layers_down (max_layer ix1) (?l + 1)) [entry_point ix1] = Returns ep1"
    and l2: "fold_outcome (link_layer col i v) (layers_down (min ?l (max_layer ix1)) 0) (ix1, ep1) =
      Returns (ix1\<lparr>neighbours := n'\<rparr>, ep2)" "graph_ok ?S (ix1\<lparr>neighbours := n'\<rparr>)"
    using insert_layers_ok [OF g ep _ ins fresh, of ?l] by auto
  let ?ix2 = "ix1\<lparr>neighbours := n'\<rparr>"
  let ?r = "(promote i ?l ?ix2)\<lparr>inserted := inserted ix @ [i]\<rparr>"
  have si: "set_insert i (inserted ?ix2) = inserted ix @ [i]"
    using assms(2) sel by (simp add: set_insert_def)
  have "draw_level ix lv i = Returns ?l" using assms(3) by (simp add: draw_level_def)
  then have "hnsw_insert col lv i ix = Returns ?r"
    unfolding hnsw_insert_def by (simp only: obind.simps ix1_def [symmetric])
      (simp only: assms(4) obind.simps option.case e1 l2(1) case_prod_conv si)
  moreover have "hnsw_ok ?r"
  proof -
    have "graph_ok ?S ?r" using promote_ok(1) [OF l2(2), of ?l i] by (simp add: graph_ok_def)
    moreover have "entry_point ?r \<in> ?S" using promote_ok(7) [OF l2(2), of ?l i] ep by simp
    moreover have "0 \<le> max_layer ?r" using promote_ok(2) [OF l2(2), of ?l i] by simp
    ultimately show ?thesis using assms(1,2) by (simp add: hnsw_ok_def)
  qed
  ultimately show ?thesis using promote_ok(3-5) [OF l2(2), of ?l i] sel by simp
qed

subsection \<open>Building\<close>

text \<open>All distances between stored vectors return and are no NaN.\<close>

definition all_rankable :: "dist_type \<Rightarrow> vec_table \<Rightarrow> bool" where
  "all_rankable m t \<longleftrightarrow> vec_mutex t \<noteq> Exclusive \<and> distinct (keys_of (vectors t)) \<and>
     list_all (\<lambda>p. rankable m (snd p) t) (vectors t)"

lemma rankable_compute:
  assumes "rankable m q t" "map_of (vectors t) i = Some v"
  shows "\<exists>d. compute_with m q v = Returns d \<and> d \<noteq> NaN"
proof -
  obtain f where f: "get_distance_instance m = Some f" using assms(1) by (auto simp: rankable_def)
  have "same_dim q v" using assms by (auto simp: rankable_def same_dim_def dest: table_wf_lookup)
  then obtain d where "compute_with m q v = Returns d"
    using distance_fn.dist_returns [OF distance_instance_fn [OF f]] f by (auto simp: compute_with_def)
  then show ?thesis using assms by (fastforce simp: rankable_def list_all_iff dest: map_of_SomeD)
qed

definition known_dist :: "dist_type \<Rightarrow> vec_table \<Rightarrow> float_vector \<Rightarrow> id_t \<Rightarrow> double" where
  "known_dist m t q i =
     (case map_of (vectors t) i of None \<Rightarrow> dmax | Some v \<Rightarrow> returned (compute_with m q v))"

lemma rankable_total:
  assumes "rankable m q t"
  shows "dist_total (query_dist m t q) (known_dist m t q)"
  unfolding dist_total_def
proof
  fix i
  show "query_dist m t q i = Returns (known_dist m t q i) \<and> known_dist m t q i \<noteq> NaN"
  proof (cases "map_of (vectors t) i")
    case None
    then show ?thesis using assms
      by (auto simp: query_dist_def known_dist_def rankable_def get_vector_wf dmax_def)
  next
    case (Some v)
    obtain d where "compute_with m q v = Returns d" "d \<noteq> NaN" using rankable_compute [OF assms Some] by blast
    then show ?thesis using assms Some
      by (auto simp: query_dist_def known_dist_def rankable_def get_vector_wf returned_def)
  qed
qed

lemma stored_compute [simp]: "compute_with m (stored v) w = compute_with m v w"
proof (cases "get_distance_instance m")
  case (Some f)
  have "f (stored v) w = f v w"
    by (rule distance_fn.dist_cong [OF distance_instance_fn [OF Some]]) simp_all
  then show ?thesis using Some by (simp add: compute_with_def)
qed (simp add: compute_with_def)

lemma rankable_stored [simp]: "rankable m (stored v) t = rankable m v t"
  by (simp add: rankable_def)

lemma all_rankable_lookup:
  assumes "all_rankable m t" "map_of (vectors t) i = Some v"
  shows "rankable m v t" "get_vector_by_id t i = Returns (Some (stored v))"
proof -
  show r: "rankable m v t"
    using assms by (auto simp: all_rankable_def list_all_iff dest: map_of_SomeD)
  then show "get_vector_by_id t i = Returns (Some (stored v))"
    using assms(2) by (auto simp: rankable_def get_vector_wf)
qed

lemma all_rankable_insertable:
  assumes "all_rankable m t" "map_of (vectors t) i = Some v"
  shows "insertable m t i (stored v)"
proof -
  note r = all_rankable_lookup [OF assms]
  have "\<exists>d. id_dist m t i nb = Returns d \<and> d \<noteq> NaN" for nb
  proof (cases "map_of (vectors t) nb")
    case None
    then have "get_vector_by_id t nb = Returns None" using r(1) by (auto simp: rankable_def get_vector_wf)
    then show ?thesis using r(2) by (simp add: id_dist_def dmax_def)
  next
    case (Some w)
    then show ?thesis
      using r(2) all_rankable_lookup(2) [OF assms(1) Some] rankable_compute [OF r(1) Some] by (simp add: id_dist_def)
  qed
  then show ?thesis using rankable_total [of m "stored v" t] r(1) by (auto simp: insertable_def)
qed

lemma hnsw_inserts_ok:
  assumes "hnsw_ok ix" "distinct (inserted ix @ ids)" "h_M (hx_params ix) \<noteq> 1"
    and "all_rankable (h_dist (hx_params ix)) t" "set ids \<subseteq> set (keys_of (vectors t))"
  shows "\<exists>ix'. fold_outcome (hnsw_insert t lv) ids ix = Returns ix' \<and> hnsw_ok ix' \<and>
    inserted ix' = inserted ix @ ids \<and> hx_params ix' = hx_params ix"
  using assms
proof (induction ids arbitrary: ix)
  case (Cons i ids)
  then obtain v where v: "map_of (vectors t) i = Some v" by (metis key_has_value list.set_intros(1) subsetD)
  from Cons.prems(2) have "i \<notin> set (inserted ix)" by simp
  from hnsw_insert_ok [OF Cons.prems(1) this Cons.prems(3) all_rankable_lookup(2) [OF Cons.prems(4) v]
      all_rankable_insertable [OF Cons.prems(4) v], of lv]
  obtain ix1 where "hnsw_insert t lv i ix = Returns ix1" "hnsw_ok ix1" "inserted ix1 = inserted ix @ [i]"
    "hx_params ix1 = hx_params ix" by blast
  then show ?case using Cons.IH [of ix1] Cons.prems by auto
qed auto

lemma fix_entry_point_ok: "hnsw_ok ix \<Longrightarrow> fix_entry_point ix = ix"
  by (auto simp: fix_entry_point_def hnsw_ok_def)

text \<open>A build without removals inserts what was announced.\<close>

lemma hnsw_build_ok:
  assumes "hnsw_ok ix" "to_be_removed ix = []" "distinct (inserted ix @ to_be_inserted ix)" "h_M (hx_params ix) \<noteq> 1"
    and "all_rankable (h_dist (hx_params ix)) t" "set (to_be_inserted ix) \<subseteq> set (keys_of (vectors t))"
  shows "\<exists>ix'. hnsw_build t lv ix = Returns ix' \<and> hnsw_ok ix' \<and> inserted ix' = inserted ix @ to_be_inserted ix \<and>
    hx_params ix' = hx_params ix \<and> to_be_inserted ix' = [] \<and> to_be_removed ix' = []"
proof -
  have "ix\<lparr>to_be_removed := []\<rparr> = ix" using assms(2) by simp
  then have fx: "fix_entry_point (ix\<lparr>to_be_removed := []\<rparr>) = ix" by (simp only: fix_entry_point_ok [OF assms(1)])
  obtain ix' where "fold_outcome (hnsw_insert t lv) (to_be_inserted ix) ix = Returns ix'" "hnsw_ok ix'"
    "inserted ix' = inserted ix @ to_be_inserted ix" "hx_params ix' = hx_params ix"
    using hnsw_inserts_ok [OF assms(1,3,4,5,6)] by blast
  moreover have "hnsw_ok (x\<lparr>to_be_removed := [], to_be_inserted := []\<rparr>) = hnsw_ok x" for x :: hnsw_index
    by (simp add: hnsw_ok_def graph_ok_def)
  ultimately show ?thesis by (simp add: hnsw_build_def assms(2) fx)
qed

lemma hnsw_clear_ok: "hnsw_ok ((hnsw_clear ix)\<lparr>to_be_inserted := ids\<rparr>)"
  by (simp add: hnsw_ok_def hnsw_clear_def graph_ok_def)

lemma hnsw_init_ok:
  assumes "h_M (hx_params ix) \<noteq> 1" "all_rankable (h_dist (hx_params ix)) t"
  shows "\<exists>ix'. hnsw_init (Some t) lv ix = Returns ix' \<and> hnsw_ok ix' \<and> inserted ix' = keys_of (vectors t) \<and>
    hx_params ix' = hx_params ix \<and> to_be_inserted ix' = [] \<and> to_be_removed ix' = []"
proof -
  let ?ids = "keys_of (vectors t)"
  have t: "vec_mutex t \<noteq> Exclusive" "distinct ?ids" using assms(2) by (auto simp: all_rankable_def)
  have ids: "get_all_vector_ids t = Returns ?ids"
    using t fold_set_insert [of fst "vectors t" "[]"] by (simp add: get_all_vector_ids_def)
  show ?thesis
  proof (cases "?ids = []")
    case True
    have "hnsw_clear ix\<lparr>to_be_inserted := []\<rparr> = hnsw_clear ix" by (simp add: hnsw_clear_def)
    then show ?thesis using True ids hnsw_clear_ok [of "[]" ix]
      by (simp add: hnsw_init_def) (simp add: hnsw_clear_def)
  next
    case False
    have "fold set_insert ?ids [] = ?ids"
      using t(2) fold_set_insert [of "\<lambda>i. i" ?ids "[]"] by simp
    then show ?thesis
      using False ids hnsw_build_ok [OF hnsw_clear_ok [of ?ids ix], of t lv] assms t(2)
      by (simp add: hnsw_init_def hnsw_clear_def)
  qed
qed

subsection \<open>Searching a built graph\<close>

lemma take_results_ok:
  assumes "\<And>c. c \<in> set cs \<Longrightarrow> get_vector_by_id t (snd c) = Returns (Some (g (snd c)))"
  shows "take_results t k cs = Returns (map (\<lambda>(d, i). (d, i, g i)) (take k cs))"
  using assms by (induction t k cs rule: take_results.induct) (auto simp: exact_result_def)

lemma search_built_start:
  assumes "hnsw_ok ix" "inserted ix \<noteq> []" "rankable (h_dist (hx_params ix)) q t"
  shows "\<exists>ep. fold_outcome (descend_layer ix t q) (layers_down (max_layer ix) 1) [entry_point ix] = Returns ep \<and>
    ep \<noteq> [] \<and> set ep \<subseteq> set (inserted ix) \<and> length ep \<le> 1 \<and> 0 < length (neighbours ix)"
proof -
  have g: "graph_ok (set (inserted ix)) ix" "entry_point ix \<in> set (inserted ix)" "0 \<le> max_layer ix"
    using assms(1,2) by (auto simp: hnsw_ok_def)
  then have "length (neighbours ix) = nat (max_layer ix + 1)" by (simp add: graph_ok_def)
  moreover have "lc < length (neighbours ix)" if "lc \<in> set (layers_down (max_layer ix) 1)" for lc
    using that calculation by (auto simp: layers_down_range)
  ultimately show ?thesis
    using descend_ok [OF rankable_total [OF assms(3)] g(1), of "[entry_point ix]" "layers_down (max_layer ix) 1"] g(2,3)
    by auto
qed

text \<open>The candidates on the lowest layer, from which the results are taken.\<close>

lemma search_built_results:
  assumes "hnsw_ok ix" "inserted ix \<noteq> []" "k \<noteq> 0" "rankable (h_dist (hx_params ix)) q t"
    and "set (inserted ix) \<subseteq> set (keys_of (vectors t))"
    and "search_layer ix t q ep (max (min k (word_of_nat (length (inserted ix)))) (h_ef_search (hx_params ix))) 0 = Returns cs"
    and "fold_outcome (descend_layer ix t q) (layers_down (max_layer ix) 1) [entry_point ix] = Returns ep"
    and "snd ` set cs \<subseteq> set (inserted ix)"
  shows "hnsw_search_built t q k ix =
    Returns (map (\<lambda>(d, i). (d, i, stored (the (map_of (vectors t) i)))) (take (unat (min k (word_of_nat (length (inserted ix))))) cs))"
proof -
  have "get_vector_by_id t (snd c) = Returns (Some (stored (the (map_of (vectors t) (snd c)))))" if "c \<in> set cs" for c
  proof -
    from that assms(5,8) have "snd c \<in> set (keys_of (vectors t))" by blast
    then obtain v where "map_of (vectors t) (snd c) = Some v" by (meson key_has_value)
    then show ?thesis using assms(4) by (auto simp: rankable_def get_vector_wf)
  qed
  then show ?thesis
    using assms(2,3,6,7) take_results_ok [of cs t "\<lambda>i. stored (the (map_of (vectors t) i))"]
    by (simp add: hnsw_search_built_def)
qed

lemma known_dist_stored:
  assumes "rankable m q t" "map_of (vectors t) i = Some v"
  shows "compute_with m q v = Returns (known_dist m t q i)"
  using rankable_compute [OF assms] assms(2) by (auto simp: known_dist_def returned_def)

subsection \<open>Exhaustive layer searches\<close>

text \<open>As long as nothing is dropped from the results, all candidates are results and all visited ids too.\<close>

definition full_search :: "(id_t \<Rightarrow> double) \<Rightarrow> id_t set \<Rightarrow> search_state \<Rightarrow> bool" where
  "full_search D S s =
     (case s of (res, cand, vis) \<Rightarrow> res \<noteq> [] \<and> cands_in D S res \<and> cands_in D S cand \<and>
        set cand \<subseteq> set res \<and> snd ` set res = set vis \<and> set vis \<subseteq> S)"

lemma relax_full:
  assumes "dist_total dst D" "finite S" "card S \<le> ef" "full_search D S (res, cand, vis)" "nb \<in> S"
  shows "\<exists>res' cand' vis'. relax dst ef nb (res, cand, vis) = Returns (res', cand', vis') \<and>
    full_search D S (res', cand', vis') \<and> set vis' = insert nb (set vis) \<and>
    snd ` set cand' = snd ` set cand \<union> ({nb} - set vis)"
proof (cases "nb \<in> set vis")
  case True
  then show ?thesis using assms(4) by (auto simp: relax_def)
next
  case False
  have inv: "res \<noteq> []" "cands_in D S res" "cands_in D S cand" "set cand \<subseteq> set res" "snd ` set res = set vis" "set vis \<subseteq> S"
    using assms(4) by (auto simp: full_search_def)
  have d: "dst nb = Returns (D nb)" "D nb \<noteq> NaN" using assms(1) by (auto simp: dist_total_def)
  have "cands_in D (set vis) res" using inv(2,5) by (auto simp: cands_in_def)
  then have "length res \<le> card (set vis)" by (rule cands_in_length) simp
  also have "\<dots> < card S" using inv(6) False assms(2,5) by (intro psubset_card_mono) auto
  finally have len: "length res < ef" using assms(3) by simp
  from oset_insert_cands [OF inv(2) d(2) assms(5)] oset_insert_cands [OF inv(3) d(2) assms(5)]
  obtain r c where r: "oset_insert pair_less (D nb, nb) res = Returns r" "cands_in D S r" "r \<noteq> []"
      "set r = insert (D nb, nb) (set res)" "length r \<le> Suc (length res)"
    and c: "oset_insert pair_less (D nb, nb) cand = Returns c" "cands_in D S c" "set c = insert (D nb, nb) (set cand)"
    by blast
  have "relax dst ef nb (res, cand, vis) = Returns (r, c, set_insert nb vis)"
    using False inv(1) d(1) len r(1,5) c(1) by (auto simp: relax_def)
  then show ?thesis using r c inv assms(5) False by (auto simp: full_search_def)
qed

lemma fold_relax_full:
  assumes "dist_total dst D" "finite S" "card S \<le> ef" "full_search D S (res, cand, vis)" "set nbs \<subseteq> S"
  shows "\<exists>res' cand' vis'. fold_outcome (relax dst ef) nbs (res, cand, vis) = Returns (res', cand', vis') \<and>
    full_search D S (res', cand', vis') \<and> set vis' = set vis \<union> set nbs \<and>
    snd ` set cand' = snd ` set cand \<union> (set nbs - set vis)"
  using assms(4,5)
proof (induction nbs arbitrary: res cand vis)
  case (Cons nb nbs)
  then have "nb \<in> S" by simp
  from relax_full [OF assms(1-3) Cons.prems(1) this] obtain r c v where
    1: "relax dst ef nb (res, cand, vis) = Returns (r, c, v)" "full_search D S (r, c, v)"
    "set v = insert nb (set vis)" "snd ` set c = snd ` set cand \<union> ({nb} - set vis)" by blast
  from Cons.IH [OF 1(2)] Cons.prems(2) obtain r' c' v' where
    "fold_outcome (relax dst ef) nbs (r, c, v) = Returns (r', c', v')" "full_search D S (r', c', v')"
    "set v' = set v \<union> set nbs" "snd ` set c' = snd ` set c \<union> (set nbs - set v)" by auto
  then show ?case using 1 by auto
qed simp

lemma search_loop_full:
  assumes "dist_total dst D" "closed_under nbs S" "finite S" "card S \<le> ef"
    and "full_search D S s" "\<forall>i \<in> set (snd (snd s)) - snd ` set (fst (snd s)). set (nbs i) \<subseteq> set (snd (snd s))"
  shows "\<exists>res. search_loop nbs dst ef s = Returns res \<and> cands_in D S res \<and> closed_under nbs (snd ` set res) \<and>
    set (snd (snd s)) \<subseteq> snd ` set res"
  using assms
proof (induction nbs dst ef s rule: search_loop.induct)
  case (1 nbs dst ef res vis)
  then have eq: "snd ` set res = set vis" "cands_in D S res" by (simp_all add: full_search_def)
  have "closed_under nbs (snd ` set res)" unfolding eq(1) using 1 by (simp add: closed_under_def)
  then show ?case using eq by simp
next
  case (2 nbs dst ef res c cand vis)
  have inv: "res \<noteq> []" "cands_in D S res" "cands_in D S (c # cand)" "set (c # cand) \<subseteq> set res" "snd ` set res = set vis" "set vis \<subseteq> S"
    using 2(6) by (auto simp: full_search_def)
  have cS: "snd c \<in> S" "snd c \<in> set vis" "snd c \<notin> snd ` set cand"
    using inv(4-6) cands_in_distinct [OF inv(3)] by auto
  have "full_search D S (res, cand, vis)"
    using inv by (auto simp: full_search_def cands_in_def dest: cand_ok_tl)
  moreover have "set (nbs (snd c)) \<subseteq> S" using 2(3) cS(1) by (simp add: closed_under_def)
  ultimately obtain r c' v where
    f: "fold_outcome (relax dst ef) (nbs (snd c)) (res, cand, vis) = Returns (r, c', v)" "full_search D S (r, c', v)"
    "set v = set vis \<union> set (nbs (snd c))" "snd ` set c' = snd ` set cand \<union> (set (nbs (snd c)) - set vis)"
    using fold_relax_full [OF 2(2,4,5)] by blast
  have nb: "\<not> dless (fst (last res)) (fst c)"
  proof -
    have "c \<in> set res" using inv(4) by simp
    moreover have "sorted (map pair_key res)" using inv(2) by (simp add: cands_in_def cand_ok_def)
    ultimately have "pair_key c \<le> pair_key (last res)"
      using inv(1) by (cases res rule: rev_cases) (auto simp: sorted_append)
    then show ?thesis by (auto simp: pair_key_def dless_def less_eq_prod_def)
  qed
  have "\<forall>i \<in> set v - snd ` set c'. set (nbs i) \<subseteq> set v"
  proof
    fix i assume i: "i \<in> set v - snd ` set c'"
    then have "i \<in> set vis" "i \<notin> snd ` set cand" using f(3,4) by auto
    then show "set (nbs i) \<subseteq> set v" using 2(7) f(3) by (cases "i = snd c") auto
  qed
  then obtain res' where "search_loop nbs dst ef (r, c', v) = Returns res'" "cands_in D S res'"
    "closed_under nbs (snd ` set res')" "set v \<subseteq> snd ` set res'"
    using 2(1) [OF inv(1) nb f(1) 2(2-5) f(2)] by auto
  then show ?case using f(1,3) nb inv(1) by auto
qed

lemma search_layer_full:
  assumes "dist_total (query_dist (h_dist (hx_params ix)) col q) D" "lc < length (neighbours ix)"
    and "set eps \<subseteq> S" "closed_under (neighbours ix ! lc) S" "eps \<noteq> []" "finite S" "card S \<le> unat ef"
  shows "\<exists>res. search_layer ix col q eps ef lc = Returns res \<and> cands_in D S res \<and> set eps \<subseteq> snd ` set res \<and>
    closed_under (neighbours ix ! lc) (snd ` set res)"
proof -
  let ?d = "query_dist (h_dist (hx_params ix)) col q"
  from seed_ok [OF assms(1,3), of "[]" "[]" "[]"] obtain res cand vis where
    s: "fold_outcome (seed ?d) eps ([], [], []) = Returns (res, cand, vis)" "cands_in D (S \<inter> set vis) res"
    "cands_in D (S \<inter> set vis) cand" "set vis = set eps" "set res = (\<lambda>i. (D i, i)) ` set eps"
    "set cand = (\<lambda>i. (D i, i)) ` set eps" by auto
  have "full_search D S (res, cand, vis)"
    using s assms(3,5) by (auto simp: full_search_def image_image intro: cands_in_mono)
  moreover have "\<forall>i \<in> set vis - snd ` set cand. set ((neighbours ix ! lc) i) \<subseteq> set vis"
    using s(4,6) by (auto simp: image_image)
  ultimately show ?thesis
    using search_loop_full [OF assms(1,4,6,7), of "(res, cand, vis)"] s(1,4) assms(2,5)
    by (auto simp: search_layer_def layer_at_def)
qed

text \<open>Candidates are stored vectors with their distances, and all of them in order are the exhaustive ranking.\<close>

lemma cand_stored:
  assumes "rankable m q t" "S \<subseteq> set (keys_of (vectors t))" "cands_in (known_dist m t q) S cs" "(d, i) \<in> set cs"
  shows "map_option stored (map_of (vectors t) i) = Some (stored (the (map_of (vectors t) i))) \<and>
    compute_with m q (the (map_of (vectors t) i)) = Returns d"
proof -
  have "snd (d, i) \<in> S" "fst (d, i) = known_dist m t q (snd (d, i))"
    using assms(3,4) unfolding cands_in_def by blast+
  then have "i \<in> set (keys_of (vectors t))" "d = known_dist m t q i" using assms(2) by auto
  then obtain v where "map_of (vectors t) i = Some v" by (meson key_has_value)
  then show ?thesis using known_dist_stored [OF assms(1)] \<open>d = known_dist m t q i\<close> by simp
qed

lemma all_cands_ranking:
  assumes "searchable q t" "cands_in (known_dist euclidean t q) S cs" "snd ` set cs = set (keys_of (vectors t))"
  shows "cs = sort_key pair_key (scored q (vectors t))"
proof -
  have kd: "distinct (keys_of (vectors t))" using assms(1) by (simp add: searchable_def table_wf_def)
  have "p \<in> set cs \<longleftrightarrow> p \<in> set (scored q (vectors t))" for p
  proof -
    obtain d i where p: "p = (d, i)" by (cases p)
    have "p \<in> set cs \<longleftrightarrow> i \<in> set (keys_of (vectors t)) \<and> d = known_dist euclidean t q i"
      unfolding assms(3) [symmetric] using assms(2) by (force simp: p cands_in_def)
    moreover have "p \<in> set (scored q (vectors t)) \<longleftrightarrow> i \<in> set (keys_of (vectors t)) \<and> d = known_dist euclidean t q i"
      using kd by (auto simp: p scored_def known_dist_def intro: rev_image_eqI)
    ultimately show ?thesis by simp
  qed
  then have "set cs = set (scored q (vectors t))" by blast
  moreover have "distinct cs" using assms(2) by (auto simp: cands_in_def cand_ok_def distinct_map)
  moreover have "distinct (scored q (vectors t))" using kd snd_scored [of q "vectors t"] by (metis distinct_map)
  ultimately have "mset cs = mset (scored q (vectors t))" by (simp add: set_eq_iff_mset_eq_distinct)
  moreover have "sorted (map pair_key cs)" "inj_on pair_key (set cs)"
    using assms(2) by (auto simp: cands_in_def cand_ok_def distinct_map)
  ultimately show ?thesis by (metis sort_key_id_if_sorted sort_key_perm)
qed

subsection \<open>Properties\<close>

definition sample_hnsw :: hnsw_index where
  "sample_hnsw = \<lparr>hx_params = hnsw_params_default\<lparr>h_dist := euclidean\<rparr>, inserted = [], to_be_inserted = [],
     to_be_removed = [], node_levels = (\<lambda>_. 0), neighbours = [], entry_point = 0, max_layer = - 1\<rparr>"

text \<open>
  C24. Building the graph over a collection whose distances are numbers always returns, whatever levels
  are drawn: every vector becomes a node, all links stay among the nodes, no node has more than \<open>M\<close>
  links on an upper layer or \<open>2 M\<close> on the lowest one, and there is an entry point.
\<close>

theorem hnsw_build_bounded_degree:
  assumes "h_M (hx_params ix) \<noteq> 1" "h_M0 (hx_params ix) = 2 * h_M (hx_params ix)"
    and "all_rankable (h_dist (hx_params ix)) t"
  shows "\<exists>ix'. hnsw_init (Some t) lv ix = Returns ix' \<and> inserted ix' = keys_of (vectors t) \<and>
    (inserted ix' \<noteq> [] \<longrightarrow> entry_point ix' \<in> set (inserted ix')) \<and>
    (\<forall>lc < length (neighbours ix'). \<forall>i.
       set ((neighbours ix' ! lc) i) \<subseteq> set (inserted ix') \<and> distinct ((neighbours ix' ! lc) i) \<and>
       length ((neighbours ix' ! lc) i) \<le> unat (if lc = 0 then 2 * h_M (hx_params ix) else h_M (hx_params ix)))"
proof -
  obtain ix' where "hnsw_init (Some t) lv ix = Returns ix'" "hnsw_ok ix'" "inserted ix' = keys_of (vectors t)"
    "hx_params ix' = hx_params ix" using hnsw_init_ok [OF assms(1,3)] by blast
  moreover have "inserted ix' \<noteq> [] \<longrightarrow> entry_point ix' \<in> set (inserted ix')"
    using calculation(2) by (simp add: hnsw_ok_def)
  moreover have "set ((neighbours ix' ! lc) i) \<subseteq> set (inserted ix') \<and> distinct ((neighbours ix' ! lc) i) \<and>
      length ((neighbours ix' ! lc) i) \<le> unat (if lc = 0 then 2 * h_M (hx_params ix) else h_M (hx_params ix))"
    if "lc < length (neighbours ix')" for lc i
    using hnsw_layer [OF calculation(2) that] assms(2) calculation(4) by (cases "lc = 0") (simp_all add: layer_ok_def layer_cap_def)
  ultimately show ?thesis by blast
qed

lemma sample_all_rankable: "m \<noteq> Exclusive \<Longrightarrow> all_rankable euclidean (sample_table m)"
proof -
  assume m: "m \<noteq> Exclusive"
  have "searchable (sample_vector x) (sample_table m)" if "f32_finite x" for x
    using that m by (simp add: searchable_def fp_eval)
  then show ?thesis using m searchable_rankable
    by (simp add: all_rankable_def) (simp add: fp_eval)
qed

theorem hnsw_build_bounded_degree_witness:
  "\<exists>ix'. hnsw_init (Some (sample_table Free)) (\<lambda>_. 0) sample_hnsw = Returns ix' \<and>
    inserted ix' = keys_of (vectors (sample_table Free)) \<and>
    (inserted ix' \<noteq> [] \<longrightarrow> entry_point ix' \<in> set (inserted ix')) \<and>
    (\<forall>lc < length (neighbours ix'). \<forall>i.
       set ((neighbours ix' ! lc) i) \<subseteq> set (inserted ix') \<and> distinct ((neighbours ix' ! lc) i) \<and>
       length ((neighbours ix' ! lc) i) \<le> unat (if lc = 0 then 2 * h_M (hx_params sample_hnsw) else h_M (hx_params sample_hnsw)))"
  by (rule hnsw_build_bounded_degree)
    (simp_all add: sample_hnsw_def hnsw_params_default_def sample_all_rankable)

text \<open>
  A search on a built graph returns without an exception: at most \<open>k\<close> and at least one distinct
  stored vectors with their distances from the query, nearest first.
\<close>

lemma hnsw_search_sound:
  assumes "hnsw_ok ix" "to_be_inserted ix = []" "to_be_removed ix = []" "inserted ix \<noteq> []"
    and "set (inserted ix) \<subseteq> set (keys_of (vectors t))" "length (inserted ix) < 2 ^ 32"
    and "rankable (h_dist (hx_params ix)) q t" "k \<noteq> 0"
  shows "\<exists>rs. hnsw_search (Some t) lv q k ix = Returns (ix, True, rs) \<and> rs \<noteq> [] \<and> length rs \<le> unat k \<and>
    distinct (map (\<lambda>s. fst (snd s)) rs) \<and> sorted (map (\<lambda>s. (rank (fst s), fst (snd s))) rs) \<and>
    list_all (\<lambda>(d, i, v). map_option stored (map_of (vectors t) i) = Some v \<and>
      compute_with (h_dist (hx_params ix)) q v = Returns d) rs"
proof -
  let ?D = "known_dist (h_dist (hx_params ix)) t q" and ?n = "word_of_nat (length (inserted ix)) :: u32"
  let ?ef = "max (min k ?n) (h_ef_search (hx_params ix))"
  obtain ep where ep: "fold_outcome (descend_layer ix t q) (layers_down (max_layer ix) 1) [entry_point ix] = Returns ep"
    "ep \<noteq> []" "set ep \<subseteq> set (inserted ix)" "0 < length (neighbours ix)"
    using search_built_start [OF assms(1,4,7)] by blast
  have "closed_under (neighbours ix ! 0) (set (inserted ix))"
    using hnsw_layer [OF assms(1) ep(4)] by (rule layer_ok_closed)
  from search_layer_ok [OF rankable_total [OF assms(7)] ep(4,3) this ep(2), of ?ef] obtain cs where
    cs: "search_layer ix t q ep ?ef 0 = Returns cs" "cs \<noteq> []" "cands_in ?D (set (inserted ix)) cs" by blast
  let ?cs = "take (unat (min k ?n)) cs"
  define rs where "rs = map (\<lambda>(d, i). (d, i, stored (the (map_of (vectors t) i)))) ?cs"
  have "hnsw_search_built t q k ix = Returns rs"
    unfolding rs_def by (rule search_built_results [OF assms(1,4,8,7,5) cs(1) ep(1) cands_ids [OF cs(3)]])
  then have run: "hnsw_search (Some t) lv q k ix = Returns (ix, True, rs)"
    using assms(2,3) by (simp add: hnsw_search_def)
  have n: "unat ?n = length (inserted ix)" using assms(6) by (simp add: unat_of_nat)
  then have "?n \<noteq> 0" using assms(4) by auto
  then have "0 < unat (min k ?n)" using assms(8) by (simp add: min_def unat_gt_0)
  then have "rs \<noteq> []" using cs(2) by (simp add: rs_def)
  moreover have "unat (min k ?n) \<le> unat k" by (simp add: min_def word_le_nat_alt)
  then have "length rs \<le> unat k" by (simp add: rs_def)
  moreover have cs': "cands_in ?D (set (inserted ix)) ?cs" using cs(3) by (rule cands_take)
  then have "distinct (map (\<lambda>s. fst (snd s)) rs)"
    using cands_in_distinct by (fastforce simp: rs_def comp_def case_prod_beta)
  moreover have "map (\<lambda>s. (rank (fst s), fst (snd s))) rs = map pair_key ?cs"
    by (simp add: rs_def pair_key_def comp_def case_prod_beta)
  then have "sorted (map (\<lambda>s. (rank (fst s), fst (snd s))) rs)" using cs' by (simp add: cands_in_def cand_ok_def)
  moreover have "list_all (\<lambda>(d, i, v). map_option stored (map_of (vectors t) i) = Some v \<and>
      compute_with (h_dist (hx_params ix)) q v = Returns d) rs"
    using cand_stored [OF assms(7,5) cs'] by (auto simp: rs_def list_all_iff)
  ultimately show ?thesis using run by blast
qed

lemma sample_hnsw_built:
  "\<exists>ix. hnsw_init (Some (sample_table Free)) (\<lambda>_. 0) sample_hnsw = Returns ix \<and> hnsw_ok ix \<and>
    inserted ix = [7, 9] \<and> h_dist (hx_params ix) = euclidean \<and> to_be_inserted ix = [] \<and> to_be_removed ix = []"
  using hnsw_init_ok [of sample_hnsw "sample_table Free" "\<lambda>_. 0"] sample_all_rankable [of Free]
  by (auto simp: sample_hnsw_def hnsw_params_default_def)

lemma hnsw_search_sound_instance:
  "\<exists>ix rs. hnsw_init (Some (sample_table Free)) (\<lambda>_. 0) sample_hnsw = Returns ix \<and>
    hnsw_search (Some (sample_table Free)) (\<lambda>_. 0) (sample_vector 0) 1 ix = Returns (ix, True, rs) \<and>
    rs \<noteq> [] \<and> length rs \<le> 1"
proof -
  obtain ix where ix: "hnsw_init (Some (sample_table Free)) (\<lambda>_. 0) sample_hnsw = Returns ix" "hnsw_ok ix"
    "inserted ix = [7, 9]" "h_dist (hx_params ix) = euclidean" "to_be_inserted ix = []" "to_be_removed ix = []"
    using sample_hnsw_built by blast
  have "rankable euclidean (sample_vector 0) (sample_table Free)"
    by (rule searchable_rankable) (simp add: searchable_def fp_eval)
  then show ?thesis
    using hnsw_search_sound [of ix "sample_table Free" "sample_vector 0" 1 "\<lambda>_. 0"] ix by auto
qed

text \<open>
  C21. When every node of the lowest layer can be reached from every other one and the search width is
  at least the number of nodes, the graph search gives exactly the result of the exhaustive search.
\<close>

theorem hnsw_exact_when_connected:
  assumes "hnsw_ok ix" "inserted ix \<noteq> []" "length (inserted ix) < 2 ^ 32"
    and "h_dist (hx_params ix) = euclidean" "searchable q t" "set (inserted ix) = set (keys_of (vectors t))"
    and "length (inserted ix) \<le> unat (h_ef_search (hx_params ix))"
    and "\<And>S. S \<noteq> {} \<Longrightarrow> S \<subseteq> set (inserted ix) \<Longrightarrow> closed_under (neighbours ix ! 0) S \<Longrightarrow> S = set (inserted ix)"
  shows "\<exists>rs. hnsw_search_built t q k ix = Returns rs \<and> exact_search (Some t) q k r = Returns (True, rs)"
proof (cases "k = 0")
  case True
  then show ?thesis using exact_search_nearest [OF assms(5), of k r] by (simp add: hnsw_search_built_def nearest_def)
next
  case False
  let ?I = "set (inserted ix)" and ?D = "known_dist euclidean t q" and ?n = "word_of_nat (length (inserted ix)) :: u32"
  let ?ef = "max (min k ?n) (h_ef_search (hx_params ix))"
  have r: "rankable (h_dist (hx_params ix)) q t" using searchable_rankable [OF assms(5)] assms(4) by simp
  have D: "dist_total (query_dist (h_dist (hx_params ix)) t q) ?D" using rankable_total [OF r] assms(4) by simp
  obtain ep where ep: "fold_outcome (descend_layer ix t q) (layers_down (max_layer ix) 1) [entry_point ix] = Returns ep"
    "ep \<noteq> []" "set ep \<subseteq> ?I" "0 < length (neighbours ix)"
    using search_built_start [OF assms(1,2) r] by blast
  have cl: "closed_under (neighbours ix ! 0) ?I" using hnsw_layer [OF assms(1) ep(4)] by (rule layer_ok_closed)
  have "card ?I \<le> unat ?ef"
    using card_length [of "inserted ix"] assms(7) by (simp add: max_def word_le_nat_alt)
  from search_layer_full [OF D ep(4,3) cl ep(2) _ this] obtain cs where
    cs: "search_layer ix t q ep ?ef 0 = Returns cs" "cands_in ?D ?I cs" "set ep \<subseteq> snd ` set cs"
    "closed_under (neighbours ix ! 0) (snd ` set cs)" by auto
  have "snd ` set cs \<noteq> {}" using cs(3) ep(2) by (metis set_empty subset_empty)
  then have all: "snd ` set cs = ?I" using assms(8) [OF _ cands_ids [OF cs(2)] cs(4)] by blast
  have built: "hnsw_search_built t q k ix =
      Returns (map (\<lambda>(d, i). (d, i, stored (the (map_of (vectors t) i)))) (take (unat (min k ?n)) cs))"
    using search_built_results [OF assms(1,2) False r _ cs(1) ep(1)] assms(6) all by simp
  have "cs = sort_key pair_key (scored q (vectors t))"
    by (rule all_cands_ranking [OF assms(5) cs(2)]) (simp only: all assms(6))
  moreover have "length cs = length (inserted ix)"
  proof -
    have "length cs = card (set (map snd cs))" using distinct_card [OF cands_in_distinct [OF cs(2)]] by simp
    also have "\<dots> = length (inserted ix)" using assms(1) all by (simp add: hnsw_ok_def distinct_card)
    finally show ?thesis .
  qed
  then have "take (unat (min k ?n)) cs = take (unat k) cs"
    using assms(3) by (simp add: min_def word_le_nat_alt unat_of_nat)
  ultimately show ?thesis
    using built exact_search_nearest [OF assms(5), of k r] by (simp add: nearest_def)
qed

theorem hnsw_exact_when_connected_witness:
  "\<exists>rs. hnsw_search_built (sample_table Free) (sample_vector 0x40000000) 2
      (sample_hnsw\<lparr>inserted := [7, 9], entry_point := 7, max_layer := 0,
        neighbours := [\<lambda>i. if i = 7 then [9] else if i = 9 then [7] else []]\<rparr>) = Returns rs \<and>
    exact_search (Some (sample_table Free)) (sample_vector 0x40000000) 2 [] = Returns (True, rs)"
proof (rule hnsw_exact_when_connected)
  fix S :: "id_t set"
  assume S: "S \<noteq> {}" "S \<subseteq> set (inserted (sample_hnsw\<lparr>inserted := [7, 9], entry_point := 7, max_layer := 0,
        neighbours := [\<lambda>i. if i = 7 then [9] else if i = 9 then [7] else []]\<rparr>))"
    "closed_under (neighbours (sample_hnsw\<lparr>inserted := [7, 9], entry_point := 7, max_layer := 0,
        neighbours := [\<lambda>i. if i = 7 then [9] else if i = 9 then [7] else []]\<rparr>) ! 0) S"
  show "S = set (inserted (sample_hnsw\<lparr>inserted := [7, 9], entry_point := 7, max_layer := 0,
        neighbours := [\<lambda>i. if i = 7 then [9] else if i = 9 then [7] else []]\<rparr>))"
  proof -
    have "7 \<in> S \<or> 9 \<in> S" using S(1,2) by auto
    moreover have "7 \<in> S \<Longrightarrow> 9 \<in> S" "9 \<in> S \<Longrightarrow> 7 \<in> S"
      using S(3) by (force simp: closed_under_def)+
    ultimately show ?thesis using S(2) by auto
  qed
qed (simp_all add: hnsw_ok_def graph_ok_def layer_ok_def layer_cap_def sample_hnsw_def hnsw_params_default_def
    searchable_def fp_eval)

text \<open>The definitions that evaluate small graphs.\<close>

lemma take_results_2: "take_results t 2 (c # cs) =
    obind (exact_result t c) (\<lambda>r. obind (take_results t 1 cs) (\<lambda>rs. Returns (r # rs)))"
  by (simp add: numeral_2_eq_2)

lemma take_results_Nil [simp]: "take_results t n [] = Returns []"
  by (cases n) simp_all

lemma upto_2: "[0..<2] = [0, 1]" "[Suc 0..<2] = [1]"
  by (simp_all add: upt_rec)

lemmas graph_eval = upto_2 sample_hnsw_def hnsw_params_default_def hnsw_init_def hnsw_build_def
  fix_entry_point_def hnsw_clear_def get_all_vector_ids_def set_insert_def hnsw_insert_def draw_level_def
  layers_down_def get_vector_by_id_def sample_vector_def fv_copy_def make_array_def copy_floats_def floats_def
  promote_def link_layer_def search_layer_def seed_def query_dist_def euclidean_compute_def oset_insert_def
  strict_weak_on_def pair_less_def layer_at_def relax_def select_neighbors_heuristic_def layer_cap_def
  shrink_one_def id_dist_def create_neighbour_set_def hnsw_search_def hnsw_search_built_def exact_result_def
  link_def take_results_2 hnsw_on_vectors_removed_def hnsw_remove_node_def unlink_layer_def set_erase_def
  descend_layer_def

text \<open>
  The code takes entry point 0 for "no entry point yet", although 0 is an id like any other. When
  the vector with id 0 is inserted first, the next one is linked to itself only, and a search for
  exactly the vector 0 that asks for all vectors does not return it.
\<close>

lemma hnsw_loses_id_zero:
  "\<exists>ix d v. hnsw_init (Some \<lparr>vectors = [(0, sample_vector 0x3F800000), (9, sample_vector 0x40400000)], vec_mutex = Free\<rparr>)
      (\<lambda>_. 0) sample_hnsw = Returns ix \<and> inserted ix = [0, 9] \<and>
    hnsw_search (Some \<lparr>vectors = [(0, sample_vector 0x3F800000), (9, sample_vector 0x40400000)], vec_mutex = Free\<rparr>)
      (\<lambda>_. 0) (sample_vector 0x3F800000) 2 ix = Returns (ix, True, [(d, 9, v)])"
  by (simp add: graph_eval fp_eval)

text \<open>
  Removing the only node of the top layer leaves a stale entry point: the next search starts from
  the node that is gone, reaches nothing else, and dereferences its missing vector, which throws.
\<close>

lemma hnsw_stale_entry_point_throws:
  "\<exists>ix. hnsw_init (Some (sample_table Free)) (\<lambda>i. if i = 9 then 1 else 0) sample_hnsw = Returns ix \<and>
    hnsw_search (Some \<lparr>vectors = [(7, sample_vector 0x3F800000)], vec_mutex = Free\<rparr>) (\<lambda>_. 0)
      (sample_vector 0x3F800000) 1 (hnsw_on_vectors_removed [9] ix) = Throws Bad_optional_access"
  by (simp add: graph_eval sample_table_def fp_eval)

end
