(* ===== verification/Collection.thy ===== *)
theory Collection
  imports Ivf_Flat Hnsw_Graph
begin

text \<open>
  \<^verbatim>\<open>include/core/collection.h\<close> and \<^verbatim>\<open>impl/core/collection.cpp\<close>: a named collection of vectors of one
  dimension with its indices. Between calls \<^verbatim>\<open>vec_mutex_\<close> is free; inside a call it is in the state in
  which that call holds it, and the indices see it so. \<^verbatim>\<open>idx_mutex_\<close> is never taken twice by one thread
  and is left to \<open>Locking\<close>. The levels that an HNSW index draws are an input \<open>lv\<close>, by index name.
\<close>

datatype index = Ivf_ix ivf_index | Hnsw_ix hnsw_index

record collection =
  col_dim :: u32
  col_name :: string
  col_table :: vec_table
  col_indices :: "(string \<times> index) list"

definition collection_new :: "u32 \<Rightarrow> string \<Rightarrow> collection" where
  "collection_new dimension name =
     \<lparr>col_dim = dimension, col_name = name, col_table = \<lparr>vectors = [], vec_mutex = Free\<rparr>, col_indices = []\<rparr>"

definition locked :: "mutex \<Rightarrow> vec_table \<Rightarrow> vec_table" where
  "locked m t = t\<lparr>vec_mutex := m\<rparr>"

fun map_index_list :: "(index \<Rightarrow> index outcome) \<Rightarrow> (string \<times> index) list \<Rightarrow> (string \<times> index) list outcome" where
  "map_index_list f [] = Returns []"
| "map_index_list f ((n, x) # xs) =
     obind (f x) (\<lambda>y. obind (map_index_list f xs) (\<lambda>ys. Returns ((n, y) # ys)))"

subsection \<open>Adding and removing vectors\<close>

text \<open>The running result: the map, the numbers of added and of updated vectors, and the ids.\<close>

definition add_one_vector ::
  "id_t \<times> float_vector \<Rightarrow> (id_t \<times> float_vector) list \<times> int \<times> int \<times> id_t list \<Rightarrow>
   (id_t \<times> float_vector) list \<times> int \<times> int \<times> id_t list" where
  "add_one_vector iv s =
     (case s of (vs, added, updated, ids) \<Rightarrow>
        (case map_of vs (fst iv) of
           Some old \<Rightarrow> (AList.update (fst iv) (fst (fv_move_assign False old (snd iv))) vs, added, updated + 1, ids @ [fst iv])
         | None \<Rightarrow> (map_emplace (fst iv) (fst (fv_move (snd iv))) vs, added + 1, updated, ids @ [fst iv])))"

definition index_on_vectors_added :: "vec_table \<Rightarrow> id_t list \<Rightarrow> index \<Rightarrow> index outcome" where
  "index_on_vectors_added t new_ids ix =
     (case ix of
        Ivf_ix x \<Rightarrow> obind (ivf_on_vectors_added (Some t) new_ids x) (\<lambda>y. Returns (Ivf_ix y))
      | Hnsw_ix x \<Rightarrow> Returns (Hnsw_ix (hnsw_on_vectors_added new_ids x)))"

definition index_on_vectors_removed :: "vec_table \<Rightarrow> id_t list \<Rightarrow> index \<Rightarrow> index outcome" where
  "index_on_vectors_removed t removed_ids ix =
     (case ix of
        Ivf_ix x \<Rightarrow> obind (ivf_on_vectors_removed (Some t) removed_ids x) (\<lambda>y. Returns (Ivf_ix y))
      | Hnsw_ix x \<Rightarrow> Returns (Hnsw_ix (hnsw_on_vectors_removed removed_ids x)))"

text \<open>The mutex is released before the indices hear of the new ids.\<close>

definition add_vectors ::
  "(id_t \<times> float_vector) list \<Rightarrow> collection \<Rightarrow> (collection \<times> int \<times> int) outcome" where
  "add_vectors new_vectors c =
     (case fold add_one_vector new_vectors (vectors (col_table c), 0, 0, []) of
        (vs, added, updated, new_ids) \<Rightarrow>
          obind (map_index_list (index_on_vectors_added (\<lparr>vectors = vs, vec_mutex = Free\<rparr>) new_ids) (col_indices c))
            (\<lambda>ixs. Returns (c\<lparr>col_table := \<lparr>vectors = vs, vec_mutex = Free\<rparr>, col_indices := ixs\<rparr>, added, updated)))"

definition remove_one_vector ::
  "id_t \<Rightarrow> (id_t \<times> float_vector) list \<times> id_t list \<Rightarrow> (id_t \<times> float_vector) list \<times> id_t list" where
  "remove_one_vector i s =
     (case s of (vs, removed) \<Rightarrow>
        (case map_of vs i of
           Some _ \<Rightarrow> (AList.delete i vs, removed @ [i])
         | None \<Rightarrow> (vs, removed)))"

text \<open>Here the mutex is held exclusively to the end.\<close>

definition remove_vectors :: "id_t list \<Rightarrow> collection \<Rightarrow> (collection \<times> nat) outcome" where
  "remove_vectors ids c =
     (case fold remove_one_vector ids (vectors (col_table c), []) of
        (vs, removed) \<Rightarrow>
          obind (if removed \<noteq> []
                 then map_index_list (index_on_vectors_removed \<lparr>vectors = vs, vec_mutex = Exclusive\<rparr> removed) (col_indices c)
                 else Returns (col_indices c))
            (\<lambda>ixs. Returns (c\<lparr>col_table := \<lparr>vectors = vs, vec_mutex = Free\<rparr>, col_indices := ixs\<rparr>, length removed)))"

subsection \<open>Indices\<close>

text \<open>\<open>p\<close> is the pointer to the parameters, \<open>None\<close> when it is null.\<close>

definition build_index ::
  "vec_table \<Rightarrow> (id_t \<Rightarrow> nat) \<Rightarrow> index_type \<Rightarrow> params option \<Rightarrow> index option outcome" where
  "build_index t lv ty p =
     (case ty of
        hnsw \<Rightarrow>
          (case p of
             Some (Hnsw_params hp) \<Rightarrow>
               obind (hnsw_new (Some t) hp) (\<lambda>x. obind (hnsw_init (Some t) lv x) (\<lambda>y. Returns (Some (Hnsw_ix y))))
           | _ \<Rightarrow> Returns None)
      | ivf_flat \<Rightarrow>
          (case p of
             Some (Ivf_params ip) \<Rightarrow> obind (ivf_init (Some t) (ivf_new ip)) (\<lambda>y. Returns (Some (Ivf_ix y)))
           | _ \<Rightarrow> Returns None)
      | unknown \<Rightarrow> Returns None)"

definition add_index ::
  "(string \<Rightarrow> id_t \<Rightarrow> nat) \<Rightarrow> string \<Rightarrow> index_type \<Rightarrow> params option \<Rightarrow> collection \<Rightarrow> (collection \<times> bool) outcome" where
  "add_index lv name ty p c =
     (if ty = unknown then Returns (c, False)
      else
        catch_all
          (obind (build_index (col_table c) (lv name) ty p) (\<lambda>x.
           case x of
             None \<Rightarrow> Returns (c, False)
           | Some ix \<Rightarrow> Returns (c\<lparr>col_indices := map_emplace name ix (col_indices c)\<rparr>, True)))
          (\<lambda>e. Returns (c, False)))"

definition index_type_of :: "index \<Rightarrow> index_type" where
  "index_type_of ix = (case ix of Ivf_ix _ \<Rightarrow> ivf_flat | Hnsw_ix _ \<Rightarrow> hnsw)"

definition index_params_of :: "index \<Rightarrow> params" where
  "index_params_of ix = (case ix of Ivf_ix x \<Rightarrow> Ivf_params (ivf_params x) | Hnsw_ix x \<Rightarrow> Hnsw_params (hx_params x))"

definition get_index_params :: "string \<Rightarrow> collection \<Rightarrow> index_type \<times> params option" where
  "get_index_params index_name c =
     (case map_of (col_indices c) index_name of
        None \<Rightarrow> (unknown, None)
      | Some ix \<Rightarrow> (index_type_of ix, Some (index_params_of ix)))"

text \<open>The mutex is held in shared mode, and taken in shared mode again by the index.\<close>

definition search_for_top_k ::
  "(string \<Rightarrow> id_t \<Rightarrow> nat) \<Rightarrow> float_vector \<Rightarrow> u32 \<Rightarrow> score list \<Rightarrow> string \<Rightarrow> collection \<Rightarrow>
   (collection \<times> bool \<times> score list) outcome" where
  "search_for_top_k lv q k results index_name c =
     (case map_of (col_indices c) index_name of
        None \<Rightarrow>
          obind (exact_search (Some (locked Shared (col_table c))) q k results) (\<lambda>r. Returns (c, r))
      | Some (Ivf_ix x) \<Rightarrow>
          obind (ivf_search x (Some (locked Shared (col_table c))) q k results) (\<lambda>r. Returns (c, r))
      | Some (Hnsw_ix x) \<Rightarrow>
          obind (hnsw_search (Some (locked Shared (col_table c))) (lv index_name) q k x) (\<lambda>(y, r).
            Returns (c\<lparr>col_indices := AList.update index_name (Hnsw_ix y) (col_indices c)\<rparr>, r)))"

subsection \<open>Serialization\<close>

definition vector_entry_bytes :: "id_t \<times> float_vector \<Rightarrow> byte list outcome" where
  "vector_entry_bytes p = obind (fv_serialize (snd p)) (\<lambda>bs. Returns (write_u64 (fst p) @ bs))"

definition params_bytes :: "params \<Rightarrow> byte list" where
  "params_bytes p = (case p of Hnsw_params hp \<Rightarrow> hnsw_params_bytes hp | Ivf_params ip \<Rightarrow> ivf_params_bytes ip)"

definition index_entry_bytes :: "string \<times> index \<Rightarrow> byte list" where
  "index_entry_bytes p =
     write_string (fst p) @ write_u8 (index_type_code (index_type_of (snd p))) @ params_bytes (index_params_of (snd p))"

definition collection_serialize :: "collection \<Rightarrow> byte list outcome" where
  "collection_serialize c =
     obind (map_outcome_list vector_entry_bytes (vectors (col_table c))) (\<lambda>vbs.
       Returns (write_string (col_name c) @ write_u32 (col_dim c) @
         write_u32 (word_of_nat (length (vectors (col_table c)))) @ concat vbs @
         write_u32 (word_of_nat (length (col_indices c))) @ concat (map index_entry_bytes (col_indices c))))"

definition read_vector_entry :: "byte list \<Rightarrow> ((id_t \<times> float_vector) \<times> byte list) outcome" where
  "read_vector_entry bs =
     obind (read_u64 bs) (\<lambda>(i, r). obind (fv_deserialize r) (\<lambda>(v, r'). Returns ((i, v), r')))"

text \<open>\<^verbatim>\<open>index_t::deserialize\<close>: only the two known kinds have parameters behind them.\<close>

definition index_deserialize :: "vec_table \<Rightarrow> byte list \<Rightarrow> (index option \<times> byte list) outcome" where
  "index_deserialize t bs =
     obind (read_u8 bs) (\<lambda>(ty, r).
     if ty = index_type_code hnsw then
       obind (hnsw_params_deserialize r) (\<lambda>(p, r'). obind (hnsw_new (Some t) p) (\<lambda>x. Returns (Some (Hnsw_ix x), r')))
     else if ty = index_type_code ivf_flat then
       obind (ivf_params_deserialize r) (\<lambda>(p, r'). Returns (Some (Ivf_ix (ivf_new p)), r'))
     else Returns (None, r))"

definition index_init :: "vec_table \<Rightarrow> (id_t \<Rightarrow> nat) \<Rightarrow> index \<Rightarrow> index outcome" where
  "index_init t lv ix =
     (case ix of
        Ivf_ix x \<Rightarrow> obind (ivf_init (Some t) x) (\<lambda>y. Returns (Ivf_ix y))
      | Hnsw_ix x \<Rightarrow> obind (hnsw_init (Some t) lv x) (\<lambda>y. Returns (Hnsw_ix y)))"

fun read_indices ::
  "vec_table \<Rightarrow> (string \<Rightarrow> id_t \<Rightarrow> nat) \<Rightarrow> nat \<Rightarrow> (string \<times> index) list \<Rightarrow> byte list \<Rightarrow>
   ((string \<times> index) list \<times> byte list) outcome" where
  "read_indices t lv 0 ixs bs = Returns (ixs, bs)"
| "read_indices t lv (Suc n) ixs bs =
     obind (read_string bs) (\<lambda>(name, r).
     obind (index_deserialize t r) (\<lambda>(x, r').
     case x of
       None \<Rightarrow> read_indices t lv n ixs r'
     | Some ix \<Rightarrow> obind (index_init t (lv name) ix) (\<lambda>y. read_indices t lv n (AList.update name y ixs) r')))"

definition collection_deserialize ::
  "(string \<Rightarrow> id_t \<Rightarrow> nat) \<Rightarrow> byte list \<Rightarrow> (collection \<times> byte list) outcome" where
  "collection_deserialize lv bs =
     obind (read_string bs) (\<lambda>(name, r1).
     obind (read_u32 r1) (\<lambda>(dimension, r2).
     obind (read_u32 r2) (\<lambda>(vec_count, r3).
     obind (read_n read_vector_entry (unat vec_count) r3) (\<lambda>(entries, r4).
     obind (read_u32 r4) (\<lambda>(idx_count, r5).
     obind (Returns \<lparr>vectors = fold (\<lambda>p vs. map_emplace (fst p) (snd p) vs) entries [], vec_mutex = Free\<rparr>) (\<lambda>t.
     obind (read_indices t lv (unat idx_count) [] r5) (\<lambda>(ixs, r6).
       Returns ((collection_new dimension name)\<lparr>col_table := t, col_indices := ixs\<rparr>, r6))))))))"

subsection \<open>The abstract content\<close>

definition content :: "collection \<Rightarrow> id_t \<Rightarrow> float_vector option" where
  "content c = map_of (vectors (col_table c))"

definition index_wf :: "u32 \<Rightarrow> index \<Rightarrow> bool" where
  "index_wf d ix = (case ix of Ivf_ix x \<Rightarrow> ivf_wf d x | Hnsw_ix x \<Rightarrow> True)"

text \<open>The invariant of a collection between calls.\<close>

definition col_wf :: "collection \<Rightarrow> bool" where
  "col_wf c \<longleftrightarrow>
     table_wf (col_dim c) (col_table c) \<and> vec_mutex (col_table c) = Free \<and> distinct (keys_of (col_indices c)) \<and>
     list_all (\<lambda>p. index_wf (col_dim c) (snd p)) (col_indices c)"

lemma collection_new_wf: "col_wf (collection_new d n)"
  by (simp add: col_wf_def collection_new_def table_wf_def)

lemma fst_fv_move [simp]: "fst (fv_move v) = v"
  by (cases v) (simp add: fv_move_def)

lemma add_one_vector_update:
  "add_one_vector (i, v) (vs, a, u, ids) =
     (AList.update i v vs, if map_of vs i = None then a + 1 else a, if map_of vs i = None then u else u + 1, ids @ [i])"
proof -
  have "i \<notin> set (keys_of vs) \<Longrightarrow> AList.update i v vs = vs @ [(i, v)]" by (induction vs) auto
  then have "AList.update i v vs = map_emplace i v vs" if "map_of vs i = None"
    using that map_of_eq_None_iff [of vs i] by (simp add: map_emplace_def)
  then show ?thesis
    by (auto simp: add_one_vector_def fv_move_assign_wf split: option.splits)
qed

lemma set_update_subset: "set (AList.update i v vs) \<subseteq> insert (i, v) (set vs)"
  by (induction vs) auto

lemma add_fold:
  assumes "distinct (keys_of vs)"
  shows "\<exists>vs' a' u'. fold add_one_vector ivs (vs, a, u, ids) = (vs', a', u', ids @ map fst ivs) \<and>
    map_of vs' = map_of vs ++ map_of (rev ivs) \<and> distinct (keys_of vs') \<and> set vs' \<subseteq> set vs \<union> set ivs \<and>
    a' + u' = a + u + int (length ivs) \<and> a' = a + int (length vs') - int (length vs)"
  using assms
proof (induction ivs arbitrary: vs a u ids)
  case (Cons iv ivs)
  obtain i v where iv: "iv = (i, v)" by (cases iv)
  let ?vs = "AList.update i v vs" and ?a = "if map_of vs i = None then a + 1 else a"
    and ?u = "if map_of vs i = None then u else u + 1"
  have len: "int (length ?vs) = (if map_of vs i = None then int (length vs) + 1 else int (length vs))"
    by (induction vs) auto
  have "distinct (keys_of ?vs)" using Cons.prems by simp
  from Cons.IH [OF this, of ?a ?u "ids @ [i]"] obtain vs' a' u' where
    r: "fold add_one_vector ivs (?vs, ?a, ?u, ids @ [i]) = (vs', a', u', (ids @ [i]) @ map fst ivs)"
    "map_of vs' = map_of ?vs ++ map_of (rev ivs)" "distinct (keys_of vs')" "set vs' \<subseteq> set ?vs \<union> set ivs"
    "a' + u' = ?a + ?u + int (length ivs)" "a' = ?a + int (length vs') - int (length ?vs)" by blast
  have "map_of ?vs ++ map_of (rev ivs) = map_of vs ++ map_of (rev (iv # ivs))"
    by (auto simp: iv map_add_def fun_eq_iff split: option.splits)
  then show ?case using r len set_update_subset [of i v vs] by (auto simp: iv add_one_vector_update)
qed auto

lemma remove_fold:
  assumes "distinct (keys_of vs)" "distinct rs" "set rs \<inter> set (keys_of vs) = {}"
  shows "\<exists>vs' rs'. fold remove_one_vector ids (vs, rs) = (vs', rs') \<and>
    map_of vs' = (map_of vs) |` (- set ids) \<and> distinct (keys_of vs') \<and> set vs' \<subseteq> set vs \<and>
    set rs' = set rs \<union> (set ids \<inter> set (keys_of vs)) \<and> distinct rs'"
  using assms
proof (induction ids arbitrary: vs rs)
  case (Cons i ids)
  show ?case
  proof (cases "map_of vs i")
    case None
    then have "i \<notin> set (keys_of vs)" by (simp add: map_of_eq_None_iff)
    moreover have "(map_of vs) |` (- insert i (set ids)) = (map_of vs) |` (- set ids)"
      using None by (auto simp: restrict_map_def)
    ultimately show ?thesis using None Cons.IH [OF Cons.prems] by (auto simp: remove_one_vector_def)
  next
    case (Some v)
    then have i: "i \<in> set (keys_of vs)" by (rule map_of_in_keys)
    have "distinct (keys_of (AList.delete i vs))" "distinct (rs @ [i])"
      "set (rs @ [i]) \<inter> set (keys_of (AList.delete i vs)) = {}" using Cons.prems i by auto
    from Cons.IH [OF this] obtain vs' rs' where
      r: "fold remove_one_vector ids (AList.delete i vs, rs @ [i]) = (vs', rs')"
      "map_of vs' = (map_of (AList.delete i vs)) |` (- set ids)" "distinct (keys_of vs')"
      "set vs' \<subseteq> set (AList.delete i vs)" "set rs' = set (rs @ [i]) \<union> (set ids \<inter> set (keys_of (AList.delete i vs)))"
      "distinct rs'" by blast
    have "(map_of (AList.delete i vs)) |` (- set ids) = (map_of vs) |` (- set (i # ids))"
      by (auto simp: restrict_map_def fun_eq_iff)
    moreover have "set (AList.delete i vs) \<subseteq> set vs" by (auto simp: AList.delete_eq)
    moreover have "fold remove_one_vector (i # ids) (vs, rs) = (vs', rs')"
      using Some r(1) by (simp add: remove_one_vector_def [of i "(vs, rs)"])
    moreover have "set rs' = set rs \<union> (set (i # ids) \<inter> set (keys_of vs))" using r(5) i by auto
    ultimately show ?thesis using r by auto
  qed
qed auto

lemma map_index_list_ok:
  assumes "\<And>n x. (n, x) \<in> set xs \<Longrightarrow> \<exists>y. f x = Returns y \<and> P y"
  shows "\<exists>ys. map_index_list f xs = Returns ys \<and> keys_of ys = keys_of xs \<and> list_all (\<lambda>p. P (snd p)) ys"
  using assms
proof (induction xs)
  case (Cons p xs)
  obtain n x where p: "p = (n, x)" by (cases p)
  then obtain y where "f x = Returns y" "P y" using Cons.prems by auto
  moreover obtain ys where "map_index_list f xs = Returns ys" "keys_of ys = keys_of xs" "list_all (\<lambda>p. P (snd p)) ys"
    using Cons by auto
  ultimately show ?case by (auto simp: p)
qed simp

subsection \<open>Preservation\<close>

lemma ivf_added_ok:
  assumes "table_wf d t" "vec_mutex t \<noteq> Exclusive" "ivf_wf d ix"
  shows "\<exists>ix'. ivf_on_vectors_added (Some t) is ix = Returns ix' \<and> ivf_wf d ix'"
proof -
  let ?n = "since_rebuild ix + word_of_nat (length is)"
  have "get_distance_instance (i_dist (ivf_params ix)) \<noteq> None" "ivf_wf d (ix\<lparr>since_rebuild := ?n\<rparr>)"
    using assms(3) by (simp_all add: ivf_wf_def)
  then show ?thesis
    using ivf_build_ok [OF assms(1,2), of ix] ivf_build_ok [OF assms(1,2), of "ix\<lparr>since_rebuild := ?n\<rparr>"]
      add_incremental_ok [OF assms(1,2), of "ix\<lparr>since_rebuild := ?n\<rparr>" "is"]
    by (auto simp: ivf_on_vectors_added_def)
qed

lemma index_added_ok:
  assumes "table_wf d t" "vec_mutex t \<noteq> Exclusive" "index_wf d ix"
  shows "\<exists>ix'. index_on_vectors_added t is ix = Returns ix' \<and> index_wf d ix'"
proof (cases ix)
  case (Ivf_ix x)
  then obtain y where "ivf_on_vectors_added (Some t) is x = Returns y \<and> ivf_wf d y"
    using ivf_added_ok [OF assms(1,2), of x "is"] assms(3) by (auto simp: index_wf_def)
  then show ?thesis by (simp add: Ivf_ix index_on_vectors_added_def index_wf_def)
qed (simp add: index_on_vectors_added_def index_wf_def)

text \<open>An index that hears of removals without reaching its rebuild threshold.\<close>

definition within_budget :: "nat \<Rightarrow> index \<Rightarrow> bool" where
  "within_budget n ix =
     (case ix of
        Ivf_ix x \<Rightarrow> clusters x = [] \<or> since_rebuild x + word_of_nat n < i_rebuild_threshold (ivf_params x)
      | Hnsw_ix x \<Rightarrow> True)"

lemma index_removed_ok:
  assumes "index_wf d ix" "within_budget (length is) ix"
  shows "\<exists>ix'. index_on_vectors_removed t is ix = Returns ix' \<and> index_wf d ix'"
proof (cases ix)
  case (Ivf_ix x)
  have "ivf_wf d (x\<lparr>since_rebuild := n\<rparr>)" for n using assms(1) Ivf_ix by (simp add: index_wf_def ivf_wf_def)
  then show ?thesis
    using assms Ivf_ix remove_incremental_wf
    by (auto simp: index_on_vectors_removed_def ivf_on_vectors_removed_def within_budget_def index_wf_def)
qed (simp add: index_on_vectors_removed_def index_wf_def)

lemma table_wf_subset:
  "table_wf d t \<Longrightarrow> distinct (keys_of vs) \<Longrightarrow> set vs \<subseteq> set (vectors t) \<union> set ws \<Longrightarrow>
     list_all (\<lambda>p. fv_wf (snd p) \<and> fv_dim (snd p) = d) ws \<Longrightarrow> table_wf d \<lparr>vectors = vs, vec_mutex = m\<rparr>"
  by (auto simp: table_wf_def list_all_iff)

lemma content_card: "distinct (keys_of (vectors (col_table c))) \<Longrightarrow> card (dom (content c)) = length (vectors (col_table c))"
  by (simp add: content_def dom_map_of_conv_image_fst distinct_card flip: set_map)

lemma exact_search_ids:
  assumes "searchable q t"
  shows "\<exists>rs. exact_search (Some t) q k r = Returns (True, rs) \<and>
    set (map (\<lambda>s. fst (snd s)) rs) \<subseteq> set (keys_of (vectors t))"
proof -
  have "snd p \<in> set (keys_of (vectors t))" if "p \<in> set (nearest q (vectors t) (unat k))" for p
    using that set_nearest [of q "vectors t" "unat k"] snd_scored [of q "vectors t"] by (metis image_eqI list.set_map subsetD)
  then show ?thesis using exact_search_nearest [OF assms] by (auto simp: case_prod_beta)
qed

lemma col_wf_table: "col_wf c \<Longrightarrow> table_wf (col_dim c) (col_table c) \<and> distinct (keys_of (vectors (col_table c)))"
  by (simp add: col_wf_def table_wf_def)

lemma add_vectors_refines':
  assumes "col_wf c" "list_all (\<lambda>p. fv_wf (snd p) \<and> fv_dim (snd p) = col_dim c) ivs"
  shows "\<exists>c' added updated. add_vectors ivs c = Returns (c', added, updated) \<and> col_wf c' \<and>
    content c' = content c ++ map_of (rev ivs) \<and> added + updated = int (length ivs) \<and>
    added = int (card (dom (content c'))) - int (card (dom (content c))) \<and>
    col_dim c' = col_dim c \<and> col_name c' = col_name c \<and> keys_of (col_indices c') = keys_of (col_indices c)"
proof -
  let ?t = "col_table c"
  have d: "distinct (keys_of (vectors ?t))" using col_wf_table [OF assms(1)] by simp
  obtain vs a u where f: "fold add_one_vector ivs (vectors ?t, 0, 0, []) = (vs, a, u, map fst ivs)"
    and m: "map_of vs = map_of (vectors ?t) ++ map_of (rev ivs)" and dv: "distinct (keys_of vs)"
    and sub: "set vs \<subseteq> set (vectors ?t) \<union> set ivs" and n: "a + u = int (length ivs)"
    and na: "a = int (length vs) - int (length (vectors ?t))"
    using add_fold [OF d, of ivs 0 0 "[]"] by auto
  let ?t' = "\<lparr>vectors = vs, vec_mutex = Free\<rparr>"
  have t': "table_wf (col_dim c) ?t'"
    using table_wf_subset [OF _ dv sub assms(2)] col_wf_table [OF assms(1)] by simp
  obtain ixs where ixs: "map_index_list (index_on_vectors_added ?t' (map fst ivs)) (col_indices c) = Returns ixs"
    "keys_of ixs = keys_of (col_indices c)" "list_all (\<lambda>p. index_wf (col_dim c) (snd p)) ixs"
  proof (rule exE [OF map_index_list_ok [of "col_indices c" "index_on_vectors_added ?t' (map fst ivs)" "index_wf (col_dim c)"]])
    fix n x assume "(n, x) \<in> set (col_indices c)"
    then have "index_wf (col_dim c) x" using assms(1) by (force simp: col_wf_def list_all_iff)
    then show "\<exists>y. index_on_vectors_added ?t' (map fst ivs) x = Returns y \<and> index_wf (col_dim c) y"
      using index_added_ok [OF t', of x] by simp
  qed auto
  let ?c = "c\<lparr>col_table := ?t', col_indices := ixs\<rparr>"
  have "add_vectors ivs c = Returns (?c, a, u)" using f ixs by (simp add: add_vectors_def)
  moreover have "col_wf ?c" using t' ixs assms(1) by (simp add: col_wf_def)
  moreover have "content ?c = content c ++ map_of (rev ivs)" using m by (simp add: content_def)
  moreover have "card (dom (content ?c)) = length vs" using dv by (simp add: content_card)
  ultimately show ?thesis using n na ixs(2) content_card [OF d] by auto
qed

lemma remove_vectors_refines':
  assumes "col_wf c"
    and "list_all (\<lambda>p. within_budget (card (set ids \<inter> dom (content c))) (snd p)) (col_indices c)"
  shows "\<exists>c'. remove_vectors ids c = Returns (c', card (set ids \<inter> dom (content c))) \<and> col_wf c' \<and>
    content c' = (content c) |` (- set ids) \<and> col_dim c' = col_dim c \<and> col_name c' = col_name c \<and>
    keys_of (col_indices c') = keys_of (col_indices c)"
proof -
  let ?t = "col_table c" and ?n = "card (set ids \<inter> dom (content c))"
  have d: "distinct (keys_of (vectors ?t))" using col_wf_table [OF assms(1)] by simp
  obtain vs rs where f: "fold remove_one_vector ids (vectors ?t, []) = (vs, rs)"
    and m: "map_of vs = (map_of (vectors ?t)) |` (- set ids)" and dv: "distinct (keys_of vs)"
    and sub: "set vs \<subseteq> set (vectors ?t)" and rs: "set rs = set ids \<inter> set (keys_of (vectors ?t))" "distinct rs"
    using remove_fold [OF d, of "[]" ids] by auto
  have n: "length rs = ?n"
    using rs by (simp add: content_def dom_map_of_conv_image_fst flip: distinct_card)
  have t': "table_wf (col_dim c) \<lparr>vectors = vs, vec_mutex = Free\<rparr>"
    using table_wf_subset [OF _ dv, of _ ?t "[]"] sub col_wf_table [OF assms(1)] by simp
  let ?f = "map_index_list (index_on_vectors_removed \<lparr>vectors = vs, vec_mutex = Exclusive\<rparr> rs) (col_indices c)"
  obtain ixs where ixs: "(if rs \<noteq> [] then ?f else Returns (col_indices c)) = Returns ixs"
    "keys_of ixs = keys_of (col_indices c)" "list_all (\<lambda>p. index_wf (col_dim c) (snd p)) ixs"
  proof (rule exE [OF map_index_list_ok [of "col_indices c"
        "index_on_vectors_removed \<lparr>vectors = vs, vec_mutex = Exclusive\<rparr> rs" "index_wf (col_dim c)"]])
    fix n x assume "(n, x) \<in> set (col_indices c)"
    then have "index_wf (col_dim c) x" "within_budget (length rs) x"
      using assms n by (force simp: col_wf_def list_all_iff)+
    then show "\<exists>y. index_on_vectors_removed \<lparr>vectors = vs, vec_mutex = Exclusive\<rparr> rs x = Returns y \<and> index_wf (col_dim c) y"
      by (rule index_removed_ok)
  next
    fix ys
    assume "?f = Returns ys \<and> keys_of ys = keys_of (col_indices c) \<and> list_all (\<lambda>p. index_wf (col_dim c) (snd p)) ys"
    then show thesis using that [of "if rs \<noteq> [] then ys else col_indices c"] assms(1)
      by (cases "rs = []") (auto simp: col_wf_def)
  qed
  let ?c = "c\<lparr>col_table := \<lparr>vectors = vs, vec_mutex = Free\<rparr>, col_indices := ixs\<rparr>"
  have "remove_vectors ids c = Returns (?c, ?n)" using f ixs(1) n by (simp add: remove_vectors_def)
  moreover have "col_wf ?c" using t' ixs assms(1) by (simp add: col_wf_def)
  ultimately show ?thesis using m ixs(2) by (auto simp: content_def)
qed

subsection \<open>Properties\<close>

text \<open>
  C16. Adding vectors of the right dimension returns, keeps the collection's invariant, and its effect
  on the content is that of a map update in which the last of several vectors with one id wins. The
  two counts are those of the new and of the overwritten ids.
\<close>

theorem add_vectors_refines:
  assumes "col_wf c" "list_all (\<lambda>p. fv_wf (snd p) \<and> fv_dim (snd p) = col_dim c) ivs"
  shows "\<exists>c' added updated. add_vectors ivs c = Returns (c', added, updated) \<and> col_wf c' \<and>
    content c' = content c ++ map_of (rev ivs) \<and> added + updated = int (length ivs) \<and>
    added = int (card (dom (content c'))) - int (card (dom (content c))) \<and>
    col_dim c' = col_dim c \<and> col_name c' = col_name c \<and> keys_of (col_indices c') = keys_of (col_indices c)"
  by (rule add_vectors_refines' [OF assms])

theorem add_vectors_refines_witness:
  "\<exists>c' added updated. add_vectors [(3, sample_vector 0), (3, sample_vector 1)] (collection_new 1 ''c'') =
      Returns (c', added, updated) \<and> col_wf c' \<and>
    content c' = content (collection_new 1 ''c'') ++ map_of (rev [(3, sample_vector 0), (3, sample_vector 1)]) \<and>
    added + updated = int (length [(3 :: id_t, sample_vector 0), (3, sample_vector 1)]) \<and>
    added = int (card (dom (content c'))) - int (card (dom (content (collection_new 1 ''c'')))) \<and>
    col_dim c' = col_dim (collection_new 1 ''c'') \<and> col_name c' = col_name (collection_new 1 ''c'') \<and>
    keys_of (col_indices c') = keys_of (col_indices (collection_new 1 ''c''))"
  by (rule add_vectors_refines) (simp_all add: collection_new_wf, simp add: collection_new_def)

definition sample_collection :: collection where
  "sample_collection = \<lparr>col_dim = 1, col_name = ''c'', col_table = sample_table Free, col_indices = [(''i'', Ivf_ix (sample_ivf 0))]\<rparr>"

lemma sample_collection_simps [simp]:
  "col_dim sample_collection = 1" "col_name sample_collection = ''c''" "col_table sample_collection = sample_table Free"
  "col_indices sample_collection = [(''i'', Ivf_ix (sample_ivf 0))]"
  by (simp_all add: sample_collection_def)

lemma sample_collection_wf: "col_wf sample_collection"
  by (simp add: col_wf_def index_wf_def)

text \<open>
  C17. Removing ids returns when no IVF index reaches its rebuild threshold; it keeps the invariant,
  restricts the content to the other ids and counts the ids that were there, each once.
\<close>

theorem remove_vectors_refines:
  assumes "col_wf c"
    and "list_all (\<lambda>p. within_budget (card (set ids \<inter> dom (content c))) (snd p)) (col_indices c)"
  shows "\<exists>c'. remove_vectors ids c = Returns (c', card (set ids \<inter> dom (content c))) \<and> col_wf c' \<and>
    content c' = (content c) |` (- set ids) \<and> col_dim c' = col_dim c \<and> col_name c' = col_name c \<and>
    keys_of (col_indices c') = keys_of (col_indices c)"
  by (rule remove_vectors_refines' [OF assms])

theorem remove_vectors_refines_witness:
  "\<exists>c'. remove_vectors [7, 7, 8] sample_collection =
      Returns (c', card (set [7 :: id_t, 7, 8] \<inter> dom (content sample_collection))) \<and> col_wf c' \<and>
    content c' = (content sample_collection) |` (- set [7 :: id_t, 7, 8]) \<and> col_dim c' = col_dim sample_collection \<and>
    col_name c' = col_name sample_collection \<and> keys_of (col_indices c') = keys_of (col_indices sample_collection)"
proof (rule remove_vectors_refines)
  have "set [7 :: id_t, 7, 8] \<inter> dom (content sample_collection) = {7}" by (auto simp: content_def split: if_splits)
  then show "list_all (\<lambda>p. within_budget (card (set [7 :: id_t, 7, 8] \<inter> dom (content sample_collection))) (snd p))
      (col_indices sample_collection)"
    by (simp add: within_budget_def)
qed (rule sample_collection_wf)

lemma map_index_list_blocks:
  assumes "(n, x) \<in> set xs" "f x = Blocks" "\<And>n y. (n, y) \<in> set xs \<Longrightarrow> f y = Blocks \<or> (\<exists>z. f y = Returns z)"
  shows "map_index_list f xs = Blocks"
  using assms
proof (induction xs)
  case (Cons p xs)
  obtain m y where p: "p = (m, y)" by (cases p)
  then have "f y = Blocks \<or> (\<exists>z. f y = Returns z)" using Cons.prems by auto
  moreover have "map_index_list f xs = Blocks" if "f y \<noteq> Blocks"
    using that Cons p by auto
  ultimately show ?case using p by auto
qed simp

lemma removed_exclusive:
  "index_on_vectors_removed \<lparr>vectors = vs, vec_mutex = Exclusive\<rparr> is x = Blocks \<or>
   (\<exists>y. index_on_vectors_removed \<lparr>vectors = vs, vec_mutex = Exclusive\<rparr> is x = Returns y)"
  by (cases x) (auto simp: index_on_vectors_removed_def ivf_on_vectors_removed_def ivf_build_def blocked_table)

text \<open>
  C37. When at least one of the ids is stored and an IVF index of the collection reaches its rebuild
  threshold, the removal never returns: the thread waits for the mutex that it holds itself.
\<close>

theorem remove_vectors_deadlock:
  assumes "col_wf c" "(name, Ivf_ix x) \<in> set (col_indices c)" "clusters x \<noteq> []"
    and "set ids \<inter> dom (content c) \<noteq> {}"
    and "i_rebuild_threshold (ivf_params x) \<le> since_rebuild x + word_of_nat (card (set ids \<inter> dom (content c)))"
  shows "remove_vectors ids c = Blocks"
proof -
  let ?t = "col_table c"
  have d: "distinct (keys_of (vectors ?t))" using col_wf_table [OF assms(1)] by simp
  obtain vs rs where f: "fold remove_one_vector ids (vectors ?t, []) = (vs, rs)"
    and rs: "set rs = set ids \<inter> set (keys_of (vectors ?t))" "distinct rs"
    using remove_fold [OF d, of "[]" ids] by auto
  let ?e = "\<lparr>vectors = vs, vec_mutex = Exclusive\<rparr>"
  have n: "set rs = set ids \<inter> dom (content c)" "length rs = card (set ids \<inter> dom (content c))"
    using rs by (simp_all add: content_def dom_map_of_conv_image_fst flip: distinct_card)
  have "ivf_on_vectors_removed (Some ?e) rs x = Blocks"
    using assms(3,5) n by (simp add: ivf_on_vectors_removed_def ivf_build_def blocked_table)
  then have "index_on_vectors_removed ?e rs (Ivf_ix x) = Blocks" by (simp add: index_on_vectors_removed_def)
  with assms(2) have "map_index_list (index_on_vectors_removed ?e rs) (col_indices c) = Blocks"
    by (rule map_index_list_blocks) (rule removed_exclusive)
  then show ?thesis using f n assms(4) by (auto simp: remove_vectors_def)
qed

theorem remove_vectors_deadlock_witness:
  "remove_vectors [7] (sample_collection\<lparr>col_indices := [(''i'', Ivf_ix (sample_ivf 9))]\<rparr>) = Blocks"
proof (rule remove_vectors_deadlock [where name = "''i''" and x = "sample_ivf 9"])
  let ?c = "sample_collection\<lparr>col_indices := [(''i'', Ivf_ix (sample_ivf 9))]\<rparr>"
  have e: "set [7 :: id_t] \<inter> dom (content ?c) = {7}" by (auto simp: content_def split: if_splits)
  show "col_wf ?c" by (simp add: col_wf_def index_wf_def)
  show "set [7 :: id_t] \<inter> dom (content ?c) \<noteq> {}" "i_rebuild_threshold (ivf_params (sample_ivf 9)) \<le>
      since_rebuild (sample_ivf 9) + word_of_nat (card (set [7 :: id_t] \<inter> dom (content ?c)))"
    unfolding e by simp_all
qed simp_all

text \<open>
  A vector that was just added is found: without an index of that name, the search for it returns
  a vector at distance zero first, whatever the collection held before.
\<close>

lemma added_vector_found:
  assumes "col_wf c" "list_all (\<lambda>p. fv_finite (snd p)) (vectors (col_table c))"
    and "fv_wf v" "fv_dim v = col_dim c" "fv_finite v" "0 < k" "map_of (col_indices c) name = None"
  shows "\<exists>c' n s rs. add_vectors [(i, v)] c = Returns (c', n) \<and>
    search_for_top_k lv v k r name c' = Returns (c', True, s # rs) \<and> rank (fst s) = 0"
proof -
  have "list_all (\<lambda>p. fv_wf (snd p) \<and> fv_dim (snd p) = col_dim c) [(i, v)]" using assms(3,4) by simp
  from add_vectors_refines' [OF assms(1) this] obtain c' a u where c': "add_vectors [(i, v)] c = Returns (c', a, u)"
    "col_wf c'" "content c' = (content c)(i \<mapsto> v)" "col_dim c' = col_dim c"
    "keys_of (col_indices c') = keys_of (col_indices c)" by auto
  have "fv_finite w" if "(j, w) \<in> set (vectors (col_table c'))" for j w
  proof -
    have "content c' j = Some w" using that c'(2) by (simp add: content_def col_wf_def table_wf_def)
    then have "w = v \<or> (j, w) \<in> set (vectors (col_table c))"
      using c'(3) by (auto simp: content_def split: if_splits dest: map_of_SomeD)
    then show ?thesis using assms(2,5) by (auto simp: list_all_iff)
  qed
  then have s: "searchable v (locked Shared (col_table c'))"
    using c'(2,4) assms(3-5) by (auto simp: searchable_def locked_def col_wf_def table_wf_def list_all_iff)
  have "map_of (vectors (locked Shared (col_table c'))) i = Some v"
    using c'(3) by (simp add: locked_def content_def)
  from stored_vector_first [OF s this assms(6), of r] obtain x xs where
    "exact_search (Some (locked Shared (col_table c'))) v k r = Returns (True, x # xs)" "rank (fst x) = 0" by blast
  moreover have "map_of (col_indices c') name = None"
    using c'(5) assms(7) by (metis map_of_eq_None_iff set_map)
  ultimately have "search_for_top_k lv v k r name c' = Returns (c', True, x # xs)" by (simp add: search_for_top_k_def)
  then show ?thesis using c'(1) \<open>rank (fst x) = 0\<close> by blast
qed

lemma added_vector_found_instance:
  "\<exists>c' n s rs. add_vectors [(7, sample_vector 0)] sample_collection = Returns (c', n) \<and>
    search_for_top_k (\<lambda>_ _. 0) (sample_vector 0) 3 [] ''j'' c' = Returns (c', True, s # rs) \<and> rank (fst s) = 0"
  by (rule added_vector_found) (simp_all add: sample_collection_wf fp_eval)

subsection \<open>Round trip\<close>

lemma index_type_codes [simp]: "index_type_code hnsw = 1" "index_type_code ivf_flat = 0"
  by (simp_all add: index_type_code_def)

interpretation entryc: codec "\<lambda>p. write_u64 (fst p) @ fv_bytes (snd p)" read_vector_entry "\<lambda>p. fv_ok (snd p)"
  by unfold_locales (auto simp: read_vector_entry_def u64c.dec_enc fvc.dec_enc)

text \<open>An index whose parameters can be read back and that can be built over the table.\<close>

definition storable :: "vec_table \<Rightarrow> index \<Rightarrow> bool" where
  "storable t ix =
     (case ix of
        Ivf_ix x \<Rightarrow> get_distance_instance (i_dist (ivf_params x)) \<noteq> None
      | Hnsw_ix x \<Rightarrow> hnsw_params_ok (hx_params x) \<and> h_M (hx_params x) \<noteq> 1 \<and> all_rankable (h_dist (hx_params x)) t)"

definition same_kind :: "u32 \<Rightarrow> index \<Rightarrow> index \<Rightarrow> bool" where
  "same_kind d x y \<longleftrightarrow> index_type_of x = index_type_of y \<and> index_params_of x = index_params_of y \<and> index_wf d y"

lemma index_read_back:
  assumes "table_wf d t" "vec_mutex t \<noteq> Exclusive" "storable t ix"
  shows "\<exists>x y. index_deserialize t (write_u8 (index_type_code (index_type_of ix)) @ params_bytes (index_params_of ix) @ rest) =
      Returns (Some x, rest) \<and> index_init t lv x = Returns y \<and> same_kind d ix y"
proof (cases ix)
  case (Ivf_ix x)
  then have "get_distance_instance (i_dist (ivf_params x)) \<noteq> None" using assms(3) by (simp add: storable_def)
  then have "dist_ok (i_dist (ivf_params x))" and
    "\<exists>y. ivf_build (Some t) (ivf_new (ivf_params x)) = Returns y \<and> ivf_params y = ivf_params x \<and> ivf_wf d y"
    using known_dist_ok ivf_build_ok [OF assms(1,2), of "ivf_new (ivf_params x)"] by (auto simp: ivf_new_def)
  then show ?thesis using Ivf_ix
    by (auto simp: index_deserialize_def u8c.dec_enc ivfc.dec_enc index_type_of_def index_params_of_def params_bytes_def
        index_init_def ivf_init_def same_kind_def index_wf_def)
next
  case (Hnsw_ix x)
  then have p: "hnsw_params_ok (hx_params x)" "h_M (hx_params x) \<noteq> 1" "all_rankable (h_dist (hx_params x)) t"
    using assms(3) by (auto simp: storable_def)
  obtain z where z: "hnsw_new (Some t) (hx_params x) = Returns z" "hx_params z = hx_params x"
    by (simp add: hnsw_new_def)
  with p obtain y where y: "hnsw_init (Some t) lv z = Returns y" "hx_params y = hx_params x"
    using hnsw_init_ok [of z t lv] by auto
  show ?thesis using Hnsw_ix p(1) z y
    by (intro exI [of _ "Hnsw_ix z"] exI [of _ "Hnsw_ix y"])
      (simp add: index_deserialize_def u8c.dec_enc hnswc.dec_enc index_type_of_def index_params_of_def params_bytes_def
        index_init_def same_kind_def index_wf_def)
qed

lemma update_new: "k \<notin> set (keys_of xs) \<Longrightarrow> AList.update k v xs = xs @ [(k, v)]"
  by (induction xs) auto

lemma read_indices_back:
  assumes "table_wf d t" "vec_mutex t \<noteq> Exclusive" "list_all (\<lambda>p. string_ok (fst p) \<and> storable t (snd p)) xs"
    and "distinct (keys_of (acc @ xs))"
  shows "\<exists>ys. read_indices t lv (length xs) acc (concat (map index_entry_bytes xs) @ rest) = Returns (acc @ ys, rest) \<and>
    keys_of ys = keys_of xs \<and> list_all2 (\<lambda>p q. same_kind d (snd p) (snd q)) xs ys"
  using assms(3,4)
proof (induction xs arbitrary: acc)
  case (Cons p xs)
  obtain n ix where p: "p = (n, ix)" by (cases p)
  let ?r = "concat (map index_entry_bytes xs) @ rest"
  from Cons.prems p obtain x y where
    xy: "index_deserialize t (write_u8 (index_type_code (index_type_of ix)) @ params_bytes (index_params_of ix) @ ?r) =
      Returns (Some x, ?r) \<and> index_init t (lv n) x = Returns y \<and> same_kind d ix y"
    using index_read_back [OF assms(1,2), of ix ?r "lv n"] by auto
  have "distinct (keys_of ((acc @ [(n, y)]) @ xs))" using Cons.prems p by simp
  with Cons.IH [of "acc @ [(n, y)]"] Cons.prems(1) obtain ys where
    "read_indices t lv (length xs) (acc @ [(n, y)]) ?r = Returns ((acc @ [(n, y)]) @ ys, rest)"
    "keys_of ys = keys_of xs" "list_all2 (\<lambda>p q. same_kind d (snd p) (snd q)) xs ys" by auto
  moreover have "AList.update n y acc = acc @ [(n, y)]" using Cons.prems(2) p by (intro update_new) auto
  ultimately show ?case using xy Cons.prems(1)
    by (intro exI [of _ "(n, y) # ys"]) (simp add: p index_entry_bytes_def [of "(n, ix)"] strc.dec_enc)
qed simp

lemma fold_emplace:
  "distinct (keys_of (acc @ ps)) \<Longrightarrow> fold (\<lambda>p vs. map_emplace (fst p) (snd p) vs) ps acc = acc @ ps"
proof (induction ps arbitrary: acc)
  case (Cons p ps)
  then have "map_of acc (fst p) = None" by (auto simp: map_of_eq_None_iff)
  then have "map_emplace (fst p) (snd p) acc = acc @ [p]" by (simp add: map_emplace_def)
  then show ?case using Cons.IH [of "acc @ [p]"] Cons.prems by simp
qed simp

lemma list_all2_params:
  "list_all2 (\<lambda>p q. same_kind d (snd p) (snd q)) xs ys \<Longrightarrow> keys_of ys = keys_of xs \<Longrightarrow>
     map_option (\<lambda>x. (index_type_of x, index_params_of x)) (map_of ys n) =
     map_option (\<lambda>x. (index_type_of x, index_params_of x)) (map_of xs n)"
  by (induction xs ys rule: list_all2_induct) (auto simp: same_kind_def)

definition col_storable :: "collection \<Rightarrow> bool" where
  "col_storable c \<longleftrightarrow>
     string_ok (col_name c) \<and> length (vectors (col_table c)) < 2 ^ 32 \<and> length (col_indices c) < 2 ^ 32 \<and>
     list_all (\<lambda>p. fv_ok (snd p)) (vectors (col_table c)) \<and>
     list_all (\<lambda>p. string_ok (fst p) \<and> storable (col_table c) (snd p)) (col_indices c)"

lemma get_index_params_map:
  "get_index_params n c =
     (case map_option (\<lambda>x. (index_type_of x, index_params_of x)) (map_of (col_indices c) n) of
        None \<Rightarrow> (unknown, None) | Some (ty, p) \<Rightarrow> (ty, Some p))"
  by (simp add: get_index_params_def split: option.splits)

definition collection_bytes :: "collection \<Rightarrow> byte list" where
  "collection_bytes c =
     write_string (col_name c) @ write_u32 (col_dim c) @ write_u32 (word_of_nat (length (vectors (col_table c)))) @
     concat (map (\<lambda>p. write_u64 (fst p) @ fv_bytes (snd p)) (vectors (col_table c))) @
     write_u32 (word_of_nat (length (col_indices c))) @ concat (map index_entry_bytes (col_indices c))"

lemma collection_serialize_wf:
  assumes "col_wf c"
  shows "collection_serialize c = Returns (collection_bytes c)"
proof -
  have "vector_entry_bytes p = Returns (write_u64 (fst p) @ fv_bytes (snd p))" if "p \<in> set (vectors (col_table c))" for p
    using that assms by (auto simp: vector_entry_bytes_def fv_serialize_wf col_wf_def table_wf_def list_all_iff)
  then have "map_outcome_list vector_entry_bytes (vectors (col_table c)) =
      Returns (map (\<lambda>p. write_u64 (fst p) @ fv_bytes (snd p)) (vectors (col_table c)))"
    by (rule map_outcome_list_Returns)
  then show ?thesis by (simp add: collection_serialize_def collection_bytes_def)
qed

lemma unat_count: "n < 2 ^ 32 \<Longrightarrow> unat (word_of_nat n :: u32) = n"
  by (simp add: unat_of_nat)

text \<open>What is the same in a collection and in the one that is read back from its bytes.\<close>

definition same_collection :: "collection \<Rightarrow> collection \<Rightarrow> bool" where
  "same_collection c c' \<longleftrightarrow>
     content c' = content c \<and> col_dim c' = col_dim c \<and> col_name c' = col_name c \<and>
     set (keys_of (col_indices c')) = set (keys_of (col_indices c)) \<and>
     (\<forall>i. get_index_params i c' = get_index_params i c)"

lemma collection_read_back:
  assumes "col_wf c" "col_storable c"
  shows "\<exists>c'. collection_deserialize lv (collection_bytes c @ rest) = Returns (c', rest) \<and> col_wf c' \<and>
    same_collection c c' \<and> vectors (col_table c') = vectors (col_table c) \<and> keys_of (col_indices c') = keys_of (col_indices c)"
proof -
  let ?t = "col_table c" and ?xs = "col_indices c"
  let ?t' = "\<lparr>vectors = vectors ?t, vec_mutex = Free\<rparr>"
  have "vec_mutex ?t = Free" using assms(1) by (simp add: col_wf_def)
  then have t: "?t' = ?t" by (cases ?t) simp
  have wf: "table_wf (col_dim c) ?t'" and d: "distinct (keys_of ?xs)"
    unfolding t using assms(1) by (simp_all add: col_wf_def)
  have st: "list_all (\<lambda>p. string_ok (fst p) \<and> storable ?t' (snd p)) ?xs"
    using assms(2) t by (simp add: col_storable_def)
  obtain ys where ys: "read_indices ?t' lv (length ?xs) [] (concat (map index_entry_bytes ?xs) @ rest) = Returns (ys, rest)"
    "keys_of ys = keys_of ?xs" "list_all2 (\<lambda>p q. same_kind (col_dim c) (snd p) (snd q)) ?xs ys"
    using read_indices_back [OF wf _ st, of "[]" lv rest] d by auto
  let ?c = "(collection_new (col_dim c) (col_name c))\<lparr>col_table := ?t', col_indices := ys\<rparr>"
  have e: "fold (\<lambda>p vs. map_emplace (fst p) (snd p) vs) (vectors ?t) [] = vectors ?t"
    using fold_emplace [of "[]" "vectors ?t"] wf by (simp add: table_wf_def)
  have v: "read_n read_vector_entry (length (vectors ?t))
      (concat (map (\<lambda>p. write_u64 (fst p) @ fv_bytes (snd p)) (vectors ?t)) @ r) = Returns (vectors ?t, r)" for r
    using assms(2) by (intro entryc.read_n_enc) (simp add: col_storable_def)
  have n: "length (vectors ?t) < 2 ^ 32" "length ?xs < 2 ^ 32" "string_ok (col_name c)"
    using assms(2) by (auto simp: col_storable_def)
  have "collection_deserialize lv (collection_bytes c @ rest) = Returns (?c, rest)"
    by (simp add: collection_deserialize_def collection_bytes_def strc.dec_enc n u32c.dec_enc unat_count [OF n(1)]
        unat_count [OF n(2)] v e ys(1))
  moreover have "list_all (\<lambda>p. index_wf (col_dim c) (snd p)) ys"
    using ys(3) by (induction rule: list_all2_induct) (auto simp: same_kind_def)
  then have "col_wf ?c" using wf ys(2) d by (simp add: col_wf_def collection_new_def)
  moreover have "get_index_params m ?c = get_index_params m c" for m
    using list_all2_params [OF ys(3,2), of m] by (simp add: get_index_params_map)
  moreover have "fst ` set ys = fst ` set ?xs" using ys(2) by (metis list.set_map)
  ultimately show ?thesis using ys(2)
    by (intro exI [of _ ?c]) (simp add: same_collection_def content_def collection_new_def)
qed

text \<open>
  C15. A collection is read back from a stream as it was written: the same vectors, name and dimension
  and the same indices, rebuilt from the same parameters.
\<close>

theorem collection_roundtrip:
  assumes "col_wf c" "col_storable c"
  shows "\<exists>bs c'. collection_serialize c = Returns bs \<and> collection_deserialize lv (bs @ rest) = Returns (c', rest) \<and>
    col_wf c' \<and> same_collection c c'"
  using collection_serialize_wf [OF assms(1)] collection_read_back [OF assms, of lv rest] by blast

theorem collection_roundtrip_witness:
  "\<exists>bs c'. collection_serialize sample_collection = Returns bs \<and>
    collection_deserialize (\<lambda>_ _. 0) (bs @ []) = Returns (c', []) \<and> col_wf c' \<and> same_collection sample_collection c'"
  by (rule collection_roundtrip [OF sample_collection_wf])
    (simp add: col_storable_def string_ok_def storable_def fv_ok_def meta_ok_def get_distance_instance_def, simp add: sample_vector_def)

end
