(* ===== verification/Database.thy ===== *)
theory Database
  imports Status Collection
begin

text \<open>
  \<^verbatim>\<open>include/core/database.h\<close> and \<^verbatim>\<open>impl/core/database.cpp\<close>: the collections by name. One operation runs
  at a time, so \<^verbatim>\<open>mutex_\<close> is free when it starts; it is never taken twice by one operation and is left
  to \<open>Locking\<close>. The logger is left out. \<open>lvs\<close> gives the levels that HNSW indices draw, by collection and
  index name.
\<close>

record database =
  collections :: "(string \<times> collection) list"

definition database_new :: database where
  "database_new = \<lparr>collections = []\<rparr>"

text \<open>A collection is shared by pointer: changing it changes the entry of the map.\<close>

definition put_collection :: "string \<Rightarrow> collection \<Rightarrow> database \<Rightarrow> database" where
  "put_collection name c db = db\<lparr>collections := AList.update name c (collections db)\<rparr>"

subsection \<open>Operations\<close>

definition db_add_vectors ::
  "string \<Rightarrow> (id_t \<times> float_vector) list \<Rightarrow> database \<Rightarrow> (database \<times> status) outcome" where
  "db_add_vectors name vs db =
     (if is_collection_name_valid name \<noteq> success then Returns (db, is_collection_name_valid name)
      else
        (case map_of (collections db) name of
           None \<Rightarrow> Returns (db, collection_does_not_exist)
         | Some c \<Rightarrow>
             if list_ex (\<lambda>p. fv_dim (snd p) \<noteq> col_dim c) vs then Returns (db, vector_dimension_mismatch)
             else obind (add_vectors vs c) (\<lambda>(c', added, updated). Returns (put_collection name c' db, success))))"

text \<open>\<^verbatim>\<open>collection_properties\<close> as a pair of dimension and name.\<close>

definition get_all_collections :: "database \<Rightarrow> (string \<times> u32 \<times> string) list result" where
  "get_all_collections db =
     result_of success (map (\<lambda>(n, c). (n, col_dim c, col_name c)) (collections db))"

definition get_collection_info :: "string \<Rightarrow> database \<Rightarrow> (u32 \<times> string) result" where
  "get_collection_info name db =
     (if is_collection_name_valid name \<noteq> success then fail_with (is_collection_name_valid name)
      else
        (case map_of (collections db) name of
           None \<Rightarrow> fail_with collection_does_not_exist
         | Some c \<Rightarrow> result_of success (col_dim c, col_name c)))"

definition add_collection :: "string \<Rightarrow> u32 \<Rightarrow> database \<Rightarrow> database \<times> status" where
  "add_collection name dimension db =
     (if is_collection_name_valid name \<noteq> success then (db, is_collection_name_valid name)
      else
        (case map_of (collections db) name of
           Some _ \<Rightarrow> (db, collection_already_exists)
         | None \<Rightarrow> (db\<lparr>collections := map_emplace name (collection_new dimension name) (collections db)\<rparr>, success)))"

definition delete_collection :: "string \<Rightarrow> database \<Rightarrow> database \<times> status" where
  "delete_collection name db =
     (if is_collection_name_valid name \<noteq> success then (db, is_collection_name_valid name)
      else
        (case map_of (collections db) name of
           None \<Rightarrow> (db, collection_does_not_exist)
         | Some _ \<Rightarrow> (db\<lparr>collections := AList.delete name (collections db)\<rparr>, success)))"

text \<open>The index name is the default argument, the empty string; the returned \<^verbatim>\<open>bool\<close> is ignored.\<close>

definition get_nearest_k ::
  "(string \<Rightarrow> string \<Rightarrow> id_t \<Rightarrow> nat) \<Rightarrow> string \<Rightarrow> float_vector \<Rightarrow> u32 \<Rightarrow> database \<Rightarrow>
   (database \<times> score list result) outcome" where
  "get_nearest_k lvs name query k db =
     (if is_collection_name_valid name \<noteq> success then Returns (db, fail_with (is_collection_name_valid name))
      else
        (case map_of (collections db) name of
           None \<Rightarrow> Returns (db, fail_with collection_does_not_exist)
         | Some c \<Rightarrow>
             obind (search_for_top_k (lvs name) query k [] [] c) (\<lambda>(c', ok, rs).
               Returns (put_collection name c' db, result_of success rs))))"

definition delete_vectors :: "string \<Rightarrow> id_t list \<Rightarrow> database \<Rightarrow> (database \<times> status) outcome" where
  "delete_vectors name ids db =
     (if is_collection_name_valid name \<noteq> success then Returns (db, is_collection_name_valid name)
      else
        (case map_of (collections db) name of
           None \<Rightarrow> Returns (db, collection_does_not_exist)
         | Some c \<Rightarrow>
             obind (remove_vectors ids c) (\<lambda>(c', n). Returns (put_collection name c' db, success))))"

definition db_add_index ::
  "(string \<Rightarrow> string \<Rightarrow> id_t \<Rightarrow> nat) \<Rightarrow> string \<Rightarrow> string \<Rightarrow> index_type \<Rightarrow> params option \<Rightarrow> database \<Rightarrow>
   (database \<times> status) outcome" where
  "db_add_index lvs name index_name ty p db =
     (if is_collection_name_valid name \<noteq> success then Returns (db, is_collection_name_valid name)
      else
        (case map_of (collections db) name of
           None \<Rightarrow> Returns (db, collection_does_not_exist)
         | Some c \<Rightarrow>
             obind (add_index (lvs name) index_name ty p c) (\<lambda>(c', ok). Returns (put_collection name c' db, success))))"

definition db_get_index_params :: "string \<Rightarrow> string \<Rightarrow> database \<Rightarrow> (index_type \<times> params option) result" where
  "db_get_index_params name index_name db =
     (if is_collection_name_valid name \<noteq> success then fail_with (is_collection_name_valid name)
      else
        (case map_of (collections db) name of
           None \<Rightarrow> fail_with collection_does_not_exist
         | Some c \<Rightarrow>
             (let params_pair = get_index_params index_name c
              in if snd params_pair \<noteq> None then result_of success params_pair
                 else fail_with index_does_not_exist)))"

subsection \<open>Storage\<close>

text \<open>
  The storage directory holds regular files by name; \<open>None\<close> is a directory that does not exist. The
  file system decides which files can be opened or renamed, whether the directory can be created and how
  many bytes it takes for a file (\<open>room\<close>, \<open>None\<close> when no write fails). A write that fails sets the bad bit of
  the stream, which drops all that is written later; the code does not look at it. Names are taken to
  be single path components, as the names that \<open>is_collection_name_valid\<close> admits are.
\<close>

type_synonym files = "(string \<times> byte list) list"

record fs_env =
  can_create :: bool
  can_open :: "string \<Rightarrow> bool"
  can_rename :: "string \<Rightarrow> bool"
  room :: "string \<Rightarrow> nat option"

text \<open>What of the bytes that are written to a new file gets there.\<close>

definition written :: "fs_env \<Rightarrow> string \<Rightarrow> byte list \<Rightarrow> byte list" where
  "written e f bs = (case room e f of None \<Rightarrow> bs | Some n \<Rightarrow> take n bs)"

text \<open>
  \<^verbatim>\<open>path::extension\<close> and \<^verbatim>\<open>path::stem\<close> of a file name: they part at the last dot, unless there is
  none, or only a leading one, or the name is \<^verbatim>\<open>..\<close>.
\<close>

definition split_name :: "string \<Rightarrow> string \<times> string" where
  "split_name f =
     (let ext = rev (takeWhile (\<lambda>c. c \<noteq> CHR ''.'') (rev f));
          stem = take (length f - length ext - 1) f
      in if CHR ''.'' \<notin> set f \<or> stem = [] \<or> f = ''..'' then (f, []) else (stem, CHR ''.'' # ext))"

text \<open>The new extension gets a dot unless it has one or is empty.\<close>

definition replace_extension :: "string \<Rightarrow> string \<Rightarrow> string" where
  "replace_extension f ext =
     fst (split_name f) @ (if ext = [] \<or> hd ext = CHR ''.'' then ext else CHR ''.'' # ext)"

text \<open>Serialization cannot throw, so every exception of the loop comes from \<^verbatim>\<open>rename\<close>.\<close>

fun save_loop :: "fs_env \<Rightarrow> (string \<times> collection) list \<Rightarrow> files \<Rightarrow> (files \<times> status) outcome" where
  "save_loop e [] fs = Returns (fs, success)"
| "save_loop e ((name, c) # cs) fs =
     (let file_path = replace_extension name ''.db.tmp''; to_path = replace_extension file_path []
      in if \<not> can_open e file_path then save_loop e cs fs
         else
           obind (collection_serialize c) (\<lambda>bs.
           if can_rename e file_path
           then save_loop e cs (AList.update to_path (written e file_path bs) (AList.delete file_path fs))
           else Returns (AList.update file_path (written e file_path bs) fs, internal_error)))"

definition save :: "fs_env \<Rightarrow> files option \<Rightarrow> database \<Rightarrow> (files option \<times> status) outcome" where
  "save e storage db =
     (case storage of
        None \<Rightarrow>
          if can_create e
          then obind (save_loop e (collections db) []) (\<lambda>(fs, st). Returns (Some fs, st))
          else Returns (None, internal_error)
      | Some fs \<Rightarrow> obind (save_loop e (collections db) fs) (\<lambda>(fs', st). Returns (Some fs', st)))"

text \<open>What was loaded before an exception stays loaded.\<close>

fun load_loop ::
  "(string \<Rightarrow> string \<Rightarrow> id_t \<Rightarrow> nat) \<Rightarrow> fs_env \<Rightarrow> files \<Rightarrow> database \<Rightarrow> (database \<times> status) outcome" where
  "load_loop lvs e [] db = Returns (db, success)"
| "load_loop lvs e ((f, bs) # fs) db =
     (if snd (split_name f) = ''.db'' \<and> can_open e f then
        (case collection_deserialize (lvs f) bs of
           Returns (c, rest) \<Rightarrow> load_loop lvs e fs (put_collection (col_name c) c db)
         | Throws _ \<Rightarrow> Returns (db, internal_error)
         | Blocks \<Rightarrow> Blocks
         | Undefined \<Rightarrow> Undefined)
      else load_loop lvs e fs db)"

definition load ::
  "(string \<Rightarrow> string \<Rightarrow> id_t \<Rightarrow> nat) \<Rightarrow> fs_env \<Rightarrow> files option \<Rightarrow> database \<Rightarrow> (database \<times> status) outcome" where
  "load lvs e storage db =
     (case storage of None \<Rightarrow> Returns (db, success) | Some fs \<Rightarrow> load_loop lvs e fs db)"

subsection \<open>What the operations of a collection keep\<close>

text \<open>The parts of a collection that the database relies on, apart from its content.\<close>

definition same_frame :: "collection \<Rightarrow> collection \<Rightarrow> bool" where
  "same_frame c c' \<longleftrightarrow> col_dim c' = col_dim c \<and> col_name c' = col_name c \<and> (col_wf c \<longrightarrow> col_wf c')"

lemma map_index_list_keeps:
  assumes "map_index_list f xs = Returns ys" "\<And>n x y. (n, x) \<in> set xs \<Longrightarrow> f x = Returns y \<Longrightarrow> P y"
  shows "keys_of ys = keys_of xs \<and> list_all (\<lambda>p. P (snd p)) ys"
  using assms
proof (induction xs arbitrary: ys)
  case (Cons p xs)
  obtain n x where p: "p = (n, x)" by (cases p)
  obtain y zs where y: "f x = Returns y" "map_index_list f xs = Returns zs" "ys = (n, y) # zs"
    using Cons.prems(1) p by (auto simp: run)
  have "P y" using Cons.prems(2) y(1) p by auto
  then show ?case using Cons.IH [OF y(2)] Cons.prems(2) y(3) p by auto
qed simp

lemma index_removed_keeps:
  assumes "index_on_vectors_removed \<lparr>vectors = vs, vec_mutex = Exclusive\<rparr> is x = Returns y" "index_wf d x"
  shows "index_wf d y"
proof (cases x)
  case (Ivf_ix z)
  have "ivf_wf d (z\<lparr>since_rebuild := n\<rparr>)" for n using assms(2) Ivf_ix by (simp add: index_wf_def ivf_wf_def)
  then show ?thesis using assms Ivf_ix remove_incremental_wf
    by (auto simp: index_on_vectors_removed_def ivf_on_vectors_removed_def ivf_build_def blocked_table index_wf_def
        run split: if_splits)
next
  case (Hnsw_ix z)
  then show ?thesis using assms(1) by (auto simp: index_on_vectors_removed_def index_wf_def)
qed

lemma remove_vectors_keeps:
  assumes "remove_vectors ids c = Returns (c', n)" "col_wf c"
  shows "same_frame c c' \<and> content c' = (content c) |` (- set ids)"
proof -
  let ?t = "col_table c"
  have d: "distinct (keys_of (vectors ?t))" using col_wf_table [OF assms(2)] by simp
  obtain vs rs where f: "fold remove_one_vector ids (vectors ?t, []) = (vs, rs)"
    and m: "map_of vs = (map_of (vectors ?t)) |` (- set ids)" and dv: "distinct (keys_of vs)"
    and sub: "set vs \<subseteq> set (vectors ?t)"
    using remove_fold [OF d, of "[]" ids] by auto
  let ?f = "index_on_vectors_removed \<lparr>vectors = vs, vec_mutex = Exclusive\<rparr> rs"
  obtain ixs where ixs: "(if rs \<noteq> [] then map_index_list ?f (col_indices c) else Returns (col_indices c)) = Returns ixs"
    "c' = c\<lparr>col_table := \<lparr>vectors = vs, vec_mutex = Free\<rparr>, col_indices := ixs\<rparr>"
    using assms(1) f by (auto simp: remove_vectors_def run)
  have wf: "keys_of ixs = keys_of (col_indices c) \<and> list_all (\<lambda>p. index_wf (col_dim c) (snd p)) ixs"
  proof (cases "rs = []")
    case False
    have i: "index_wf (col_dim c) y" if "(m, x) \<in> set (col_indices c)" "?f x = Returns y" for m x y
      using index_removed_keeps [OF that(2)] that(1) assms(2) by (force simp: col_wf_def list_all_iff)
    have "map_index_list ?f (col_indices c) = Returns ixs" using ixs(1) False by simp
    then show ?thesis by (rule map_index_list_keeps) (rule i)
  qed (use ixs(1) assms(2) in \<open>simp add: col_wf_def\<close>)
  have "table_wf (col_dim c) \<lparr>vectors = vs, vec_mutex = Free\<rparr>"
    using table_wf_subset [OF _ dv, of _ ?t "[]"] sub col_wf_table [OF assms(2)] by simp
  then have "col_wf c'" using wf assms(2) by (simp add: col_wf_def ixs(2))
  then show ?thesis using m by (simp add: ixs(2) same_frame_def content_def)
qed

text \<open>The parameters for an index name a metric.\<close>

definition params_known :: "params option \<Rightarrow> bool" where
  "params_known p = (case p of Some (Ivf_params ip) \<Rightarrow> get_distance_instance (i_dist ip) \<noteq> None | _ \<Rightarrow> True)"

lemma build_index_keeps:
  assumes "build_index t lv ty p = Returns (Some ix)" "table_wf d t" "vec_mutex t = Free" "params_known p"
  shows "index_wf d ix"
proof (cases ix)
  case (Ivf_ix x)
  then obtain ip where ip: "p = Some (Ivf_params ip)" "ivf_build (Some t) (ivf_new ip) = Returns x"
    using assms(1) by (auto simp: build_index_def ivf_init_def run split: index_type.splits option.splits params.splits)
  then have "get_distance_instance (i_dist (ivf_params (ivf_new ip))) \<noteq> None"
    using assms(4) by (simp add: params_known_def ivf_new_def)
  from ivf_build_ok [OF assms(2) _ this] ip(2) assms(3) show ?thesis by (auto simp: Ivf_ix index_wf_def)
qed (simp add: index_wf_def)

lemma col_wf_indices:
  assumes "col_wf c" "list_all (\<lambda>p. index_wf (col_dim c) (snd p)) ixs" "distinct (keys_of ixs)"
  shows "col_wf (c\<lparr>col_indices := ixs\<rparr>)"
  using assms by (simp add: col_wf_def)

lemma add_index_keeps:
  assumes "add_index lv name ty p c = Returns (c', ok)" "params_known p"
  shows "same_frame c c' \<and> content c' = content c"
proof (cases "\<exists>ix. ok \<and> build_index (col_table c) (lv name) ty p = Returns (Some ix) \<and>
      c' = c\<lparr>col_indices := map_emplace name ix (col_indices c)\<rparr>")
  case True
  then obtain ix where ix: "build_index (col_table c) (lv name) ty p = Returns (Some ix)"
    "c' = c\<lparr>col_indices := map_emplace name ix (col_indices c)\<rparr>" by blast
  have "col_wf c'" if c: "col_wf c"
  proof -
    have "index_wf (col_dim c) ix" using build_index_keeps [OF ix(1) _ _ assms(2)] c by (auto simp: col_wf_def)
    then have "list_all (\<lambda>p. index_wf (col_dim c) (snd p)) (map_emplace name ix (col_indices c))"
      using c by (auto simp: map_emplace_def col_wf_def split: option.splits)
    then show ?thesis unfolding ix(2) by (rule col_wf_indices [OF c]) (use c in \<open>simp add: col_wf_def\<close>)
  qed
  then show ?thesis by (simp add: ix(2) same_frame_def content_def)
next
  case False
  then have "c' = c"
    using assms(1) by (cases "build_index (col_table c) (lv name) ty p")
      (auto simp: add_index_def split: if_splits option.splits)
  then show ?thesis by (simp add: same_frame_def)
qed

lemma search_keeps:
  assumes "search_for_top_k lv q k r name c = Returns (c', res)"
  shows "same_frame c c' \<and> content c' = content c"
proof (cases "\<exists>y. c' = c\<lparr>col_indices := AList.update name (Hnsw_ix y) (col_indices c)\<rparr>")
  case True
  then obtain y where y: "c' = c\<lparr>col_indices := AList.update name (Hnsw_ix y) (col_indices c)\<rparr>" by blast
  have "col_wf c'" if c: "col_wf c"
  proof -
    have "list_all (\<lambda>p. index_wf (col_dim c) (snd p)) (AList.update name (Hnsw_ix y) (col_indices c))"
      using c set_update_subset [of name "Hnsw_ix y" "col_indices c"]
      by (auto simp: col_wf_def list_all_iff index_wf_def)
    then show ?thesis unfolding y by (rule col_wf_indices [OF c]) (use c in \<open>simp add: col_wf_def\<close>)
  qed
  then show ?thesis by (simp add: y same_frame_def content_def)
next
  case False
  then have "c' = c"
    using assms by (auto simp: search_for_top_k_def run split: option.splits index.splits)
  then show ?thesis by (simp add: same_frame_def)
qed

subsection \<open>The abstract database\<close>

text \<open>Collections as maps: their dimension and their vectors by id.\<close>

type_synonym abstract_db = "string \<Rightarrow> (u32 \<times> (id_t \<Rightarrow> float_vector option)) option"

definition abs_db :: "database \<Rightarrow> abstract_db" where
  "abs_db db name = map_option (\<lambda>c. (col_dim c, content c)) (map_of (collections db) name)"

datatype request =
    Add_collection string u32
  | Delete_collection string
  | Add_vectors string "(id_t \<times> float_vector) list"
  | Delete_vectors string "id_t list"
  | Add_index string string index_type "params option"
  | Nearest string float_vector u32

primrec target :: "request \<Rightarrow> string" where
  "target (Add_collection n d) = n"
| "target (Delete_collection n) = n"
| "target (Add_vectors n vs) = n"
| "target (Delete_vectors n ids) = n"
| "target (Add_index n i ty p) = n"
| "target (Nearest n q k) = n"

primrec db_step ::
  "(string \<Rightarrow> string \<Rightarrow> id_t \<Rightarrow> nat) \<Rightarrow> request \<Rightarrow> database \<Rightarrow> (database \<times> status) outcome" where
  "db_step lvs (Add_collection n d) db = Returns (add_collection n d db)"
| "db_step lvs (Delete_collection n) db = Returns (delete_collection n db)"
| "db_step lvs (Add_vectors n vs) db = db_add_vectors n vs db"
| "db_step lvs (Delete_vectors n ids) db = delete_vectors n ids db"
| "db_step lvs (Add_index n i ty p) db = db_add_index lvs n i ty p db"
| "db_step lvs (Nearest n q k) db =
     obind (get_nearest_k lvs n q k db) (\<lambda>(db', r). Returns (db', res_status r))"

definition spec_step :: "request \<Rightarrow> abstract_db \<Rightarrow> abstract_db \<times> status" where
  "spec_step r a =
     (if is_collection_name_valid (target r) \<noteq> success then (a, is_collection_name_valid (target r))
      else
        (case (r, a (target r)) of
           (Add_collection n d, None) \<Rightarrow> (a(n \<mapsto> (d, Map.empty)), success)
         | (Add_collection n d, Some _) \<Rightarrow> (a, collection_already_exists)
         | (_, None) \<Rightarrow> (a, collection_does_not_exist)
         | (Delete_collection n, Some _) \<Rightarrow> (a(n := None), success)
         | (Add_vectors n vs, Some (d, m)) \<Rightarrow>
             if list_all (\<lambda>p. fv_dim (snd p) = d) vs then (a(n \<mapsto> (d, m ++ map_of (rev vs))), success)
             else (a, vector_dimension_mismatch)
         | (Delete_vectors n ids, Some (d, m)) \<Rightarrow> (a(n \<mapsto> (d, m |` (- set ids))), success)
         | (Add_index n i ty p, Some _) \<Rightarrow> (a, success)
         | (Nearest n q k, Some _) \<Rightarrow> (a, success)))"

definition db_wf :: "database \<Rightarrow> bool" where
  "db_wf db \<longleftrightarrow>
     distinct (keys_of (collections db)) \<and>
     list_all (\<lambda>p. is_collection_name_valid (fst p) = success \<and> col_name (snd p) = fst p \<and> col_wf (snd p))
       (collections db)"

definition request_ok :: "request \<Rightarrow> bool" where
  "request_ok r =
     (case r of
        Add_vectors n vs \<Rightarrow> list_all (\<lambda>p. fv_wf (snd p)) vs
      | Add_index n i ty p \<Rightarrow> params_known p
      | _ \<Rightarrow> True)"

lemma db_wf_lookup:
  "db_wf db \<Longrightarrow> map_of (collections db) n = Some c \<Longrightarrow>
     is_collection_name_valid n = success \<and> col_name c = n \<and> col_wf c"
  by (fastforce simp: db_wf_def list_all_iff dest: map_of_SomeD)

lemma put_collection_wf:
  assumes "db_wf db" "map_of (collections db) n = Some c" "same_frame c c'"
  shows "db_wf (put_collection n c' db)"
proof -
  have c: "is_collection_name_valid n = success \<and> col_name c = n \<and> col_wf c" by (rule db_wf_lookup [OF assms(1,2)])
  have "set (AList.update n c' (collections db)) \<subseteq> insert (n, c') (set (collections db))" by (rule set_update_subset)
  then show ?thesis using assms(1,3) c by (auto simp: db_wf_def put_collection_def same_frame_def list_all_iff)
qed

lemma abs_put_collection:
  "abs_db (put_collection n c db) = (abs_db db)(n \<mapsto> (col_dim c, content c))"
  by (simp add: abs_db_def put_collection_def fun_eq_iff)

lemma step_put:
  assumes "db_wf db" "map_of (collections db) n = Some c" "same_frame c c' \<and> content c' = m"
  shows "db_wf (put_collection n c' db) \<and> abs_db (put_collection n c' db) = (abs_db db)(n \<mapsto> (col_dim c, m))"
  using put_collection_wf [OF assms(1,2)] assms(3) by (simp add: abs_put_collection same_frame_def)

lemma add_vectors_keeps:
  assumes "add_vectors vs c = Returns (c', n)" "col_wf c" "list_all (\<lambda>p. fv_wf (snd p) \<and> fv_dim (snd p) = col_dim c) vs"
  shows "same_frame c c' \<and> content c' = content c ++ map_of (rev vs)"
  using add_vectors_refines' [OF assms(2,3)] assms(1) by (auto simp: same_frame_def)

text \<open>
  One step against the specification: by whether the name is valid, whether there is a collection of
  that name, and then by the request.
\<close>

lemma db_step_invalid:
  assumes "is_collection_name_valid (target r) \<noteq> success" "db_step lvs r db = Returns (db', st)"
  shows "db' = db \<and> spec_step r (abs_db db) = (abs_db db', st)"
  using assms by (cases r)
    (auto simp: add_collection_def delete_collection_def db_add_vectors_def delete_vectors_def db_add_index_def
      get_nearest_k_def spec_step_def)

lemma add_collection_step:
  assumes "db_wf db" "is_collection_name_valid n = success" "map_of (collections db) n = None"
    and "add_collection n d db = (db', st)"
  shows "st = success \<and> db_wf db' \<and> abs_db db' = (abs_db db)(n \<mapsto> (d, Map.empty))"
proof -
  have db': "db' = db\<lparr>collections := map_emplace n (collection_new d n) (collections db)\<rparr>" "st = success"
    using assms by (simp_all add: add_collection_def)
  have "abs_db db' = (abs_db db)(n \<mapsto> (d, Map.empty))"
    using assms(3) by (simp add: db' abs_db_def fun_eq_iff collection_new_def content_def)
  moreover have "map_emplace n (collection_new d n) (collections db) = collections db @ [(n, collection_new d n)]"
    "n \<notin> set (keys_of (collections db))"
    using assms(3) map_of_eq_None_iff [of "collections db" n] by (simp_all add: map_emplace_def)
  moreover have "col_name (collection_new d n) = n" by (simp add: collection_new_def)
  ultimately show ?thesis using assms(1,2) collection_new_wf [of d n] by (simp add: db' db_wf_def)
qed

lemma db_step_absent:
  assumes "db_wf db" "is_collection_name_valid (target r) = success" "map_of (collections db) (target r) = None"
    and "db_step lvs r db = Returns (db', st)"
  shows "db_wf db' \<and> spec_step r (abs_db db) = (abs_db db', st)"
proof (cases r)
  case (Add_collection n d)
  then show ?thesis using add_collection_step [OF assms(1), of n d db' st] assms(2-)
    by (simp add: spec_step_def abs_db_def)
qed (use assms in \<open>auto simp: delete_collection_def db_add_vectors_def delete_vectors_def
    db_add_index_def get_nearest_k_def spec_step_def abs_db_def\<close>)

lemma delete_collection_step:
  assumes "db_wf db" "is_collection_name_valid n = success" "map_of (collections db) n = Some c"
    and "delete_collection n db = (db', st)"
  shows "st = success \<and> db_wf db' \<and> abs_db db' = (abs_db db)(n := None)"
proof -
  have db': "db' = db\<lparr>collections := AList.delete n (collections db)\<rparr>" "st = success"
    using assms by (simp_all add: delete_collection_def)
  have "set (AList.delete n (collections db)) \<subseteq> set (collections db)" by (auto simp: AList.delete_eq)
  then have "db_wf db'" using assms(1) by (auto simp: db' db_wf_def list_all_iff)
  moreover have "abs_db db' = (abs_db db)(n := None)" by (simp add: db' abs_db_def fun_eq_iff)
  ultimately show ?thesis using db'(2) by simp
qed

lemma add_vectors_step:
  assumes "db_wf db" "map_of (collections db) n = Some c" "list_all (\<lambda>p. fv_wf (snd p)) vs"
    and "db_add_vectors n vs db = Returns (db', st)"
  shows "if list_all (\<lambda>p. fv_dim (snd p) = col_dim c) vs
    then st = success \<and> db_wf db' \<and> abs_db db' = (abs_db db)(n \<mapsto> (col_dim c, content c ++ map_of (rev vs)))
    else st = vector_dimension_mismatch \<and> db' = db"
proof (cases "list_all (\<lambda>p. fv_dim (snd p) = col_dim c) vs")
  case True
  have c: "is_collection_name_valid n = success" "col_wf c" using db_wf_lookup [OF assms(1,2)] by simp_all
  obtain c' k where c': "add_vectors vs c = Returns (c', k)" "db' = put_collection n c' db" "st = success"
    using True assms(2,4) c(1) by (auto simp: db_add_vectors_def list_ex_iff list_all_iff run)
  have "list_all (\<lambda>p. fv_wf (snd p) \<and> fv_dim (snd p) = col_dim c) vs"
    using True assms(3) by (auto simp: list_all_iff)
  from step_put [OF assms(1,2) add_vectors_keeps [OF c'(1) c(2) this]] show ?thesis using True c'(2,3) by simp
next
  case False
  then show ?thesis using assms(2,4) db_wf_lookup [OF assms(1,2)]
    by (auto simp: db_add_vectors_def list_ex_iff list_all_iff split: if_splits)
qed

lemma db_step_present:
  assumes "db_wf db" "request_ok r" "map_of (collections db) (target r) = Some c" "db_step lvs r db = Returns (db', st)"
  shows "db_wf db' \<and> spec_step r (abs_db db) = (abs_db db', st)"
proof -
  have c: "is_collection_name_valid (target r) = success" "col_wf c" using db_wf_lookup [OF assms(1,3)] by simp_all
  have a: "abs_db db (target r) = Some (col_dim c, content c)" using assms(3) by (simp add: abs_db_def)
  show ?thesis
  proof (cases r)
    case (Add_collection n d)
    then show ?thesis using c(1) a assms(1,3,4) by (simp add: add_collection_def spec_step_def)
  next
    case (Delete_collection n)
    then show ?thesis using delete_collection_step [OF assms(1), of n c db' st] c(1) a assms(3,4)
      by (simp add: spec_step_def)
  next
    case (Add_vectors n vs)
    then show ?thesis using add_vectors_step [OF assms(1), of n c vs db' st] c(1) a assms
      by (auto simp: spec_step_def request_ok_def split: if_splits)
  next
    case (Delete_vectors n ids)
    then obtain c' k where c': "remove_vectors ids c = Returns (c', k)" "db' = put_collection n c' db" "st = success"
      using c(1) assms(3,4) by (auto simp: delete_vectors_def run)
    from step_put [OF assms(1) _ remove_vectors_keeps [OF c'(1) c(2)], of n] show ?thesis
      using c(1) a c'(2,3) Delete_vectors assms(3) by (simp add: spec_step_def)
  next
    case (Add_index n i ty p)
    then obtain c' ok where c': "add_index (lvs n) i ty p c = Returns (c', ok)" "db' = put_collection n c' db" "st = success"
      using c(1) assms(3,4) by (auto simp: db_add_index_def run)
    from step_put [OF assms(1) _ add_index_keeps [OF c'(1)], of n] show ?thesis
      using c(1) a c'(2,3) Add_index assms(2,3) by (auto simp: spec_step_def request_ok_def)
  next
    case (Nearest n q k)
    then obtain c' res where c': "search_for_top_k (lvs n) q k [] [] c = Returns (c', res)"
      "db' = put_collection n c' db" "st = success"
      using c(1) assms(3,4) by (auto simp: get_nearest_k_def run)
    from step_put [OF assms(1) _ search_keeps [OF c'(1)], of n] show ?thesis
      using c(1) a c'(2,3) Nearest assms(3) by (auto simp: spec_step_def)
  qed
qed

lemma db_step_wf:
  assumes "db_wf db" "request_ok r" "db_step lvs r db = Returns (db', st)"
  shows "db_wf db' \<and> spec_step r (abs_db db) = (abs_db db', st)"
proof (cases "is_collection_name_valid (target r) = success")
  case True
  then show ?thesis using db_step_absent [OF assms(1) True _ assms(3)] db_step_present [OF assms(1,2) _ assms(3)]
    by (cases "map_of (collections db) (target r)") auto
qed (use db_step_invalid [OF _ assms(3)] assms(1) in blast)

interpretation dbs: simulation "db_step lvs" spec_step abs_db db_wf request_ok for lvs
  by unfold_locales (rule db_step_wf)

subsection \<open>Properties of the operations\<close>

lemma exact_search_wf:
  assumes "searchable q t" "exact_search (Some t) q k r = Returns (ok, rs)" "(d, i, v) \<in> set rs"
  shows "fv_wf v"
proof -
  obtain p where p: "p \<in> set (nearest q (vectors t) (unat k))" "v = stored (the (map_of (vectors t) (snd p)))" "i = snd p"
    using assms(2,3) exact_search_nearest [OF assms(1), of k r] by (auto simp: case_prod_beta)
  then have "snd p \<in> set (keys_of (vectors t))"
    using set_nearest [of q "vectors t" "unat k"] snd_scored [of q "vectors t"] by (metis image_eqI list.set_map subsetD)
  then obtain w where "map_of (vectors t) (snd p) = Some w" by (auto simp only: key_has_value)
  then show ?thesis using p(2) table_wf_lookup [of "fv_dim q" t] assms(1) by (simp add: searchable_def)
qed

lemma update_present: "map_of al k = Some v \<Longrightarrow> AList.update k v al = al"
  by (induction al) (auto split: if_splits)

definition sample_db :: database where
  "sample_db = \<lparr>collections = [(''c'', sample_collection)]\<rparr>"

lemma sample_db_wf: "db_wf sample_db"
  by (simp add: sample_db_def db_wf_def sample_collection_wf is_collection_name_valid_def isalnum_def)

text \<open>
  C1. Every run of requests that returns behaves like the abstract database, a map from names to
  dimensions and maps of vectors: it answers with the same status codes and ends in the same content.
  The invariant of the database (distinct valid names, consistent collections) holds afterwards.
\<close>

theorem database_refines:
  assumes "db_wf db" "list_all request_ok rs" "run_requests (db_step lvs) rs db = Returns (db', sts)"
  shows "run_spec spec_step rs (abs_db db) = (abs_db db', sts) \<and> db_wf db'"
  using dbs.run_sim [OF assms] by blast

theorem database_refines_witness:
  "\<exists>db' sts. run_requests (db_step (\<lambda>_ _ _. 0)) [Add_collection ''c'' 1, Delete_collection ''a'', Delete_vectors ''c'' [4]]
      database_new = Returns (db', sts) \<and>
    run_spec spec_step [Add_collection ''c'' 1, Delete_collection ''a'', Delete_vectors ''c'' [4]] (abs_db database_new) =
      (abs_db db', sts) \<and> db_wf db'"
proof -
  have "run_requests (db_step (\<lambda>_ _ _. 0)) [Add_collection ''c'' 1, Delete_collection ''a'', Delete_vectors ''c'' [4]]
      database_new = Returns (\<lparr>collections = [(''c'', collection_new 1 ''c'')]\<rparr>, [success, collection_does_not_exist, success])"
    by (simp add: database_new_def add_collection_def delete_collection_def delete_vectors_def is_collection_name_valid_def
        isalnum_def map_emplace_def remove_vectors_def remove_one_vector_def collection_new_def put_collection_def)
  from database_refines [OF _ _ this] this show ?thesis by (simp add: db_wf_def database_new_def request_ok_def)
qed

lemma step_error:
  assumes "db_step lvs r db = Returns (db', st)" "st \<noteq> success"
  shows "db' = db"
  using assms by (cases r)
    (auto simp: add_collection_def delete_collection_def db_add_vectors_def delete_vectors_def db_add_index_def
      get_nearest_k_def run split: if_splits option.splits)

lemma nearest_exact:
  assumes "db_wf db" "map_of (collections db) name = Some c" "map_of (col_indices c) [] = None"
    and "searchable q (col_table c)"
  shows "\<exists>rs. exact_search (Some (col_table c)) q k [] = Returns (True, rs) \<and>
    get_nearest_k lvs name q k db = Returns (db, result_of success rs)"
proof -
  have "searchable q (locked Shared (col_table c))"
    using assms(4) by (auto simp: searchable_def locked_def table_wf_def)
  then have "exact_search (Some (locked Shared (col_table c))) q k [] = exact_search (Some (col_table c)) q k []"
    using assms(4) by (simp add: exact_search_nearest locked_def)
  moreover obtain rs where "exact_search (Some (col_table c)) q k [] = Returns (True, rs)"
    using exact_search_ids [OF assms(4)] by blast
  moreover have "put_collection name c db = db"
    using assms(2) update_present [of "collections db" name c] by (cases db) (simp add: put_collection_def)
  ultimately show ?thesis
    using assms(2,3) db_wf_lookup [OF assms(1,2)] by (simp add: get_nearest_k_def search_for_top_k_def)
qed

subsection \<open>Saving and loading\<close>

lemma takeWhile_no_dot: "CHR ''.'' \<notin> set n \<Longrightarrow> takeWhile (\<lambda>c. c \<noteq> CHR ''.'') (rev n) = rev n"
  by (rule takeWhile_eq_all_conv [THEN iffD2]) auto

lemma split_name_plain: "CHR ''.'' \<notin> set n \<Longrightarrow> split_name n = (n, [])"
  by (simp add: split_name_def Let_def)

lemma split_name_ext:
  assumes "n \<noteq> []" "CHR ''.'' \<notin> set x" "x \<noteq> []"
  shows "split_name (n @ CHR ''.'' # x) = (n, CHR ''.'' # x)"
proof -
  have "takeWhile (\<lambda>c. c \<noteq> CHR ''.'') (rev (n @ CHR ''.'' # x)) = rev x"
    using takeWhile_no_dot [OF assms(2)] takeWhile_append2 [of "rev x" "\<lambda>c. c \<noteq> CHR ''.''" "CHR ''.'' # rev n"] assms(2)
    by auto
  moreover have "n @ CHR ''.'' # x \<noteq> ''..''" using assms by (cases n) (auto simp: Cons_eq_append_conv append_eq_Cons_conv)
  ultimately show ?thesis using assms(1) by (simp add: split_name_def Let_def)
qed

lemma file_names:
  assumes "is_collection_name_valid n = success"
  shows "replace_extension n ''.db.tmp'' = n @ ''.db.tmp''"
    and "replace_extension (n @ ''.db.tmp'') [] = n @ ''.db''"
    and "snd (split_name (n @ ''.db'')) = ''.db''"
proof -
  have n: "n \<noteq> []" "CHR ''.'' \<notin> set n" using assms valid_name_no_dot by (auto simp: name_valid_iff)
  then show "replace_extension n ''.db.tmp'' = n @ ''.db.tmp''"
    by (simp add: replace_extension_def split_name_plain)
  show "replace_extension (n @ ''.db.tmp'') [] = n @ ''.db''"
    using split_name_ext [of "n @ ''.db''" "''tmp''"] by (simp add: replace_extension_def)
  show "snd (split_name (n @ ''.db'')) = ''.db''"
    using split_name_ext [of n "''db''"] n by simp
qed

text \<open>A file system that refuses nothing, and the file of a collection.\<close>

definition permissive :: "fs_env \<Rightarrow> bool" where
  "permissive e \<longleftrightarrow> can_create e \<and> can_open e = (\<lambda>_. True) \<and> can_rename e = (\<lambda>_. True) \<and> room e = (\<lambda>_. None)"

definition sample_fs :: fs_env where
  "sample_fs = \<lparr>can_create = True, can_open = (\<lambda>_. True), can_rename = (\<lambda>_. True), room = (\<lambda>_. None)\<rparr>"

lemma sample_fs_permissive [simp]: "permissive sample_fs"
  by (simp add: permissive_def sample_fs_def)

definition file_of :: "string \<times> collection \<Rightarrow> string \<times> byte list" where
  "file_of p = (fst p @ ''.db'', collection_bytes (snd p))"

lemma keys_files: "keys_of (map file_of cs) = map (\<lambda>n. n @ ''.db'') (keys_of cs)"
  by (simp add: file_of_def comp_def)

lemma no_tmp_file: "AList.delete (n @ ''.db.tmp'') (map file_of cs) = map file_of cs"
proof -
  have "m @ ''.db'' \<noteq> n @ ''.db.tmp''" for m
  proof
    assume "m @ ''.db'' = n @ ''.db.tmp''"
    then have "last (m @ ''.db'') = last (n @ ''.db.tmp'')" by simp
    then show False by simp
  qed
  then show ?thesis by (induction cs) (auto simp: file_of_def AList.delete_eq)
qed

text \<open>Saving writes the file of each collection and leaves no temporary file behind.\<close>

lemma save_loop_step:
  assumes "permissive e" "is_collection_name_valid n = success" "col_wf c"
  shows "save_loop e ((n, c) # cs) (map file_of ds) =
    save_loop e cs (AList.update (n @ ''.db'') (collection_bytes c) (map file_of ds))"
  using assms by (simp add: permissive_def written_def file_names collection_serialize_wf no_tmp_file Let_def)

lemma save_loop_fresh:
  assumes "permissive e"
    and "list_all (\<lambda>p. is_collection_name_valid (fst p) = success \<and> col_wf (snd p)) cs" "distinct (keys_of (ds @ cs))"
  shows "save_loop e cs (map file_of ds) = Returns (map file_of (ds @ cs), success)"
  using assms(2,3)
proof (induction cs arbitrary: ds)
  case (Cons p cs)
  obtain n c where p: "p = (n, c)" by (cases p)
  have "n @ ''.db'' \<notin> set (keys_of (map file_of ds))" using Cons.prems(2) p by (auto simp: file_of_def)
  then have "AList.update (n @ ''.db'') (collection_bytes c) (map file_of ds) = map file_of (ds @ [p])"
    by (simp add: update_new p) (simp add: file_of_def)
  moreover have "save_loop e cs (map file_of (ds @ [p])) = Returns (map file_of ((ds @ [p]) @ cs), success)"
    using Cons by (intro Cons.IH) auto
  ultimately show ?case using Cons.prems(1) p assms(1) by (simp add: save_loop_step del: save_loop.simps(2))
qed simp

lemma save_loop_again:
  assumes "permissive e"
    and "list_all (\<lambda>p. is_collection_name_valid (fst p) = success \<and> col_wf (snd p)) cs" "set cs \<subseteq> set ds" "distinct (keys_of ds)"
  shows "save_loop e cs (map file_of ds) = Returns (map file_of ds, success)"
  using assms(2,3)
proof (induction cs)
  case (Cons p cs)
  obtain n c where p: "p = (n, c)" by (cases p)
  have "distinct (keys_of (map file_of ds))"
    using assms(4) unfolding keys_files by (simp add: distinct_map inj_on_def)
  moreover have "(n @ ''.db'', collection_bytes c) \<in> set (map file_of ds)"
    using Cons.prems(2) p by (force simp: file_of_def)
  ultimately have "map_of (map file_of ds) (n @ ''.db'') = Some (collection_bytes c)" by simp
  then show ?case using Cons p assms(1) by (simp add: save_loop_step update_present del: save_loop.simps(2))
qed simp

lemma load_loop_back:
  assumes "can_open e = (\<lambda>_. True)" and "list_all (\<lambda>p. is_collection_name_valid (fst p) = success \<and>
      col_name (snd p) = fst p \<and> col_wf (snd p) \<and> col_storable (snd p)) cs" "distinct (keys_of (ds @ cs))"
  shows "\<exists>cs'. load_loop lvs e (map file_of cs) \<lparr>collections = ds\<rparr> = Returns (\<lparr>collections = ds @ cs'\<rparr>, success) \<and>
    list_all2 (\<lambda>p q. fst q = fst p \<and> col_wf (snd q) \<and> same_collection (snd p) (snd q)) cs cs'"
  using assms(2,3)
proof (induction cs arbitrary: ds)
  case (Cons p cs)
  obtain n c where p: "p = (n, c)" by (cases p)
  with Cons.prems(1) have n: "is_collection_name_valid n = success" "col_name c = n" "col_wf c" "col_storable c" by auto
  obtain c' where c': "collection_deserialize (lvs (n @ ''.db'')) (collection_bytes c) = Returns (c', [])" "col_wf c'"
    "same_collection c c'" using collection_read_back [OF n(3,4), of "lvs (n @ ''.db'')" "[]"] by auto
  have "col_name c' = n" using c'(3) n(2) by (simp add: same_collection_def)
  moreover have "n \<notin> set (keys_of ds)" using Cons.prems(2) p by auto
  ultimately have "put_collection (col_name c') c' \<lparr>collections = ds\<rparr> = \<lparr>collections = ds @ [(n, c')]\<rparr>"
    by (simp add: put_collection_def update_new)
  moreover obtain cs' where "load_loop lvs e (map file_of cs) \<lparr>collections = (ds @ [(n, c')])\<rparr> =
      Returns (\<lparr>collections = (ds @ [(n, c')]) @ cs'\<rparr>, success)"
    "list_all2 (\<lambda>p q. fst q = fst p \<and> col_wf (snd q) \<and> same_collection (snd p) (snd q)) cs cs'"
    using Cons.IH [of "ds @ [(n, c')]"] Cons.prems p by auto
  ultimately show ?case using assms(1) n c' p
    by (intro exI [of _ "(n, c') # cs'"]) (simp add: file_of_def [of "(n, c)"] file_names)
qed simp

lemma same_collections:
  assumes "list_all2 (\<lambda>p q. fst q = fst p \<and> col_wf (snd q) \<and> same_collection (snd p) (snd q)) cs cs'"
  shows "keys_of cs' = keys_of cs"
    and "rel_option same_collection (map_of cs n) (map_of cs' n)"
    and "list_all (\<lambda>p. col_wf (snd p)) cs'"
    and "list_all (\<lambda>p. col_name (snd p) = fst p) cs \<Longrightarrow> list_all (\<lambda>p. col_name (snd p) = fst p) cs'"
  using assms by (induction cs cs' rule: list_all2_induct) (auto simp: same_collection_def)

definition db_storable :: "database \<Rightarrow> bool" where
  "db_storable db \<longleftrightarrow> list_all (\<lambda>p. col_storable (snd p)) (collections db)"

text \<open>The same collections with the same content, name, dimension and index parameters.\<close>

definition same_database :: "database \<Rightarrow> database \<Rightarrow> bool" where
  "same_database db db' \<longleftrightarrow>
     abs_db db' = abs_db db \<and> (\<forall>n. get_collection_info n db' = get_collection_info n db) \<and>
     (\<forall>n i. db_get_index_params n i db' = db_get_index_params n i db)"

lemma load_back:
  assumes "db_wf db" "db_storable db" "permissive e"
  shows "\<exists>db'. load lvs e (Some (map file_of (collections db))) database_new = Returns (db', success) \<and>
    db_wf db' \<and> same_database db db'"
proof -
  let ?cs = "collections db"
  have wf: "distinct (keys_of ?cs)" "list_all (\<lambda>p. is_collection_name_valid (fst p) = success) ?cs"
    "list_all (\<lambda>p. col_name (snd p) = fst p) ?cs" using assms(1) by (auto simp: db_wf_def list_all_iff)
  obtain cs' where l: "load_loop lvs e (map file_of ?cs) \<lparr>collections = []\<rparr> = Returns (\<lparr>collections = cs'\<rparr>, success)"
    and r: "list_all2 (\<lambda>p q. fst q = fst p \<and> col_wf (snd q) \<and> same_collection (snd p) (snd q)) ?cs cs'"
    using load_loop_back [of e ?cs "[]" lvs] assms by (auto simp: permissive_def db_wf_def db_storable_def list_all_iff)
  have k: "keys_of cs' = keys_of ?cs" by (rule same_collections(1) [OF r])
  then have "fst ` set cs' = fst ` set ?cs" by (metis list.set_map)
  then have "list_all (\<lambda>p. is_collection_name_valid (fst p) = success) cs'"
    using wf(2) by (fastforce simp: list_all_iff image_iff set_eq_iff)
  then have "db_wf \<lparr>collections = cs'\<rparr>"
    using wf k same_collections(3,4) [OF r] by (simp add: db_wf_def list_all_iff)
  moreover have o: "rel_option same_collection (map_of ?cs n) (map_of cs' n)" for n by (rule same_collections(2) [OF r])
  have "abs_db \<lparr>collections = cs'\<rparr> n = abs_db db n" for n
    using o [of n] by (cases "map_of ?cs n"; cases "map_of cs' n") (auto simp: abs_db_def same_collection_def)
  moreover have "get_collection_info n \<lparr>collections = cs'\<rparr> = get_collection_info n db" for n
    using o [of n] by (cases "map_of ?cs n"; cases "map_of cs' n") (auto simp: get_collection_info_def same_collection_def)
  moreover have "db_get_index_params n i \<lparr>collections = cs'\<rparr> = db_get_index_params n i db" for n i
    using o [of n] by (cases "map_of ?cs n"; cases "map_of cs' n") (auto simp: db_get_index_params_def same_collection_def)
  ultimately show ?thesis using l by (auto simp: load_def database_new_def same_database_def fun_eq_iff)
qed

lemma save_fresh:
  assumes "db_wf db" "permissive e" "storage = None \<or> storage = Some []"
  shows "save e storage db = Returns (Some (map file_of (collections db)), success)"
proof -
  have "save_loop e (collections db) (map file_of []) = Returns (map file_of ([] @ collections db), success)"
    using assms(1,2) by (intro save_loop_fresh) (auto simp: db_wf_def list_all_iff)
  then show ?thesis using assms(2,3) by (auto simp: save_def permissive_def)
qed

text \<open>
  C12. A database that is saved to an empty directory is loaded again as it was: the same collections
  with the same vectors, dimensions and index parameters, and every invariant restored.
\<close>

theorem save_load_roundtrip:
  assumes "db_wf db" "db_storable db" "permissive e" "storage = None \<or> storage = Some []"
  shows "\<exists>fs db'. save e storage db = Returns (Some fs, success) \<and>
    load lvs e (Some fs) database_new = Returns (db', success) \<and> db_wf db' \<and> same_database db db'"
  using save_fresh [OF assms(1,3,4)] load_back [OF assms(1-3), of lvs] by blast

lemma sample_db_storable: "db_storable sample_db"
  by (simp add: db_storable_def sample_db_def col_storable_def string_ok_def storable_def fv_ok_def meta_ok_def
      get_distance_instance_def) (simp add: sample_vector_def)

theorem save_load_roundtrip_witness:
  "\<exists>fs db'. save sample_fs None sample_db =
      Returns (Some fs, success) \<and>
    load (\<lambda>_ _ _. 0) sample_fs (Some fs) database_new =
      Returns (db', success) \<and> db_wf db' \<and> same_database sample_db db'"
  by (rule save_load_roundtrip [OF sample_db_wf sample_db_storable]) simp_all

text \<open>
  C36. Deleting a collection does not delete its file: when the database was saved before, a deletion
  followed by another save and a restart brings the collection back with all its vectors.
\<close>

theorem deleted_collection_returns:
  assumes "db_wf db" "db_storable db" "permissive e" "map_of (collections db) n = Some c"
  shows "\<exists>fs db1 db2. save e None db = Returns (Some fs, success) \<and> delete_collection n db = (db1, success) \<and>
    abs_db db1 n = None \<and> save e (Some fs) db1 = Returns (Some fs, success) \<and>
    load lvs e (Some fs) database_new = Returns (db2, success) \<and> abs_db db2 n = Some (col_dim c, content c)"
proof -
  let ?db1 = "db\<lparr>collections := AList.delete n (collections db)\<rparr>" and ?fs = "map file_of (collections db)"
  have d: "delete_collection n db = (?db1, success)"
    using assms(4) db_wf_lookup [OF assms(1,4)] by (simp add: delete_collection_def)
  have sub: "set (collections ?db1) \<subseteq> set (collections db)" by (auto simp: AList.delete_eq)
  have "save_loop e (collections ?db1) ?fs = Returns (?fs, success)"
  proof (rule save_loop_again [OF assms(3) _ sub])
    show "list_all (\<lambda>p. is_collection_name_valid (fst p) = success \<and> col_wf (snd p)) (collections ?db1)"
      using assms(1) sub by (auto simp: db_wf_def list_all_iff)
  qed (use assms(1) in \<open>simp add: db_wf_def\<close>)
  then have "save e (Some ?fs) ?db1 = Returns (Some ?fs, success)" by (simp add: save_def)
  moreover obtain db2 where "load lvs e (Some ?fs) database_new = Returns (db2, success)" "same_database db db2"
    using load_back [OF assms(1-3), of lvs] by blast
  moreover have "abs_db ?db1 n = None" "abs_db db n = Some (col_dim c, content c)"
    using assms(4) by (simp_all add: abs_db_def)
  ultimately show ?thesis using save_fresh [OF assms(1,3), of None] d
    by (intro exI [of _ ?fs] exI [of _ ?db1] exI [of _ db2]) (simp add: same_database_def)
qed

theorem deleted_collection_returns_witness:
  "\<exists>fs db1 db2. save sample_fs None sample_db =
      Returns (Some fs, success) \<and> delete_collection ''c'' sample_db = (db1, success) \<and> abs_db db1 ''c'' = None \<and>
    save sample_fs (Some fs) db1 = Returns (Some fs, success) \<and>
    load (\<lambda>_ _ _. 0) sample_fs (Some fs) database_new =
      Returns (db2, success) \<and> abs_db db2 ''c'' = Some (col_dim sample_collection, content sample_collection)"
  by (rule deleted_collection_returns [OF sample_db_wf sample_db_storable])
    (simp_all add: sample_db_def)

lemma k_means_unknown:
  assumes "get_distance_instance m = None" "fv_wf v" "k \<noteq> 0"
  shows "k_means [v] k m 100 = Undefined"
proof -
  have "take (if length [v] < unat k then length [v] else unat k) [v] = [v]"
    using assms(3) by (cases "unat k") (auto simp: unat_eq_zero)
  moreover have "kmeans_loop (Suc r) m d [v] [(c, [])] = Undefined" for r d c
    using assms(1) by (simp add: assign_all_def assign_one_def compute_with_def)
  from this [of 99] have "kmeans_loop 100 m d [v] [(c, [])] = Undefined" for d c by simp
  ultimately show ?thesis using assms(2,3) by (simp add: k_means_def fv_copy_wf)
qed

text \<open>
  An IVF index with a distance type that has no metric is accepted while the collection is empty,
  because only building checks for one, by dereferencing it: the first vector that is added then runs
  into a null pointer. (HNSW parameters refuse such a type in their constructor.)
\<close>

lemma unknown_distance_index_accepted:
  assumes "is_collection_name_valid n = success" "map_of (collections db) n = Some (collection_new d n)"
    and "get_distance_instance (i_dist p) = None" "i_k p \<noteq> 0" "fv_wf v" "fv_dim v = d"
  shows "\<exists>db'. db_add_index lvs n i ivf_flat (Some (Ivf_params p)) db = Returns (db', success) \<and>
    db_add_vectors n [(x, v)] db' = Undefined"
proof -
  let ?ix = "ivf_new p\<lparr>clusters := [], since_rebuild := 0\<rparr>"
  let ?c = "(collection_new d n)\<lparr>col_indices := [(i, Ivf_ix ?ix)]\<rparr>"
  have "add_index (lvs n) i ivf_flat (Some (Ivf_params p)) (collection_new d n) = Returns (?c, True)"
    by (simp add: add_index_def build_index_def ivf_init_def ivf_build_def collection_new_def get_all_vector_ids_def
        map_emplace_def)
  then have "db_add_index lvs n i ivf_flat (Some (Ivf_params p)) db = Returns (put_collection n ?c db, success)"
    using assms(1,2) by (simp add: db_add_index_def)
  moreover have "ivf_on_vectors_added (Some \<lparr>vectors = [(x, v)], vec_mutex = Free\<rparr>) [x] ?ix = Undefined"
    using k_means_unknown [OF assms(3), of "stored v" "i_k p"] assms(4,5)
    by (simp add: ivf_on_vectors_added_def ivf_build_def get_all_vector_ids_def set_insert_def get_vector_by_id_def
        fv_copy_wf stored_def ivf_new_def)
  then have "add_vectors [(x, v)] ?c = Undefined"
    by (simp add: add_vectors_def collection_new_def add_one_vector_def map_emplace_def index_on_vectors_added_def)
  then have "db_add_vectors n [(x, v)] (put_collection n ?c db) = Undefined"
    using assms(1,6) by (simp add: db_add_vectors_def put_collection_def) (simp add: collection_new_def)
  ultimately show ?thesis by blast
qed

lemma unknown_distance_index_accepted_instance:
  "\<exists>db'. db_add_index (\<lambda>_ _ _. 0) ''c'' ''i'' ivf_flat (Some (Ivf_params (ivf_params_new dist_unknown 1 1 9)))
      \<lparr>collections = [(''c'', collection_new 1 ''c'')]\<rparr> = Returns (db', success) \<and>
    db_add_vectors ''c'' [(5, sample_vector 0)] db' = Undefined"
  by (rule unknown_distance_index_accepted)
    (simp_all add: is_collection_name_valid_def isalnum_def ivf_params_new_def dist_unknown_def get_distance_instance_def)

end
