(* ===== verification/Db_Progress.thy ===== *)
theory Db_Progress
  imports Database
begin

text \<open>
  When the operations of \<^verbatim>\<open>database.cpp\<close> return. \<open>Database\<close> shows that whatever returns agrees with the
  abstract database; here the other half: without an IVF index (whose rebuild can deadlock in a deletion)
  and on vectors without infinities and NaN, every request is answered.
\<close>

subsection \<open>Collections whose operations return\<close>

definition is_hnsw :: "index \<Rightarrow> bool" where
  "is_hnsw ix = (case ix of Ivf_ix _ \<Rightarrow> False | Hnsw_ix _ \<Rightarrow> True)"

definition col_live :: "collection \<Rightarrow> bool" where
  "col_live c \<longleftrightarrow>
     list_all (\<lambda>p. fv_finite (snd p)) (vectors (col_table c)) \<and>
     list_all (\<lambda>p. fst p \<noteq> [] \<and> is_hnsw (snd p)) (col_indices c)"

lemma col_live_new: "col_live (collection_new d n)"
  by (simp add: col_live_def collection_new_def)

lemma finite_content:
  assumes "col_wf c"
  shows "list_all (\<lambda>p. fv_finite (snd p)) (vectors (col_table c)) \<longleftrightarrow> (\<forall>i v. content c i = Some v \<longrightarrow> fv_finite v)"
  using col_wf_table [OF assms] by (auto simp: content_def list_all_iff dest: map_of_SomeD)

text \<open>A change of the vectors and of the indices that keeps what is needed.\<close>

lemma col_live_change:
  assumes "col_live c" "col_wf c" "col_wf c'"
    and "\<And>i v. content c' i = Some v \<Longrightarrow> content c i = Some v \<or> fv_finite v"
    and "keys_of (col_indices c') = keys_of (col_indices c)"
    and "list_all (\<lambda>p. is_hnsw (snd p)) (col_indices c')"
  shows "col_live c'"
proof -
  have "fst ` set (col_indices c') = fst ` set (col_indices c)" using assms(5) by (metis list.set_map)
  then have "[] \<notin> fst ` set (col_indices c')" using assms(1) by (auto simp: col_live_def list_all_iff)
  moreover have "\<forall>i v. content c' i = Some v \<longrightarrow> fv_finite v"
    using assms(1,4) finite_content [OF assms(2)] unfolding col_live_def by blast
  ultimately show ?thesis using assms(6) finite_content [OF assms(3)]
    by (auto simp: col_live_def list_all_iff image_iff)
qed

lemma kinds_kept:
  "map_index_list f xs = Returns ys \<Longrightarrow> list_all (\<lambda>p. is_hnsw (snd p)) xs \<Longrightarrow>
     (\<And>x y. f x = Returns y \<Longrightarrow> is_hnsw x \<Longrightarrow> is_hnsw y) \<Longrightarrow> list_all (\<lambda>p. is_hnsw (snd p)) ys"
proof (induction xs arbitrary: ys)
  case (Cons p xs)
  obtain n x where p: "p = (n, x)" by (cases p)
  obtain y zs where "f x = Returns y" "map_index_list f xs = Returns zs" "ys = (n, y) # zs"
    using Cons.prems(1) p by (auto simp: run)
  then show ?case using Cons p by simp
qed simp

lemma notified_hnsw:
  "index_on_vectors_added t is x = Returns y \<Longrightarrow> is_hnsw x \<Longrightarrow> is_hnsw y"
  "index_on_vectors_removed t is x = Returns y \<Longrightarrow> is_hnsw x \<Longrightarrow> is_hnsw y"
  by (auto simp: is_hnsw_def index_on_vectors_added_def index_on_vectors_removed_def split: index.splits)

lemma add_vectors_live:
  assumes "col_wf c" "col_live c" "list_all (\<lambda>p. fv_wf (snd p) \<and> fv_dim (snd p) = col_dim c) vs"
    and "list_all (\<lambda>p. fv_finite (snd p)) vs"
  shows "\<exists>c' n. add_vectors vs c = Returns (c', n) \<and> col_live c'"
proof -
  obtain c' n where c': "add_vectors vs c = Returns (c', n)" "col_wf c'" "content c' = content c ++ map_of (rev vs)"
    "keys_of (col_indices c') = keys_of (col_indices c)"
    using add_vectors_refines' [OF assms(1,3)] by auto
  obtain ws f where f: "map_index_list (index_on_vectors_added ws f) (col_indices c) = Returns (col_indices c')"
    using c'(1) by (auto simp: add_vectors_def run split: prod.splits)
  have "list_all (\<lambda>p. is_hnsw (snd p)) (col_indices c)" using assms(2) by (simp add: col_live_def list_all_iff)
  with f have "list_all (\<lambda>p. is_hnsw (snd p)) (col_indices c')" by (rule kinds_kept) (rule notified_hnsw)
  moreover have "content c i = Some v \<or> fv_finite v" if "content c' i = Some v" for i v
    using that c'(3) assms(4) by (fastforce simp: list_all_iff map_add_Some_iff dest: map_of_SomeD)
  ultimately have "col_live c'" by (intro col_live_change [OF assms(2,1) c'(2) _ c'(4)])
  then show ?thesis using c'(1) by blast
qed

lemma remove_vectors_live:
  assumes "col_wf c" "col_live c"
  shows "\<exists>c' n. remove_vectors ids c = Returns (c', n) \<and> col_live c'"
proof -
  have "list_all (\<lambda>p. within_budget (card (set ids \<inter> dom (content c))) (snd p)) (col_indices c)"
    using assms(2) by (auto simp: col_live_def list_all_iff within_budget_def is_hnsw_def split: index.splits)
  from remove_vectors_refines' [OF assms(1) this] obtain c' n where c': "remove_vectors ids c = Returns (c', n)" "col_wf c'"
    "content c' = (content c) |` (- set ids)" "keys_of (col_indices c') = keys_of (col_indices c)" by blast
  have h: "list_all (\<lambda>p. is_hnsw (snd p)) (col_indices c)" using assms(2) by (simp add: col_live_def list_all_iff)
  have "list_all (\<lambda>p. is_hnsw (snd p)) (col_indices c')"
    using c'(1) h kinds_kept [OF _ h notified_hnsw(2)] by (auto simp: remove_vectors_def run split: prod.splits if_splits)
  moreover have "content c i = Some v \<or> fv_finite v" if "content c' i = Some v" for i v
    using that c'(3) by (auto simp: restrict_map_def split: if_splits)
  ultimately have "col_live c'" by (intro col_live_change [OF assms(2,1) c'(2) _ c'(4)])
  then show ?thesis using c'(1) by blast
qed

text \<open>A query of the right dimension is answered by the exhaustive search.\<close>

lemma live_searchable:
  assumes "col_wf c" "col_live c" "fv_wf q" "fv_finite q" "fv_dim q = col_dim c"
  shows "searchable q (col_table c)"
  using assms by (simp add: searchable_def col_wf_def col_live_def)

lemma no_default_index: "col_live c \<Longrightarrow> map_of (col_indices c) [] = None"
  by (auto simp: col_live_def list_all_iff map_of_eq_None_iff)

lemma live_all_rankable:
  assumes "col_wf c" "col_live c"
  shows "all_rankable euclidean (col_table c)"
proof -
  have "rankable euclidean (snd p) (col_table c)" if "p \<in> set (vectors (col_table c))" for p
    using that assms by (intro searchable_rankable live_searchable) (auto simp: col_wf_def col_live_def table_wf_def list_all_iff)
  then show ?thesis using assms(1) by (simp add: all_rankable_def list_all_iff col_wf_def table_wf_def)
qed

text \<open>An HNSW index with a euclidean metric and a multiplier that is defined can be built.\<close>

definition buildable :: "string \<Rightarrow> index_type \<Rightarrow> params option \<Rightarrow> bool" where
  "buildable i ty p \<longleftrightarrow>
     ty = unknown \<or> (i \<noteq> [] \<and> ty = hnsw \<and>
       (case p of Some (Hnsw_params hp) \<Rightarrow> h_dist hp = euclidean \<and> h_M hp \<noteq> 1 | _ \<Rightarrow> True))"

lemma add_index_live:
  assumes "col_wf c" "col_live c" "buildable i ty p"
  shows "\<exists>c' ok. add_index lv i ty p c = Returns (c', ok) \<and> col_live c'"
proof (cases "\<exists>hp. ty = hnsw \<and> p = Some (Hnsw_params hp)")
  case True
  then obtain hp where hp: "ty = hnsw" "p = Some (Hnsw_params hp)" by blast
  then have p: "i \<noteq> []" "h_dist hp = euclidean" "h_M hp \<noteq> 1" using assms(3) by (auto simp: buildable_def)
  obtain x where x: "hnsw_new (Some (col_table c)) hp = Returns x" "hx_params x = hp" by (simp add: hnsw_new_def)
  then obtain y where "hnsw_init (Some (col_table c)) (lv i) x = Returns y"
    using hnsw_init_ok [of x "col_table c" "lv i"] p live_all_rankable [OF assms(1,2)] by auto
  then have "add_index lv i ty p c = Returns (c\<lparr>col_indices := map_emplace i (Hnsw_ix y) (col_indices c)\<rparr>, True)"
    using x by (simp add: hp add_index_def build_index_def)
  moreover have "col_live (c\<lparr>col_indices := map_emplace i (Hnsw_ix y) (col_indices c)\<rparr>)"
    using assms(2) p(1) by (auto simp: col_live_def map_emplace_def is_hnsw_def split: option.splits)
  ultimately show ?thesis by blast
next
  case False
  then have "add_index lv i ty p c = Returns (c, False)"
    using assms(3) by (auto simp: buildable_def add_index_def build_index_def split: option.splits params.splits)
  then show ?thesis using assms(2) by blast
qed

subsection \<open>Databases\<close>

definition db_live :: "database \<Rightarrow> bool" where
  "db_live db \<longleftrightarrow> list_all (\<lambda>p. col_live (snd p)) (collections db)"

text \<open>What a request needs of the abstract state it meets.\<close>

definition answerable :: "request \<Rightarrow> abstract_db \<Rightarrow> bool" where
  "answerable r a =
     (case r of
        Add_vectors n vs \<Rightarrow> list_all (\<lambda>p. fv_finite (snd p)) vs
      | Add_index n i ty p \<Rightarrow> buildable i ty p
      | Nearest n q k \<Rightarrow> fv_wf q \<and> fv_finite q \<and> (case a n of None \<Rightarrow> True | Some (d, m) \<Rightarrow> fv_dim q = d)
      | _ \<Rightarrow> True)"

lemma db_live_lookup: "db_live db \<Longrightarrow> map_of (collections db) n = Some c \<Longrightarrow> col_live c"
  by (force simp: db_live_def list_all_iff dest: map_of_SomeD)

lemma put_collection_live: "db_live db \<Longrightarrow> col_live c \<Longrightarrow> db_live (put_collection n c db)"
  using set_update_subset [of n c "collections db"] by (auto simp: db_live_def put_collection_def list_all_iff)

lemma add_collection_live: "db_live db \<Longrightarrow> db_live (fst (add_collection n d db))"
  by (auto simp: db_live_def add_collection_def map_emplace_def col_live_new split: option.splits)

lemma delete_collection_live: "db_live db \<Longrightarrow> db_live (fst (delete_collection n db))"
  by (auto simp: db_live_def delete_collection_def AList.delete_eq list_all_iff split: option.splits)

lemma db_add_vectors_live:
  assumes "db_wf db" "db_live db" "list_all (\<lambda>p. fv_wf (snd p) \<and> fv_finite (snd p)) vs"
  shows "\<exists>db' st. db_add_vectors n vs db = Returns (db', st) \<and> db_live db'"
proof (cases "is_collection_name_valid n = success \<and> (\<exists>c. map_of (collections db) n = Some c \<and> list_all (\<lambda>p. fv_dim (snd p) = col_dim c) vs)")
  case True
  then obtain c where c: "map_of (collections db) n = Some c" "list_all (\<lambda>p. fv_dim (snd p) = col_dim c) vs" by blast
  obtain c' k where "add_vectors vs c = Returns (c', k)" "col_live c'"
    using add_vectors_live [of c vs] db_wf_lookup [OF assms(1) c(1)] db_live_lookup [OF assms(2) c(1)] c(2) assms(3)
    by (auto simp: list_all_iff)
  then show ?thesis using True c put_collection_live [OF assms(2)]
    by (auto simp: db_add_vectors_def list_ex_iff list_all_iff split: prod.splits)
qed (use assms(2) in \<open>auto simp: db_add_vectors_def list_ex_iff list_all_iff split: option.splits\<close>)

lemma delete_vectors_live:
  assumes "db_wf db" "db_live db"
  shows "\<exists>db' st. delete_vectors n ids db = Returns (db', st) \<and> db_live db'"
proof (cases "map_of (collections db) n")
  case (Some c)
  obtain c' k where "remove_vectors ids c = Returns (c', k)" "col_live c'"
    using remove_vectors_live db_wf_lookup [OF assms(1) Some] db_live_lookup [OF assms(2) Some] by blast
  then show ?thesis using Some db_wf_lookup [OF assms(1) Some] put_collection_live [OF assms(2)]
    by (simp add: delete_vectors_def)
qed (use assms(2) in \<open>simp add: delete_vectors_def\<close>)

lemma db_add_index_live:
  assumes "db_wf db" "db_live db" "buildable i ty p"
  shows "\<exists>db' st. db_add_index lvs n i ty p db = Returns (db', st) \<and> db_live db'"
proof (cases "map_of (collections db) n")
  case (Some c)
  obtain c' ok where "add_index (lvs n) i ty p c = Returns (c', ok)" "col_live c'"
    using add_index_live [OF _ _ assms(3)] db_wf_lookup [OF assms(1) Some] db_live_lookup [OF assms(2) Some] by blast
  then show ?thesis using Some db_wf_lookup [OF assms(1) Some] put_collection_live [OF assms(2)]
    by (simp add: db_add_index_def)
qed (use assms(2) in \<open>simp add: db_add_index_def\<close>)

lemma get_nearest_k_live:
  assumes "db_wf db" "db_live db" "answerable (Nearest n q k) (abs_db db)"
  shows "\<exists>r. get_nearest_k lvs n q k db = Returns (db, r)"
proof (cases "map_of (collections db) n")
  case (Some c)
  then have "fv_wf q" "fv_finite q" "fv_dim q = col_dim c" using assms(3) by (simp_all add: answerable_def abs_db_def)
  with db_wf_lookup [OF assms(1) Some] db_live_lookup [OF assms(2) Some]
  have "searchable q (col_table c)" "map_of (col_indices c) [] = None"
    by (simp_all add: live_searchable no_default_index)
  then show ?thesis using nearest_exact [OF assms(1) Some, of q k lvs] by blast
qed (simp add: get_nearest_k_def)

lemma db_step_live:
  assumes "db_wf db" "db_live db" "request_ok r" "answerable r (abs_db db)"
  shows "\<exists>db' st. db_step lvs r db = Returns (db', st) \<and> db_live db'"
proof (cases r)
  case (Add_collection n d)
  then show ?thesis using add_collection_live [OF assms(2), of n d] by (simp add: prod_eq_iff)
next
  case (Delete_collection n)
  then show ?thesis using delete_collection_live [OF assms(2), of n] by (simp add: prod_eq_iff)
next
  case (Add_vectors n vs)
  then have "list_all (\<lambda>p. fv_wf (snd p) \<and> fv_finite (snd p)) vs"
    using assms(3,4) by (simp add: request_ok_def answerable_def list_all_iff)
  then show ?thesis using db_add_vectors_live [OF assms(1,2)] Add_vectors by simp
next
  case (Nearest n q k)
  then obtain res where "get_nearest_k lvs n q k db = Returns (db, res)"
    using get_nearest_k_live assms by blast
  then show ?thesis using Nearest assms(2) by simp
qed (use assms delete_vectors_live db_add_index_live in \<open>auto simp: answerable_def\<close>)

interpretation dbt: total_simulation "db_step lvs" spec_step abs_db db_wf request_ok db_live answerable for lvs
  by unfold_locales (rule db_step_live)

subsection \<open>Properties\<close>



end
