(* ===== verification/Collection_Search.thy ===== *)
theory Collection_Search
  imports Collection
begin

text \<open>
  A collection with an IVF index that probes all of its clusters (\<^verbatim>\<open>collection.cpp\<close> with \<^verbatim>\<open>ivfflat.cpp\<close>):
  adding the index, adding and removing vectors, and searching with the index, against the search without.
\<close>

lemma locked_simps [simp]: "vectors (locked m t) = vectors t" "vec_mutex (locked m t) = m"
  by (simp_all add: locked_def)

subsection \<open>An index that mirrors a table\<close>

definition probes_all :: "ivf_params \<Rightarrow> bool" where
  "probes_all p \<longleftrightarrow> i_dist p = euclidean \<and> i_k p \<noteq> 0 \<and> i_k p \<le> i_n_probe p"

definition mirrors :: "u32 \<Rightarrow> vec_table \<Rightarrow> ivf_index \<Rightarrow> bool" where
  "mirrors d t ix \<longleftrightarrow>
     probes_all (ivf_params ix) \<and> ivf_wf d ix \<and> tracks t ix \<and> centroids_finite ix \<and>
     length (clusters ix) \<le> unat (i_k (ivf_params ix)) \<and> (vectors t \<noteq> [] \<longrightarrow> clusters ix \<noteq> [])"

definition small_table :: "vec_table \<Rightarrow> bool" where
  "small_table t \<longleftrightarrow> list_all (\<lambda>p. fv_finite (snd p)) (vectors t) \<and> length (vectors t) < 2 ^ 29"

lemma built_mirrors:
  assumes "table_wf d t" "vec_mutex t \<noteq> Exclusive" "small_table t" "probes_all (ivf_params ix)"
  shows "\<exists>ix'. ivf_build (Some t) ix = Returns ix' \<and> mirrors d t ix'"
proof -
  have "small_finite (map (\<lambda>p. stored (snd p)) (vectors t))"
    using assms(3) by (simp add: small_table_def small_finite_def all_finite_def list_all_iff)
  moreover have "get_distance_instance (i_dist (ivf_params ix)) \<noteq> None"
    using assms(4) by (simp add: probes_all_def get_distance_instance_def)
  ultimately obtain ix' where ix': "ivf_build (Some t) ix = Returns ix'" "ivf_params ix' = ivf_params ix" "ivf_wf d ix'"
    "length (clusters ix') = min (unat (i_k (ivf_params ix))) (length (vectors t))" "tracks t ix'" "centroids_finite ix'"
    using ivf_build_ok [OF assms(1,2), of ix] assms(4) by (auto simp: probes_all_def)
  have "clusters ix' \<noteq> []" if "vectors t \<noteq> []"
    using ix'(4) that assms(4) by (auto simp: probes_all_def unat_eq_0 min_def split: if_splits)
  then show ?thesis using ix' assms(4) by (auto simp: mirrors_def)
qed

lemma add_one_centroids:
  "add_one t i ix = Returns ix' \<Longrightarrow> ivf_params ix' = ivf_params ix \<and> map c_centroid (clusters ix') = map c_centroid (clusters ix)"
proof -
  have "map c_centroid (push_id j i cs) = map c_centroid cs" for j cs
    by (cases "j < length cs") (simp_all add: push_id_def map_update list_update_same_conv list_update_beyond)
  then show "add_one t i ix = Returns ix' \<Longrightarrow> ?thesis" by (auto simp: add_one_def run split: option.splits)
qed

lemma add_incremental_centroids:
  "add_vectors_incremental (Some t) ids ix = Returns ix' \<Longrightarrow>
     ivf_params ix' = ivf_params ix \<and> map c_centroid (clusters ix') = map c_centroid (clusters ix)"
  by (induction ids arbitrary: ix) (auto simp: add_vectors_incremental_def run dest: add_one_centroids)

lemma same_centroids:
  assumes "map c_centroid (clusters ix') = map c_centroid (clusters ix)"
  shows "centroids_finite ix' = centroids_finite ix" "length (clusters ix') = length (clusters ix)" "clusters ix' = [] \<longleftrightarrow> clusters ix = []"
proof -
  have "centroids_finite x \<longleftrightarrow> list_all fv_finite (map c_centroid (clusters x))" for x
    by (simp add: centroids_finite_def list_all_iff)
  then show "centroids_finite ix' = centroids_finite ix" using assms by simp
  show "length (clusters ix') = length (clusters ix)" using assms by (metis length_map)
  then show "clusters ix' = [] \<longleftrightarrow> clusters ix = []" by auto
qed

lemma added_mirrors:
  assumes "mirrors d t ix" "table_wf d t'" "vec_mutex t' \<noteq> Exclusive" "small_table t'"
    and "mset (keys_of (vectors t')) = mset (keys_of (vectors t)) + mset ids"
    and "ivf_on_vectors_added (Some t') ids ix = Returns ix'"
  shows "mirrors d t' ix'"
proof (cases "clusters ix = [] \<or> i_rebuild_threshold (ivf_params ix) \<le> since_rebuild ix + word_of_nat (length ids)")
  case True
  then obtain ix0 where "ivf_build (Some t') ix0 = Returns ix'" "ivf_params ix0 = ivf_params ix"
    using assms(6) by (auto simp: ivf_on_vectors_added_def split: if_splits)
  then show ?thesis using built_mirrors [OF assms(2-4), of ix0] assms(1) by (auto simp: mirrors_def)
next
  case False
  let ?ix = "ix\<lparr>since_rebuild := since_rebuild ix + word_of_nat (length ids)\<rparr>"
  have add: "add_vectors_incremental (Some t') ids ?ix = Returns ix'"
    using False assms(6) by (simp add: ivf_on_vectors_added_def)
  have "ivf_wf d ix' \<and> tracks t' ix'"
    using ivf_added_tracked [OF assms(2,3) _ _ _ assms(5), of ix] False assms(1,6) by (auto simp: mirrors_def not_le)
  then show ?thesis
    using add_incremental_centroids [OF add] same_centroids [of ix' ix] False assms(1) by (auto simp: mirrors_def)
qed

lemma removed_mirrors:
  assumes "mirrors d t ix" "vec_mutex t' = Exclusive" "mset (keys_of (vectors t)) = mset (keys_of (vectors t')) + mset ids"
    and "ivf_on_vectors_removed (Some t') ids ix = Returns ix'"
  shows "mirrors d t' ix'"
proof (cases "clusters ix = []")
  case True
  then have "vectors t' = []" "ix' = ix" "vectors t = []"
    using assms by (auto simp: mirrors_def ivf_on_vectors_removed_def)
  then show ?thesis using assms(1) by (simp add: mirrors_def tracks_def)
next
  case False
  have thr: "since_rebuild ix + word_of_nat (length ids) < i_rebuild_threshold (ivf_params ix)"
    using ivf_removal_rebuild_blocks [OF False assms(2), of ids] assms(4) by (metis not_less outcome.distinct(3))
  then have ix': "ix' = remove_vectors_incremental ids (ix\<lparr>since_rebuild := since_rebuild ix + word_of_nat (length ids)\<rparr>)"
    using assms(4) False by (auto simp: ivf_on_vectors_removed_def not_le [symmetric])
  have "map c_centroid (fold remove_id ids cs) = map c_centroid cs" for cs
    by (induction ids arbitrary: cs) simp_all
  then have "map c_centroid (clusters ix') = map c_centroid (clusters ix)" "ivf_params ix' = ivf_params ix"
    by (simp_all add: ix' remove_vectors_incremental_def)
  moreover have "ivf_wf d ix' \<and> tracks t' ix'"
    using ivf_removed_tracked [OF _ _ False assms(3) thr] assms(1,4) by (auto simp: mirrors_def)
  ultimately show ?thesis using same_centroids [of ix' ix] False assms(1) by (auto simp: mirrors_def)
qed

lemma mirrors_search:
  assumes "mirrors (fv_dim q) t ix" "searchable q t" "vectors t \<noteq> []"
  shows "\<exists>rs. exact_search (Some t) q k r = Returns (True, rs) \<and> ivf_search ix (Some t) q k r = Returns (rs \<noteq> [], rs)"
  using assms by (intro full_probe_exact) (auto simp: mirrors_def probes_all_def word_le_nat_alt)

subsection \<open>Collections\<close>

lemma map_index_list_lookup:
  "map_index_list f xs = Returns ys \<Longrightarrow> map_of xs n = Some x \<Longrightarrow> \<exists>y. f x = Returns y \<and> map_of ys n = Some y"
  by (induction xs arbitrary: ys) (auto simp: run split: if_splits)

lemma added_keys:
  assumes "distinct (keys_of vs)" "distinct (map fst ivs)" "set (map fst ivs) \<inter> set (keys_of vs) = {}"
    and "fold add_one_vector ivs (vs, a, u, ids) = (vs', a', u', ids')"
  shows "mset (keys_of vs') = mset (keys_of vs) + mset (map fst ivs) \<and> ids' = ids @ map fst ivs \<and>
    distinct (keys_of vs') \<and> set vs' \<subseteq> set vs \<union> set ivs"
proof -
  obtain vs1 a1 u1 where f: "fold add_one_vector ivs (vs, a, u, ids) = (vs1, a1, u1, ids @ map fst ivs)"
    "map_of vs1 = map_of vs ++ map_of (rev ivs)" "distinct (keys_of vs1)" "set vs1 \<subseteq> set vs \<union> set ivs"
    using add_fold [OF assms(1), of ivs a u ids] by blast
  have "set (keys_of vs1) = dom (map_of vs ++ map_of (rev ivs))" using f(2) by (metis dom_map_of_conv_image_fst list.set_map)
  then have "set (keys_of vs1) = set (keys_of vs @ map fst ivs)" by (auto simp: dom_map_of_conv_image_fst)
  moreover have "distinct (keys_of vs @ map fst ivs)" using assms(1-3) by auto
  ultimately have "mset (keys_of vs1) = mset (keys_of vs @ map fst ivs)" using f(3) set_eq_iff_mset_eq_distinct by blast
  then show ?thesis using f assms(4) by simp
qed

lemma removed_keys:
  "fold remove_one_vector ids (vs, rs) = (vs', rs') \<Longrightarrow> distinct (keys_of vs) \<Longrightarrow>
     mset (keys_of vs) + mset rs = mset (keys_of vs') + mset rs' \<and> distinct (keys_of vs') \<and> set vs' \<subseteq> set vs"
proof (induction ids arbitrary: vs rs)
  case (Cons i ids)
  show ?case
  proof (cases "map_of vs i")
    case None
    then show ?thesis using Cons by (simp add: remove_one_vector_def)
  next
    case (Some v)
    then have "i \<in> set (keys_of vs)" by (metis domI dom_map_of_conv_image_fst list.set_map)
    moreover have k: "keys_of (AList.delete i vs) = removeAll i (keys_of vs)"
      by (induction vs) auto
    ultimately have "mset (keys_of vs) = add_mset i (mset (keys_of (AList.delete i vs)))"
      using distinct_remove1_removeAll [OF Cons.prems(2), of i] by (metis mset_remove1 insert_DiffM set_mset_mset)
    moreover have "distinct (keys_of (AList.delete i vs))" "set (AList.delete i vs) \<subseteq> set vs"
      using Cons.prems(2) k distinct_removeAll by (simp_all add: AList.delete_eq filter_is_subset)
    ultimately show ?thesis using Cons.IH [of "AList.delete i vs" "rs @ [i]"] Cons.prems(1) Some
      by (auto simp: remove_one_vector_def)
  qed
qed auto

text \<open>
  What happens to a collection: vectors with new ids are added, and vectors are removed. \<open>small_table\<close> keeps
  the vectors finite and fewer than \<open>2 ^ 29\<close>.
\<close>

inductive changes :: "collection \<Rightarrow> collection \<Rightarrow> bool" where
  none: "changes c c"
| adds: "changes c0 c \<Longrightarrow> list_all (\<lambda>p. fv_wf (snd p) \<and> fv_dim (snd p) = col_dim c) ivs \<Longrightarrow> distinct (map fst ivs) \<Longrightarrow>
     set (map fst ivs) \<inter> dom (content c) = {} \<Longrightarrow> add_vectors ivs c = Returns (c', n) \<Longrightarrow> small_table (col_table c') \<Longrightarrow>
     changes c0 c'"
| removes: "changes c0 c \<Longrightarrow> remove_vectors ids c = Returns (c', m) \<Longrightarrow> changes c0 c'"

definition mirrored :: "string \<Rightarrow> collection \<Rightarrow> bool" where
  "mirrored name c \<longleftrightarrow>
     table_wf (col_dim c) (col_table c) \<and> vec_mutex (col_table c) = mutex.Free \<and> small_table (col_table c) \<and>
     (\<exists>ix. map_of (col_indices c) name = Some (Ivf_ix ix) \<and> mirrors (col_dim c) (col_table c) ix)"

lemma adds_mirrored:
  assumes "mirrored name c" "list_all (\<lambda>p. fv_wf (snd p) \<and> fv_dim (snd p) = col_dim c) ivs" "distinct (map fst ivs)"
    and "set (map fst ivs) \<inter> dom (content c) = {}" "add_vectors ivs c = Returns (c', n)" "small_table (col_table c')"
  shows "mirrored name c' \<and> col_dim c' = col_dim c"
proof -
  let ?t = "col_table c"
  have wf: "table_wf (col_dim c) ?t" using assms(1) by (simp add: mirrored_def)
  obtain ix where ix: "map_of (col_indices c) name = Some (Ivf_ix ix)" "mirrors (col_dim c) ?t ix"
    using assms(1) by (auto simp: mirrored_def)
  obtain vs' a' u' ids' ixs where f: "fold add_one_vector ivs (vectors ?t, 0, 0, []) = (vs', a', u', ids')"
    "map_index_list (index_on_vectors_added \<lparr>vectors = vs', vec_mutex = mutex.Free\<rparr> ids') (col_indices c) = Returns ixs"
    "c' = c\<lparr>col_table := \<lparr>vectors = vs', vec_mutex = mutex.Free\<rparr>, col_indices := ixs\<rparr>"
    using assms(5) by (auto simp: add_vectors_def run split: prod.splits)
  let ?t' = "\<lparr>vectors = vs', vec_mutex = mutex.Free\<rparr>"
  have "set (map fst ivs) \<inter> set (keys_of (vectors ?t)) = {}"
    using assms(4) by (simp add: content_def dom_map_of_conv_image_fst)
  then have k: "mset (keys_of vs') = mset (keys_of (vectors ?t)) + mset (map fst ivs)" "ids' = map fst ivs"
    "distinct (keys_of vs')" "set vs' \<subseteq> set (vectors ?t) \<union> set ivs"
    using added_keys [OF _ assms(3) _ f(1)] wf by (auto simp: table_wf_def)
  have wf': "table_wf (col_dim c) ?t'"
    using wf assms(2) k(3,4) by (auto simp: table_wf_def list_all_iff)
  obtain y where y: "index_on_vectors_added ?t' (map fst ivs) (Ivf_ix ix) = Returns y" "map_of ixs name = Some y"
    using map_index_list_lookup [OF f(2) ix(1)] k(2) by auto
  then obtain ix' where ix': "y = Ivf_ix ix'" "ivf_on_vectors_added (Some ?t') (map fst ivs) ix = Returns ix'"
    by (auto simp: index_on_vectors_added_def run)
  have "mirrors (col_dim c) ?t' ix'"
    using added_mirrors [OF ix(2) wf' _ _ _ ix'(2)] k(1) assms(6) f(3) by simp
  then show ?thesis using wf' assms(6) f(3) y(2) ix'(1) by (auto simp: mirrored_def)
qed

lemma removes_mirrored:
  assumes "mirrored name c" "remove_vectors ids c = Returns (c', m)"
  shows "mirrored name c' \<and> col_dim c' = col_dim c"
proof -
  let ?t = "col_table c"
  have wf: "table_wf (col_dim c) ?t" "small_table ?t" using assms(1) by (simp_all add: mirrored_def)
  obtain ix where ix: "map_of (col_indices c) name = Some (Ivf_ix ix)" "mirrors (col_dim c) ?t ix"
    using assms(1) by (auto simp: mirrored_def)
  obtain vs' rs ixs where f: "fold remove_one_vector ids (vectors ?t, []) = (vs', rs)"
    "if rs \<noteq> [] then map_index_list (index_on_vectors_removed \<lparr>vectors = vs', vec_mutex = Exclusive\<rparr> rs) (col_indices c) = Returns ixs
     else ixs = col_indices c"
    "c' = c\<lparr>col_table := \<lparr>vectors = vs', vec_mutex = mutex.Free\<rparr>, col_indices := ixs\<rparr>"
    using assms(2) by (auto simp: remove_vectors_def run split: prod.splits if_splits)
  let ?t' = "\<lparr>vectors = vs', vec_mutex = mutex.Free\<rparr>"
  have k: "mset (keys_of (vectors ?t)) = mset (keys_of vs') + mset rs" "distinct (keys_of vs')" "set vs' \<subseteq> set (vectors ?t)"
    using removed_keys [OF f(1)] wf(1) by (simp_all add: table_wf_def)
  have "length vs' \<le> length (vectors ?t)" using arg_cong [OF k(1), of size] by simp
  then have wf': "table_wf (col_dim c) ?t'" "small_table ?t'"
    using wf k(2,3) by (auto simp: table_wf_def small_table_def list_all_iff)
  have "\<exists>ix'. map_of ixs name = Some (Ivf_ix ix') \<and> mirrors (col_dim c) ?t' ix'"
  proof (cases "rs = []")
    case True
    have "vectors ?t = [] \<longleftrightarrow> vs' = []" using k(1) True by (metis add.right_neutral map_is_Nil_conv mset.simps(1) mset_zero_iff)
    then show ?thesis using True ix f(2) k(1) by (auto simp: mirrors_def tracks_def)
  next
    case False
    then obtain y where y: "index_on_vectors_removed \<lparr>vectors = vs', vec_mutex = Exclusive\<rparr> rs (Ivf_ix ix) = Returns y" "map_of ixs name = Some y"
      using map_index_list_lookup [OF _ ix(1)] f(2) by auto
    then obtain ix' where ix': "y = Ivf_ix ix'" "ivf_on_vectors_removed (Some \<lparr>vectors = vs', vec_mutex = Exclusive\<rparr>) rs ix = Returns ix'"
      by (auto simp: index_on_vectors_removed_def run)
    have "mirrors (col_dim c) \<lparr>vectors = vs', vec_mutex = Exclusive\<rparr> ix'"
      using removed_mirrors [OF ix(2) _ _ ix'(2)] k(1) by simp
    then show ?thesis using y(2) ix'(1) by (auto simp: mirrors_def tracks_def)
  qed
  then show ?thesis using wf' f(3) by (auto simp: mirrored_def)
qed

lemma changes_mirrored: "changes c0 c \<Longrightarrow> mirrored name c0 \<Longrightarrow> mirrored name c \<and> col_dim c = col_dim c0"
proof (induction rule: changes.induct)
  case (adds c0 c ivs c' n)
  then show ?case using adds_mirrored [of name, OF _ adds.hyps(2-6)] by simp
next
  case (removes c0 c ids c' m)
  then show ?case using removes_mirrored [of name, OF _ removes.hyps(2)] by simp
qed simp

lemma add_index_mirrored:
  assumes "col_wf c" "small_table (col_table c)" "map_of (col_indices c) name = None" "probes_all ip"
  shows "\<exists>c'. add_index lv name ivf_flat (Some (Ivf_params ip)) c = Returns (c', True) \<and> mirrored name c' \<and>
    col_dim c' = col_dim c \<and> col_table c' = col_table c"
proof -
  have wf: "table_wf (col_dim c) (col_table c)" "vec_mutex (col_table c) = mutex.Free" using assms(1) by (simp_all add: col_wf_def)
  obtain ix where ix: "ivf_init (Some (col_table c)) (ivf_new ip) = Returns ix" "mirrors (col_dim c) (col_table c) ix"
    using built_mirrors [OF wf(1) _ assms(2), of "ivf_new ip"] wf(2) assms(4) by (auto simp: ivf_init_def ivf_new_def)
  then show ?thesis using wf assms(2,3) by (simp add: add_index_def build_index_def mirrored_def map_emplace_def map_add_def)
qed

text \<open>
  C18. An IVF index with the euclidean distance that probes as many clusters as it may have never changes an
  answer. On a collection of finite vectors \<^verbatim>\<open>add_index\<close> builds it; from then on, after any sequence of
  additions of vectors with new ids (with or without rebuilds) and of removals that return, a search with
  the index gives what the exhaustive search gives, as long as the collection is not empty.
\<close>

theorem ivf_index_stays_exact:
  assumes "col_wf c" "small_table (col_table c)" "map_of (col_indices c) name = None" "probes_all ip"
    and "fv_wf q" "fv_finite q" "fv_dim q = col_dim c"
  shows "\<exists>c1. add_index lv name ivf_flat (Some (Ivf_params ip)) c = Returns (c1, True) \<and> col_table c1 = col_table c \<and>
    (\<forall>c2. changes c1 c2 \<and> vectors (col_table c2) \<noteq> [] \<longrightarrow>
      (\<exists>rs. exact_search (Some (locked Shared (col_table c2))) q k r = Returns (True, rs) \<and>
         search_for_top_k lv q k r name c2 = Returns (c2, rs \<noteq> [], rs)))"
proof -
  obtain c1 where c1: "add_index lv name ivf_flat (Some (Ivf_params ip)) c = Returns (c1, True)" "mirrored name c1" "col_dim c1 = col_dim c"
    "col_table c1 = col_table c"
    using add_index_mirrored [OF assms(1-4)] by blast
  have "\<exists>rs. exact_search (Some (locked Shared (col_table c2))) q k r = Returns (True, rs) \<and>
      search_for_top_k lv q k r name c2 = Returns (c2, rs \<noteq> [], rs)"
    if c2: "changes c1 c2" "vectors (col_table c2) \<noteq> []" for c2
  proof -
    have m: "mirrored name c2" "col_dim c2 = col_dim c" using changes_mirrored [OF c2(1) c1(2)] c1(3) by simp_all
    then obtain ix where ix: "map_of (col_indices c2) name = Some (Ivf_ix ix)" "mirrors (col_dim c2) (col_table c2) ix"
      by (auto simp: mirrored_def)
    have "searchable q (locked Shared (col_table c2))"
      using m assms(5-7) by (auto simp: mirrored_def searchable_def small_table_def table_wf_def locked_def)
    moreover have "mirrors (fv_dim q) (locked Shared (col_table c2)) ix" using ix(2) m(2) assms(7) by (simp add: mirrors_def tracks_def)
    ultimately show ?thesis using mirrors_search [of q "locked Shared (col_table c2)" ix k r] c2(2) ix(1)
      by (auto simp: search_for_top_k_def)
  qed
  then show ?thesis using c1(1,4) by blast
qed

theorem ivf_index_stays_exact_witness:
  "\<exists>c1 rs. add_index (\<lambda>_ _. 0) ''i'' ivf_flat (Some (Ivf_params (ivf_params_new euclidean 4 4 100)))
      ((collection_new 1 ''c'')\<lparr>col_table := \<lparr>vectors = [(7, sample_vector 0), (9, sample_vector 0x3F800000)], vec_mutex = mutex.Free\<rparr>\<rparr>) =
      Returns (c1, True) \<and>
    search_for_top_k (\<lambda>_ _. 0) (sample_vector 0) 1 [] ''i'' c1 = Returns (c1, rs \<noteq> [], rs)"
proof -
  let ?c = "(collection_new 1 ''c'')\<lparr>col_table := \<lparr>vectors = [(7, sample_vector 0), (9, sample_vector 0x3F800000)], vec_mutex = mutex.Free\<rparr>\<rparr>"
  let ?p = "ivf_params_new euclidean 4 4 100"
  have "col_wf ?c" "small_table (col_table ?c)" "probes_all ?p" "fv_wf (sample_vector 0)" "fv_finite (sample_vector 0)"
    by (simp_all add: col_wf_def collection_new_def small_table_def table_wf_def probes_all_def ivf_params_new_def fp_eval)
  from ivf_index_stays_exact [OF this(1,2) _ this(3-5), of "''i''" "\<lambda>_ _. 0" 1 "[]"]
  obtain c1 where c1: "add_index (\<lambda>_ _. 0) ''i'' ivf_flat (Some (Ivf_params ?p)) ?c = Returns (c1, True)"
    "col_table c1 = col_table ?c" "vectors (col_table c1) \<noteq> [] \<Longrightarrow> \<exists>rs. search_for_top_k (\<lambda>_ _. 0) (sample_vector 0) 1 [] ''i'' c1 = Returns (c1, rs \<noteq> [], rs)"
    using changes.none by (fastforce simp: collection_new_def)
  then show ?thesis by (auto simp: collection_new_def)
qed

end
