(* ===== verification/Upsert_Phases.thy ===== *)
theory Upsert_Phases
  imports Collection_Search Database "HOL-Library.Sublist"
begin

text \<open>
  \<^verbatim>\<open>collection::add_vectors\<close> in its two phases. It stores the vectors under \<^verbatim>\<open>vec_mutex_\<close>, gives that up, and
  then tells the indices under \<^verbatim>\<open>idx_mutex_\<close>; between the two other threads store, tell and remove. A removal
  keeps \<^verbatim>\<open>vec_mutex_\<close> to its end. Each phase is one step here; \<open>Locking\<close> says which accesses inside of them
  can meet.
\<close>

subsection \<open>The phases\<close>

definition add_store :: "(id_t \<times> float_vector) list \<Rightarrow> collection \<Rightarrow> collection \<times> int \<times> int \<times> id_t list" where
  "add_store new_vectors c =
     (case fold add_one_vector new_vectors (vectors (col_table c), 0, 0, []) of
        (vs, added, updated, new_ids) \<Rightarrow> (c\<lparr>col_table := \<lparr>vectors = vs, vec_mutex = Free\<rparr>\<rparr>, added, updated, new_ids))"

definition add_notify :: "id_t list \<Rightarrow> collection \<Rightarrow> collection outcome" where
  "add_notify new_ids c =
     obind (map_index_list (index_on_vectors_added (col_table c) new_ids) (col_indices c)) (\<lambda>ixs.
       Returns (c\<lparr>col_indices := ixs\<rparr>))"

lemma add_vectors_phases:
  "add_vectors ivs c =
     (case add_store ivs c of (c1, added, updated, ids) \<Rightarrow>
        obind (add_notify ids c1) (\<lambda>c2. Returns (c2, added, updated)))"
  by (auto simp: add_vectors_def add_store_def add_notify_def obind_assoc split: prod.splits)

text \<open>
  Runs of many threads from a collection \<open>c0\<close>: what was stored and removed, in this order, the collection
  then, and the ids that the threads between their phases still have to tell. \<open>small_table\<close> keeps the vectors
  finite and fewer than \<open>2 ^ 29\<close>.
\<close>

datatype change = Stored "(id_t \<times> float_vector) list" | Removed "id_t list"

inductive interleaved :: "collection \<Rightarrow> change list \<Rightarrow> collection \<Rightarrow> id_t list list \<Rightarrow> bool" for c0 where
  start: "interleaved c0 [] c0 []"
| stores: "interleaved c0 l c untold \<Longrightarrow> list_all (\<lambda>p. fv_wf (snd p) \<and> fv_dim (snd p) = col_dim c) ivs \<Longrightarrow>
     add_store ivs c = (c', a, u, ids) \<Longrightarrow> small_table (col_table c') \<Longrightarrow>
     interleaved c0 (l @ [Stored ivs]) c' (untold @ [ids])"
| tells: "interleaved c0 l c (before @ ids # behind) \<Longrightarrow> add_notify ids c = Returns c' \<Longrightarrow>
     interleaved c0 l c' (before @ behind)"
| removes: "interleaved c0 l c untold \<Longrightarrow> remove_vectors ids c = Returns (c', n) \<Longrightarrow>
     interleaved c0 (l @ [Removed ids]) c' untold"

primrec changed :: "change \<Rightarrow> (id_t \<Rightarrow> float_vector option) \<Rightarrow> id_t \<Rightarrow> float_vector option" where
  "changed (Stored ivs) m = m ++ map_of (rev ivs)"
| "changed (Removed ids) m = m |` (- set ids)"

subsection \<open>Duplicates in a sorted list\<close>

lemma sorted_second:
  "sorted (map f (x # y # ys)) \<Longrightarrow> inj_on f (set (x # y # ys)) \<Longrightarrow> x \<in> set ys \<Longrightarrow> x = y"
  by (rule inj_onD [of f "set (x # y # ys)"]) (auto intro: antisym)

lemma remdups_sorted_Cons: "sorted (map f (x # xs)) \<Longrightarrow> inj_on f (set (x # xs)) \<Longrightarrow> \<exists>ys. remdups (x # xs) = x # ys"
proof (induction xs arbitrary: x)
  case (Cons y xs)
  show ?case
  proof (cases "x \<in> set (y # xs)")
    case True
    then have "x = y" using sorted_second [OF Cons.prems] by auto
    moreover have "\<exists>ys. remdups (y # xs) = y # ys"
      using Cons.IH [of y] Cons.prems by (auto intro: inj_on_subset)
    ultimately show ?thesis by simp
  qed simp
qed simp

lemma sorted_map_remdups: "sorted (map f xs) \<Longrightarrow> sorted (map f (remdups xs))"
  by (induction xs) auto

lemma remdups_take_sorted:
  "sorted (map f xs) \<Longrightarrow> inj_on f (set xs) \<Longrightarrow> prefix (remdups (take k xs)) (remdups xs)"
proof (induction xs arbitrary: k)
  case (Cons x xs)
  have inj: "inj_on f (set xs)" using Cons.prems(2) by simp
  show ?case
  proof (cases k)
    case (Suc j)
    have IH: "prefix (remdups (take j xs)) (remdups xs)" using Cons.IH Cons.prems(1) inj by simp
    consider "x \<in> set (take j xs)" | "x \<notin> set xs" | "x \<in> set xs" "x \<notin> set (take j xs)" by blast
    then show ?thesis
    proof cases
      case 1
      then show ?thesis using IH Suc in_set_takeD [OF 1] by simp
    next
      case 2
      then show ?thesis using IH Suc by (auto dest: in_set_takeD)
    next
      case 3
      then obtain y ys where y: "xs = y # ys" by (cases xs) auto
      have "sorted (map f (x # y # ys))" "inj_on f (set (x # y # ys))" using Cons.prems y by simp_all
      from sorted_second [OF this] have "y = x" using 3(1) y by fastforce
      then have "take j xs = []" using 3(2) y by (cases j) auto
      then have "remdups (take k (x # xs)) = [x]" by (simp only: Suc take_Suc_Cons) simp
      moreover have "sorted (map f (y # ys))" "inj_on f (set (y # ys))" using Cons.prems(1) inj y by simp_all
      then obtain zs where "remdups xs = x # zs"
        unfolding y \<open>y = x\<close> [symmetric] using remdups_sorted_Cons [of f y ys] by blast
      ultimately show ?thesis using 3(1) by simp
    qed
  qed simp
qed simp

lemma prefix_take: "prefix xs ys \<Longrightarrow> length xs \<le> k \<Longrightarrow> prefix xs (take k ys)"
  by (auto simp: prefix_def)

text \<open>Entries that occur more than once in the clusters take places in a result, but nothing is skipped.\<close>

lemma best_covering:
  assumes "distinct (keys_of (vectors t))" "set (keys_of (vectors t)) \<subseteq> set is"
  shows "prefix (remdups (best m q t k is)) (best m q t k (keys_of (vectors t)))"
proof -
  let ?there = "filter (\<lambda>i. map_of (vectors t) i \<noteq> None)"
  let ?xs = "sort_key score_key (map (score_of m q t) (?there is))"
  let ?ys = "sort_key score_key (map (score_of m q t) (?there (keys_of (vectors t))))"
  have there: "set (?there is) = set (keys_of (vectors t))" "?there (keys_of (vectors t)) = keys_of (vectors t)"
    using assms(2) by (auto simp: filter_id_conv map_of_eq_None_iff)
  then have set: "set ?xs = set ?ys" by (simp only: set_sort set_map)
  have inj: "inj_on score_key (set zs)" if "set zs \<subseteq> range (score_of m q t)" for zs
    using inj_score_of that by (rule inj_on_subset)
  have "inj_on (score_of m q t) (set (keys_of (vectors t)))" by (rule inj_onI) (simp add: score_of_def)
  then have "distinct (map (score_of m q t) (keys_of (vectors t)))" using assms(1) by (simp only: distinct_map)
  then have d: "distinct ?ys" by (simp only: there(2) distinct_sort)
  have "remdups ?xs = ?ys"
  proof (rule map_sorted_distinct_set_unique [of score_key])
    show "inj_on score_key (set (remdups ?xs) \<union> set ?ys)" using inj [of "remdups ?xs @ ?ys"] by auto
    show "distinct (map score_key (remdups ?xs))" "distinct (map score_key ?ys)"
      using d inj [of "remdups ?xs"] inj [of ?ys] by (auto simp: distinct_map)
    show "sorted (map score_key (remdups ?xs))" by (rule sorted_map_remdups) simp
  qed (use set in simp_all)
  moreover have "prefix (remdups (take k ?xs)) (remdups ?xs)"
    by (rule remdups_take_sorted [of score_key]) (use inj [of ?xs] in auto)
  moreover have "length (remdups (take k ?xs)) \<le> k" by (rule order_trans [OF length_remdups_leq]) simp
  ultimately have "prefix (remdups (take k ?xs)) (take k ?ys)" using prefix_take by metis
  then show ?thesis by (simp only: best_def)
qed

subsection \<open>An index that keeps up\<close>

definition keeps_up :: "u32 \<Rightarrow> vec_table \<Rightarrow> id_t list list \<Rightarrow> ivf_index \<Rightarrow> bool" where
  "keeps_up d t untold ix \<longleftrightarrow>
     probes_all (ivf_params ix) \<and> ivf_wf d ix \<and> centroids_finite ix \<and> length (clusters ix) \<le> unat (i_k (ivf_params ix)) \<and>
     set (keys_of (vectors t)) \<subseteq> set (indexed_ids ix) \<union> set (concat untold)"

lemma mirrors_keeps_up: "mirrors d t ix \<Longrightarrow> keeps_up d t untold ix"
  unfolding mirrors_def keeps_up_def tracks_def using mset_eq_setD by blast

lemma keeps_up_search:
  assumes "keeps_up (fv_dim q) t [] ix" "searchable q t" "vectors t \<noteq> []" "k \<noteq> 0"
  shows "\<exists>rs es. exact_search (Some t) q k r = Returns (True, es) \<and> ivf_search ix (Some t) q k r = Returns (True, rs) \<and>
    rs \<noteq> [] \<and> prefix (remdups rs) es"
proof -
  have k: "length (clusters ix) \<le> unat (i_n_probe (ivf_params ix))" "i_dist (ivf_params ix) = euclidean"
    using assms(1) by (auto simp: keeps_up_def probes_all_def word_le_nat_alt)
  let ?b = "best euclidean q t (unat k)"
  have d: "distinct (keys_of (vectors t))" using assms(2) by (simp add: searchable_def table_wf_def)
  have keys: "set (keys_of (vectors t)) \<subseteq> set (probed_ids ix q)"
    using assms(1) mset_eq_setD [OF probed_all [OF k(1), of q]] by (simp add: keeps_up_def)
  obtain i v vs where i: "vectors t = (i, v) # vs" using assms(3) by (cases "vectors t") auto
  then have "i \<in> set (indexed_ids ix)" using assms(1) by (simp add: keeps_up_def)
  then have c: "clusters ix \<noteq> []" by (auto simp: indexed_ids_def)
  let ?there = "filter (\<lambda>i. map_of (vectors t) i \<noteq> None) (probed_ids ix q)"
  have "i \<in> set ?there" using keys i by simp
  then have "0 < length ?there" by (rule length_pos_if_in_set)
  then have "0 < length (sort_key score_key (map (score_of euclidean q t) ?there))" by (simp only: length_sort length_map)
  then have "?b (probed_ids ix q) \<noteq> []" using assms(4) by (simp add: best_def unat_eq_0 del: length_sort length_map)
  moreover have "ivf_rankable ix q t"
    using assms(1,2) k by (intro searchable_ivf_rankable) (auto simp: keeps_up_def)
  ultimately show ?thesis
    using best_covering [OF d keys, of euclidean q "unat k"] ivf_search_best [OF _ c] k(2)
    by (simp add: exact_search_nearest [OF assms(2)] best_nearest [OF assms(2)])
qed

lemma stored_keeps_up:
  "keeps_up d t untold ix \<Longrightarrow> set (keys_of (vectors t')) \<subseteq> set (keys_of (vectors t)) \<union> set ids \<Longrightarrow>
     keeps_up d t' (untold @ [ids]) ix"
  by (auto simp: keeps_up_def)

lemma told_keeps_up:
  assumes "keeps_up d t (before @ ids # behind) ix" "table_wf d t" "vec_mutex t \<noteq> Exclusive" "small_table t"
    and "ivf_on_vectors_added (Some t) ids ix = Returns ix'"
  shows "keeps_up d t (before @ behind) ix'"
proof (cases "clusters ix = [] \<or> i_rebuild_threshold (ivf_params ix) \<le> since_rebuild ix + word_of_nat (length ids)")
  case True
  then obtain ix0 where "ivf_build (Some t) ix0 = Returns ix'" "ivf_params ix0 = ivf_params ix"
    using assms(5) by (auto simp: ivf_on_vectors_added_def split: if_splits)
  then have "mirrors d t ix'" using built_mirrors [OF assms(2-4), of ix0] assms(1) by (auto simp: keeps_up_def)
  then show ?thesis by (rule mirrors_keeps_up)
next
  case False
  let ?ix = "ix\<lparr>since_rebuild := since_rebuild ix + word_of_nat (length ids)\<rparr>"
  have add: "add_vectors_incremental (Some t) ids ?ix = Returns ix'"
    using False assms(5) by (simp add: ivf_on_vectors_added_def)
  have "ivf_wf d ?ix" "clusters ?ix \<noteq> []" using assms(1) False by (simp_all add: keeps_up_def ivf_wf_def)
  then have ix': "ivf_wf d ix'" "mset (indexed_ids ix') = mset (indexed_ids ?ix) + mset (filter (\<lambda>i. map_of (vectors t) i \<noteq> None) ids)"
    using add_incremental_ok [OF assms(2,3), of ?ix ids] add by auto
  have "set (indexed_ids ix') = set (indexed_ids ix) \<union> (set ids \<inter> set (keys_of (vectors t)))"
    using arg_cong [OF ix'(2), of set_mset] by (auto simp: indexed_ids_def map_of_eq_None_iff)
  then show ?thesis using add_incremental_centroids [OF add] same_centroids [of ix' ix] ix'(1) assms(1)
    by (auto simp: keeps_up_def)
qed

lemma removed_keeps_up:
  assumes "keeps_up d t untold ix" "vec_mutex t' = Exclusive" "set (keys_of (vectors t')) \<subseteq> set (keys_of (vectors t)) - set ids"
    and "ivf_on_vectors_removed (Some t') ids ix = Returns ix'"
  shows "keeps_up d t' untold ix'"
proof (cases "clusters ix = []")
  case True
  then show ?thesis using assms by (auto simp: keeps_up_def ivf_on_vectors_removed_def)
next
  case False
  have "\<not> i_rebuild_threshold (ivf_params ix) \<le> since_rebuild ix + word_of_nat (length ids)"
    using ivf_removal_rebuild_blocks [OF False assms(2), of ids] assms(4) by auto
  then have ix': "ix' = remove_vectors_incremental ids (ix\<lparr>since_rebuild := since_rebuild ix + word_of_nat (length ids)\<rparr>)"
    using assms(4) False by (simp add: ivf_on_vectors_removed_def)
  have "map c_centroid (fold remove_id ids cs) = map c_centroid cs" for cs
    by (induction ids arbitrary: cs) simp_all
  then have c: "map c_centroid (clusters ix') = map c_centroid (clusters ix)" "ivf_params ix' = ivf_params ix"
    by (simp_all add: ix' remove_vectors_incremental_def)
  have "mset (indexed_ids ix') = mset (indexed_ids ix) - mset ids"
    by (simp add: ix' remove_incremental_ids) (simp add: indexed_ids_def)
  then have "i \<in> set (indexed_ids ix')" if "i \<in> set (indexed_ids ix)" "i \<notin> set ids" for i
    using that by (metis count_greater_zero_iff count_mset_0_iff diff_zero count_diff set_mset_mset)
  moreover have "ivf_wf d ix'" using assms(1) c by (simp add: keeps_up_def ivf_wf_def)
  moreover have "set (keys_of (vectors t)) \<subseteq> set (indexed_ids ix) \<union> set (concat untold)" using assms(1) by (simp add: keeps_up_def)
  ultimately have "set (keys_of (vectors t')) \<subseteq> set (indexed_ids ix') \<union> set (concat untold)" using assms(3) by blast
  then show ?thesis using assms(1) \<open>ivf_wf d ix'\<close> c same_centroids [OF c(1)] by (simp add: keeps_up_def)
qed

subsection \<open>Collections\<close>

lemma store_facts:
  assumes "col_wf c" "list_all (\<lambda>p. fv_wf (snd p) \<and> fv_dim (snd p) = col_dim c) ivs" "add_store ivs c = (c', a, u, ids)"
  shows "col_wf c' \<and> content c' = content c ++ map_of (rev ivs) \<and> col_dim c' = col_dim c \<and> col_indices c' = col_indices c \<and>
    set (keys_of (vectors (col_table c'))) \<subseteq> set (keys_of (vectors (col_table c))) \<union> set ids"
proof -
  have wf: "table_wf (col_dim c) (col_table c)" "distinct (keys_of (vectors (col_table c)))"
    using col_wf_table [OF assms(1)] by simp_all
  obtain vs a' u' where f: "fold add_one_vector ivs (vectors (col_table c), 0, 0, []) = (vs, a', u', [] @ map fst ivs)"
    "map_of vs = map_of (vectors (col_table c)) ++ map_of (rev ivs)" "distinct (keys_of vs)" "set vs \<subseteq> set (vectors (col_table c)) \<union> set ivs"
    using add_fold [OF wf(2), of ivs 0 0 "[]"] by blast
  have c': "c' = c\<lparr>col_table := \<lparr>vectors = vs, vec_mutex = Free\<rparr>\<rparr>" "ids = map fst ivs"
    using assms(3) f(1) by (auto simp: add_store_def)
  have "table_wf (col_dim c) \<lparr>vectors = vs, vec_mutex = Free\<rparr>" by (rule table_wf_subset [OF wf(1) f(3,4) assms(2)])
  moreover have "set (keys_of vs) \<subseteq> set (keys_of (vectors (col_table c))) \<union> set ids" using f(4) c'(2) by auto
  ultimately show ?thesis using assms(1) f(2) by (simp add: c'(1) col_wf_def content_def)
qed

lemma notify_returns:
  assumes "col_wf c"
  shows "\<exists>c'. add_notify ids c = Returns c' \<and> col_wf c' \<and> col_table c' = col_table c \<and> col_dim c' = col_dim c"
proof -
  have wf: "table_wf (col_dim c) (col_table c)" "vec_mutex (col_table c) \<noteq> Exclusive" using assms by (simp_all add: col_wf_def)
  have "\<exists>y. index_on_vectors_added (col_table c) ids x = Returns y \<and> index_wf (col_dim c) y" if "(n, x) \<in> set (col_indices c)" for n x
    using index_added_ok [OF wf, of x ids] that assms by (force simp: col_wf_def list_all_iff)
  then have "\<exists>ixs. map_index_list (index_on_vectors_added (col_table c) ids) (col_indices c) = Returns ixs \<and>
    keys_of ixs = keys_of (col_indices c) \<and> list_all (\<lambda>p. index_wf (col_dim c) (snd p)) ixs" by (rule map_index_list_ok)
  then obtain ixs where "map_index_list (index_on_vectors_added (col_table c) ids) (col_indices c) = Returns ixs"
    "keys_of ixs = keys_of (col_indices c)" "list_all (\<lambda>p. index_wf (col_dim c) (snd p)) ixs" by blast
  then show ?thesis using assms by (simp add: add_notify_def col_wf_def)
qed

text \<open>What holds between the steps of a run, with an IVF index \<open>name\<close>.\<close>

definition kept :: "string \<Rightarrow> collection \<Rightarrow> id_t list list \<Rightarrow> bool" where
  "kept name c untold \<longleftrightarrow>
     col_wf c \<and> small_table (col_table c) \<and>
     (\<exists>ix. map_of (col_indices c) name = Some (Ivf_ix ix) \<and> keeps_up (col_dim c) (col_table c) untold ix)"

lemma stores_kept:
  assumes "kept name c untold" "list_all (\<lambda>p. fv_wf (snd p) \<and> fv_dim (snd p) = col_dim c) ivs"
    and "add_store ivs c = (c', a, u, ids)" "small_table (col_table c')"
  shows "kept name c' (untold @ [ids])"
proof -
  have "col_wf c" using assms(1) by (simp add: kept_def)
  from store_facts [OF this assms(2,3)] show ?thesis
    using assms(1,4) stored_keeps_up [of "col_dim c" "col_table c" untold _ "col_table c'" ids] by (auto simp: kept_def)
qed

lemma tells_kept:
  assumes "kept name c (before @ ids # behind)" "add_notify ids c = Returns c'"
  shows "kept name c' (before @ behind) \<and> content c' = content c \<and> col_dim c' = col_dim c"
proof -
  let ?t = "col_table c"
  have wf: "col_wf c" "table_wf (col_dim c) ?t" "vec_mutex ?t \<noteq> Exclusive" "small_table ?t"
    using assms(1) by (simp_all add: kept_def col_wf_def)
  have c': "col_wf c'" "col_table c' = ?t" "col_dim c' = col_dim c" using notify_returns [OF wf(1), of ids] assms(2) by auto
  obtain ix where ix: "map_of (col_indices c) name = Some (Ivf_ix ix)" "keeps_up (col_dim c) ?t (before @ ids # behind) ix"
    using assms(1) by (auto simp: kept_def)
  obtain y where "index_on_vectors_added ?t ids (Ivf_ix ix) = Returns y" "map_of (col_indices c') name = Some y"
    using assms(2) map_index_list_lookup [OF _ ix(1)] by (fastforce simp: add_notify_def run)
  then obtain ix' where "ivf_on_vectors_added (Some ?t) ids ix = Returns ix'" "map_of (col_indices c') name = Some (Ivf_ix ix')"
    by (auto simp: index_on_vectors_added_def run)
  then show ?thesis using told_keeps_up [OF ix(2) wf(2-4)] wf(4) c' by (auto simp: kept_def content_def)
qed

lemma removes_kept:
  assumes "kept name c untold" "remove_vectors ids c = Returns (c', n)"
  shows "kept name c' untold \<and> content c' = content c |` (- set ids) \<and> col_dim c' = col_dim c"
proof -
  let ?t = "col_table c"
  have wf: "col_wf c" "small_table ?t" using assms(1) by (simp_all add: kept_def)
  have k: "same_frame c c'" "content c' = content c |` (- set ids)" using remove_vectors_keeps [OF assms(2) wf(1)] by simp_all
  obtain ix where ix: "map_of (col_indices c) name = Some (Ivf_ix ix)" "keeps_up (col_dim c) ?t untold ix"
    using assms(1) by (auto simp: kept_def)
  obtain vs rs ixs where f: "fold remove_one_vector ids (vectors ?t, []) = (vs, rs)"
    "if rs \<noteq> [] then map_index_list (index_on_vectors_removed \<lparr>vectors = vs, vec_mutex = Exclusive\<rparr> rs) (col_indices c) = Returns ixs
     else ixs = col_indices c"
    "c' = c\<lparr>col_table := \<lparr>vectors = vs, vec_mutex = Free\<rparr>, col_indices := ixs\<rparr>"
    using assms(2) by (auto simp: remove_vectors_def run split: prod.splits if_splits)
  have d: "distinct (keys_of (vectors ?t))" using col_wf_table [OF wf(1)] by simp
  have m: "mset (keys_of (vectors ?t)) = mset (keys_of vs) + mset rs" "set vs \<subseteq> set (vectors ?t)"
    using removed_keys [OF f(1) d] by simp_all
  have "distinct (keys_of vs @ rs)" using d m(1) by (metis mset_append mset_eq_imp_distinct_iff)
  then have keys: "set (keys_of vs) \<subseteq> set (keys_of (vectors ?t)) - set rs" using m(2) by auto
  have "length vs \<le> length (vectors ?t)" using arg_cong [OF m(1), of size] by simp
  then have small: "small_table \<lparr>vectors = vs, vec_mutex = Free\<rparr>" using wf(2) m(2) by (auto simp: small_table_def list_all_iff)
  have "\<exists>ix'. map_of ixs name = Some (Ivf_ix ix') \<and> keeps_up (col_dim c) \<lparr>vectors = vs, vec_mutex = Free\<rparr> untold ix'"
  proof (cases "rs = []")
    case True
    have "keeps_up (col_dim c) \<lparr>vectors = vs, vec_mutex = Free\<rparr> untold ix" using ix(2) keys by (auto simp: keeps_up_def)
    then show ?thesis using True ix(1) f(2) by simp
  next
    case False
    let ?e = "\<lparr>vectors = vs, vec_mutex = Exclusive\<rparr>"
    from False obtain y where "index_on_vectors_removed ?e rs (Ivf_ix ix) = Returns y" "map_of ixs name = Some y"
      using map_index_list_lookup [OF _ ix(1)] f(2) by auto
    then obtain ix' where ix': "map_of ixs name = Some (Ivf_ix ix')" "ivf_on_vectors_removed (Some ?e) rs ix = Returns ix'"
      by (auto simp: index_on_vectors_removed_def run)
    have "keeps_up (col_dim c) ?e untold ix'" using removed_keeps_up [OF ix(2) _ _ ix'(2)] keys by simp
    then show ?thesis using ix'(1) by (simp add: keeps_up_def)
  qed
  then show ?thesis using k wf(1) small f(3) by (simp add: kept_def same_frame_def)
qed

subsection \<open>Properties\<close>

lemma interleaved_kept:
  assumes "interleaved c0 l c untold" "kept name c0 []"
  shows "kept name c untold \<and> content c = fold changed l (content c0) \<and> col_dim c = col_dim c0"
  using assms(1)
proof (induction rule: interleaved.induct)
  case (stores l c untold ivs c' a u ids)
  have "col_wf c" using stores.IH by (simp add: kept_def)
  then show ?case using stores_kept [OF _ stores.hyps(2-4)] store_facts [OF _ stores.hyps(2,3)] stores.IH by simp
next
  case (tells l c before ids behind c')
  then show ?case using tells_kept by metis
next
  case (removes l c untold ids c' n)
  then show ?case using removes_kept [OF conjunct1 [OF removes.IH] removes.hyps(2)] by simp
qed (use assms(2) in simp)

lemma built_kept:
  assumes "col_wf c" "small_table (col_table c)" "map_of (col_indices c) name = None" "probes_all ip"
  shows "\<exists>c1. add_index lv name ivf_flat (Some (Ivf_params ip)) c = Returns (c1, True) \<and> kept name c1 [] \<and>
    col_dim c1 = col_dim c \<and> content c1 = content c"
proof -
  obtain c1 where c1: "add_index lv name ivf_flat (Some (Ivf_params ip)) c = Returns (c1, True)" "mirrored name c1"
    "col_dim c1 = col_dim c" "col_table c1 = col_table c" using add_index_mirrored [OF assms] by blast
  have "get_distance_instance (i_dist ip) \<noteq> None" using assms(4) by (simp add: probes_all_def get_distance_instance_def)
  then have "same_frame c c1" using add_index_keeps [OF c1(1)] assms(1) by (simp add: params_known_def)
  then show ?thesis using c1 assms(1) mirrors_keeps_up by (fastforce simp: mirrored_def kept_def same_frame_def content_def)
qed

text \<open>
  C19. Upserts and removals that overlap do not disturb each other. However many threads store vectors, with
  new ids or known ones, tell the indices later and remove vectors in between: the content of the collection
  is that of the changes one after the other, no thread that has still to tell the indices can fail or
  wait there, and once all have told, an IVF index that probes all of its clusters finds everything: it
  repeats some results at most, and apart from repetitions they are the first ones of the exhaustive search.
\<close>

theorem interleaved_upserts_refine:
  assumes "col_wf c0" "small_table (col_table c0)" "map_of (col_indices c0) name = None" "probes_all ip"
    and "fv_wf q" "fv_finite q" "fv_dim q = col_dim c0" "k \<noteq> 0"
  shows "\<exists>c1. add_index lv name ivf_flat (Some (Ivf_params ip)) c0 = Returns (c1, True) \<and>
    (\<forall>l c untold. interleaved c1 l c untold \<longrightarrow>
       content c = fold changed l (content c0) \<and> (\<forall>ids \<in> set untold. \<exists>c'. add_notify ids c = Returns c') \<and>
       (untold = [] \<and> vectors (col_table c) \<noteq> [] \<longrightarrow>
          (\<exists>rs es. exact_search (Some (locked Shared (col_table c))) q k r = Returns (True, es) \<and>
             search_for_top_k lv q k r name c = Returns (c, True, rs) \<and> rs \<noteq> [] \<and> prefix (remdups rs) es)))"
proof -
  obtain c1 where c1: "add_index lv name ivf_flat (Some (Ivf_params ip)) c0 = Returns (c1, True)" "kept name c1 []"
    "col_dim c1 = col_dim c0" "content c1 = content c0" using built_kept [OF assms(1-4)] by blast
  have "content c = fold changed l (content c0) \<and> (\<forall>ids \<in> set untold. \<exists>c'. add_notify ids c = Returns c') \<and>
       (untold = [] \<and> vectors (col_table c) \<noteq> [] \<longrightarrow>
          (\<exists>rs es. exact_search (Some (locked Shared (col_table c))) q k r = Returns (True, es) \<and>
             search_for_top_k lv q k r name c = Returns (c, True, rs) \<and> rs \<noteq> [] \<and> prefix (remdups rs) es))"
    if run: "interleaved c1 l c untold" for l c untold
  proof (intro conjI impI ballI)
    have k: "kept name c untold" "content c = fold changed l (content c0)" "col_dim c = col_dim c0"
      using interleaved_kept [OF run c1(2)] c1(3,4) by simp_all
    then show "content c = fold changed l (content c0)" by simp
    show "\<exists>c'. add_notify ids c = Returns c'" for ids using k(1) notify_returns [of c ids] by (auto simp: kept_def)
    assume told: "untold = [] \<and> vectors (col_table c) \<noteq> []"
    obtain ix where ix: "map_of (col_indices c) name = Some (Ivf_ix ix)" "keeps_up (col_dim c) (col_table c) [] ix"
      using k(1) told by (auto simp: kept_def)
    have "searchable q (locked Shared (col_table c))"
      using k assms(5-7) by (auto simp: kept_def col_wf_def searchable_def small_table_def table_wf_def)
    moreover have "keeps_up (fv_dim q) (locked Shared (col_table c)) [] ix" using ix(2) k(3) assms(7) by (simp add: keeps_up_def)
    ultimately obtain rs es where "exact_search (Some (locked Shared (col_table c))) q k r = Returns (True, es)"
      "ivf_search ix (Some (locked Shared (col_table c))) q k r = Returns (True, rs)" "rs \<noteq> []" "prefix (remdups rs) es"
      using keeps_up_search [of q "locked Shared (col_table c)" ix k r] told assms(8) by auto
    then show "\<exists>rs es. exact_search (Some (locked Shared (col_table c))) q k r = Returns (True, es) \<and>
        search_for_top_k lv q k r name c = Returns (c, True, rs) \<and> rs \<noteq> [] \<and> prefix (remdups rs) es"
      using ix(1) by (auto simp: search_for_top_k_def)
  qed
  then show ?thesis using c1(1) by blast
qed

theorem interleaved_upserts_refine_witness:
  "\<exists>c1 c rs. add_index (\<lambda>_ _. 0) ''i'' ivf_flat (Some (Ivf_params (ivf_params_new euclidean 4 4 100))) (collection_new 1 ''c'') = Returns (c1, True) \<and>
    interleaved c1 [Stored [(7, sample_vector 0)], Stored [(9, sample_vector 0x3F800000)]] c [] \<and>
    search_for_top_k (\<lambda>_ _. 0) (sample_vector 0) 2 [] ''i'' c = Returns (c, True, rs) \<and> rs \<noteq> []"
proof -
  let ?c = "collection_new 1 ''c''" and ?p = "ivf_params_new euclidean 4 4 100" and ?v = "sample_vector 0" and ?w = "sample_vector 0x3F800000"
  have ok: "small_table (col_table ?c)" "probes_all ?p" "fv_wf ?v" "fv_finite ?v" "fv_dim ?v = col_dim ?c" "map_of (col_indices ?c) ''i'' = None"
    by (simp_all add: collection_new_def small_table_def probes_all_def ivf_params_new_def fp_eval)
  obtain c1 where c1: "add_index (\<lambda>_ _. 0) ''i'' ivf_flat (Some (Ivf_params ?p)) ?c = Returns (c1, True)" "col_dim c1 = 1" "col_table c1 = col_table ?c"
    using add_index_mirrored [OF collection_new_wf ok(1,6,2), of "\<lambda>_ _. 0"] by (auto simp: collection_new_def)
  note refines = interleaved_upserts_refine [OF collection_new_wf ok(1,6,2-5), of 2 "\<lambda>_ _. 0" "[]"]
  have run: "(\<forall>ids \<in> set untold. \<exists>c'. add_notify ids c = Returns c') \<and> content c = fold changed l (content ?c) \<and>
      (untold = [] \<and> vectors (col_table c) \<noteq> [] \<longrightarrow> (\<exists>rs. search_for_top_k (\<lambda>_ _. 0) ?v 2 [] ''i'' c = Returns (c, True, rs) \<and> rs \<noteq> []))"
    if "interleaved c1 l c untold" for l c untold
    using refines c1(1) that by fastforce
  let ?c2 = "c1\<lparr>col_table := \<lparr>vectors = [(7, ?v)], vec_mutex = Free\<rparr>\<rparr>" and ?c3 = "c1\<lparr>col_table := \<lparr>vectors = [(7, ?v), (9, ?w)], vec_mutex = Free\<rparr>\<rparr>"
  let ?l = "[Stored [(7, ?v)], Stored [(9, ?w)]]"
  have dims: "fv_wf ?w" "fv_dim ?w = 1" "fv_dim ?v = 1" "fv_finite ?w" by (simp_all add: fp_eval)
  have "interleaved c1 [Stored [(7, ?v)]] ?c2 [[7]]"
    using interleaved.stores [OF interleaved.start, of c1 "[(7, ?v)]" ?c2 1 0 "[7]"] c1(2,3) ok(3,4) dims
    by (simp add: add_store_def collection_new_def add_one_vector_update small_table_def)
  then have "interleaved c1 ?l ?c3 [[7], [9]]"
    using interleaved.stores [of c1 "[Stored [(7, ?v)]]" ?c2 "[[7]]" "[(9, ?w)]" ?c3 1 0 "[9]"] c1(2) ok(4) dims
    by (simp add: add_store_def add_one_vector_update small_table_def)
  moreover from this obtain c4 where "add_notify [9] ?c3 = Returns c4" using run by fastforce
  ultimately have c4: "interleaved c1 ?l c4 [[7]]" using interleaved.tells [of c1 ?l ?c3 "[[7]]" "[9]" "[]" c4] by simp
  then obtain c5 where "add_notify [7] c4 = Returns c5" using run by fastforce
  with c4 have c5: "interleaved c1 ?l c5 []" using interleaved.tells [of c1 ?l c4 "[]" "[7]" "[]" c5] by simp
  then have "content c5 7 = Some ?v" using run [OF c5] by simp
  then have "vectors (col_table c5) \<noteq> []" by (auto simp: content_def)
  then show ?thesis using run [OF c5] c1(1) c5 by blast
qed

text \<open>
  Repetitions do occur, even with new ids only: when another upsert makes the index rebuild itself after a
  vector was stored and before the index is told of it, the vector is in the clusters already.
\<close>

lemma overlapping_upserts_repeat:
  assumes "table_wf d t" "vec_mutex t = Free" "small_table t" "ivf_wf d ix" "probes_all (ivf_params ix)"
    and "i_rebuild_threshold (ivf_params ix) \<le> since_rebuild ix + word_of_nat (length ids)" "1 < i_rebuild_threshold (ivf_params ix)"
    and "i \<in> set (keys_of (vectors t))"
  shows "\<exists>ix1 ix2. ivf_on_vectors_added (Some t) ids ix = Returns ix1 \<and> ivf_on_vectors_added (Some t) [i] ix1 = Returns ix2 \<and>
    count (mset (indexed_ids ix2)) i = 2"
proof -
  obtain ix0 where ix0: "ivf_on_vectors_added (Some t) ids ix = ivf_build (Some t) ix0" "ivf_params ix0 = ivf_params ix"
    using assms(6) by (cases "clusters ix = []") (auto simp: ivf_on_vectors_added_def)
  obtain ix1 where ix1: "ivf_build (Some t) ix0 = Returns ix1" "mirrors d t ix1"
    using built_mirrors [OF assms(1) _ assms(3), of ix0] assms(2,5) ix0(2) by auto
  have "ivf_params ix1 = ivf_params ix0 \<and> since_rebuild ix1 = 0"
    using ivf_build_ok [OF assms(1), of ix0] ix1(1) assms(2,5) ix0(2) by (auto simp: probes_all_def get_distance_instance_def)
  moreover obtain v where "map_of (vectors t) i = Some v" using assms(8) by (metis map_of_eq_None_iff list.set_map option.exhaust)
  moreover have "vectors t \<noteq> []" using assms(8) by auto
  moreover have "count (mset (indexed_ids ix1)) i = 1"
    using ix1(2) assms(1,8) distinct_count_atmost_1 [of "keys_of (vectors t)"] by (simp add: mirrors_def tracks_def table_wf_def)
  ultimately obtain ix2 where "ivf_on_vectors_added (Some t) [i] ix1 = Returns ix2" "count (mset (indexed_ids ix2)) i = 2"
    using ivf_readd_duplicates [of d t ix1 i v] assms(1,2,7) ix1(2) ix0(2) by (auto simp: mirrors_def)
  then show ?thesis using ix0(1) ix1(1) by auto
qed

end
