(* ===== verification/Collection_Graph.thy ===== *)
theory Collection_Graph
  imports Collection_Search
begin

text \<open>
  A collection with an HNSW index (\<^verbatim>\<open>collection.cpp\<close> with \<^verbatim>\<open>hnsw.cpp\<close>): adding the index, adding vectors, which the
  index only notes, and searching, which first builds what was noted.
\<close>

subsection \<open>An index that knows every vector\<close>

definition knows_all :: "vec_table \<Rightarrow> hnsw_index \<Rightarrow> bool" where
  "knows_all t ix \<longleftrightarrow>
     hnsw_ok ix \<and> h_M (hx_params ix) \<noteq> 1 \<and> h_dist (hx_params ix) = euclidean \<and> to_be_removed ix = [] \<and>
     distinct (inserted ix @ to_be_inserted ix) \<and> set (inserted ix @ to_be_inserted ix) = set (keys_of (vectors t))"

lemma small_all_rankable:
  assumes "table_wf d t" "vec_mutex t \<noteq> Exclusive" "small_table t"
  shows "all_rankable euclidean t"
proof -
  have "rankable euclidean v t" if "(i, v) \<in> set (vectors t)" for i v
    using that assms by (intro searchable_rankable) (auto simp: searchable_def small_table_def table_wf_def list_all_iff)
  then show ?thesis using assms(1,2) by (auto simp: all_rankable_def list_all_iff table_wf_def)
qed

lemma hnsw_ok_pending [simp]: "hnsw_ok (ix\<lparr>to_be_inserted := is\<rparr>) = hnsw_ok ix"
  by (simp add: hnsw_ok_def graph_ok_def)

lemma noted_new:
  assumes "set is \<inter> set (inserted ix) = {}" "distinct (to_be_inserted ix)"
  shows "\<exists>js. hnsw_on_vectors_added is ix = ix\<lparr>to_be_inserted := js\<rparr> \<and> distinct js \<and> set js = set (to_be_inserted ix) \<union> set is"
  using assms
proof (induction "is" arbitrary: ix)
  case (Cons i "is")
  let ?ix = "ix\<lparr>to_be_inserted := set_insert i (to_be_inserted ix)\<rparr>"
  have step: "hnsw_on_vectors_added (i # is) ix = hnsw_on_vectors_added is ?ix"
    using Cons.prems(1) by (simp add: hnsw_on_vectors_added_def)
  have "distinct (to_be_inserted ?ix)" "set (to_be_inserted ?ix) = insert i (set (to_be_inserted ix))"
    using Cons.prems(2) by (auto simp: set_insert_def)
  with Cons.IH [of ?ix] Cons.prems(1) obtain js where "hnsw_on_vectors_added is ?ix = ?ix\<lparr>to_be_inserted := js\<rparr>"
    "distinct js" "set js = insert i (set (to_be_inserted ix)) \<union> set is" by auto
  then show ?case by (intro exI [of _ js]) (simp add: step)
next
  case Nil
  then show ?case by (intro exI [of _ "to_be_inserted ix"]) (simp add: hnsw_on_vectors_added_def)
qed

lemma built_knows_all:
  assumes "knows_all t ix" "table_wf d t" "vec_mutex t \<noteq> Exclusive" "small_table t"
  shows "\<exists>ix'. (if to_be_inserted ix \<noteq> [] \<or> to_be_removed ix \<noteq> [] then hnsw_build t lv ix else Returns ix) = Returns ix' \<and>
    knows_all t ix' \<and> to_be_inserted ix' = []"
proof (cases "to_be_inserted ix = []")
  case False
  have k: "hnsw_ok ix" "to_be_removed ix = []" "distinct (inserted ix @ to_be_inserted ix)" "h_M (hx_params ix) \<noteq> 1"
    "set (to_be_inserted ix) \<subseteq> set (keys_of (vectors t))" "h_dist (hx_params ix) = euclidean" using assms(1) by (auto simp: knows_all_def)
  then obtain ix' where "hnsw_build t lv ix = Returns ix'" "hnsw_ok ix'" "inserted ix' = inserted ix @ to_be_inserted ix"
    "hx_params ix' = hx_params ix" "to_be_inserted ix' = []" "to_be_removed ix' = []"
    using hnsw_build_ok [OF k(1-4) _ k(5), of lv] small_all_rankable [OF assms(2-4)] by auto
  then show ?thesis using False assms(1) by (auto simp: knows_all_def)
qed (use assms(1) in \<open>simp add: knows_all_def\<close>)

lemma locked_table [simp]: "table_wf d (locked m t) = table_wf d t" "small_table (locked m t) = small_table t"
    "knows_all (locked m t) ix = knows_all t ix"
  by (simp_all add: table_wf_def small_table_def knows_all_def)

text \<open>What a search returns: at most \<open>k\<close> distinct stored vectors with their distances, nearest first.\<close>

definition sound_results :: "vec_table \<Rightarrow> float_vector \<Rightarrow> u32 \<Rightarrow> score list \<Rightarrow> bool" where
  "sound_results t q k rs \<longleftrightarrow>
     rs \<noteq> [] \<and> length rs \<le> unat k \<and> distinct (map (\<lambda>s. fst (snd s)) rs) \<and>
     sorted (map (\<lambda>s. (rank (fst s), fst (snd s))) rs) \<and>
     list_all (\<lambda>(d, i, v). map_option stored (map_of (vectors t) i) = Some v \<and> euclidean_compute q v = Returns d) rs"

lemma knows_all_search:
  assumes "knows_all t ix" "searchable q t" "small_table t" "vectors t \<noteq> []" "k \<noteq> 0"
  shows "\<exists>ix' rs. hnsw_search (Some t) lv q k ix = Returns (ix', True, rs) \<and> knows_all t ix' \<and> sound_results t q k rs"
proof -
  have t: "table_wf (fv_dim q) t" "vec_mutex t \<noteq> Exclusive" "distinct (keys_of (vectors t))"
    using assms(2) by (simp_all add: searchable_def table_wf_def)
  obtain ix' where b: "(if to_be_inserted ix \<noteq> [] \<or> to_be_removed ix \<noteq> [] then hnsw_build t lv ix else Returns ix) = Returns ix'"
    "knows_all t ix'" "to_be_inserted ix' = []" using built_knows_all [OF assms(1) t(1,2) assms(3)] by blast
  have k: "hnsw_ok ix'" "to_be_removed ix' = []" "set (inserted ix') = set (keys_of (vectors t))" "distinct (inserted ix')"
    "h_dist (hx_params ix') = euclidean" using b(2,3) by (simp_all add: knows_all_def)
  have "inserted ix' \<noteq> []" using k(3) assms(4) by auto
  moreover have "length (inserted ix') = length (vectors t)" using k(3,4) t(3) by (metis distinct_card length_map)
  then have "length (inserted ix') < 2 ^ 32" using assms(3) by (simp add: small_table_def)
  moreover have "rankable (h_dist (hx_params ix')) q t" using searchable_rankable [OF assms(2)] k(5) by simp
  ultimately obtain rs where rs: "hnsw_search (Some t) lv q k ix' = Returns (ix', True, rs)" "sound_results t q k rs"
    using hnsw_search_sound [OF k(1) b(3) k(2), of t q k lv] k(3,5) assms(5)
    by (auto simp: sound_results_def compute_with_def get_distance_instance_def)
  then have "hnsw_search_built t q k ix' = Returns rs" using b(3) k(2) by (auto simp: hnsw_search_def run)
  then show ?thesis using b(1,2) rs(2) by (simp add: hnsw_search_def)
qed

subsection \<open>Collections\<close>

text \<open>
  What happens to a collection: vectors with new ids are added, and there are searches, with any index and
  any levels drawn. \<open>small_table\<close> keeps the vectors finite and fewer than \<open>2 ^ 29\<close>.
\<close>

inductive uses :: "collection \<Rightarrow> collection \<Rightarrow> bool" for c0 where
  none: "uses c0 c0"
| adds: "uses c0 c \<Longrightarrow> list_all (\<lambda>p. fv_wf (snd p) \<and> fv_dim (snd p) = col_dim c) ivs \<Longrightarrow>
     set (map fst ivs) \<inter> dom (content c) = {} \<Longrightarrow> add_vectors ivs c = Returns (c', n) \<Longrightarrow> small_table (col_table c') \<Longrightarrow>
     uses c0 c'"
| searches: "uses c0 c \<Longrightarrow> search_for_top_k lv q k r index_name c = Returns (c', ok, rs) \<Longrightarrow> uses c0 c'"

definition graphed :: "string \<Rightarrow> collection \<Rightarrow> bool" where
  "graphed name c \<longleftrightarrow>
     table_wf (col_dim c) (col_table c) \<and> vec_mutex (col_table c) = mutex.Free \<and> small_table (col_table c) \<and>
     (\<exists>ix. map_of (col_indices c) name = Some (Hnsw_ix ix) \<and> knows_all (col_table c) ix)"

lemma adds_graphed:
  assumes "graphed name c" "list_all (\<lambda>p. fv_wf (snd p) \<and> fv_dim (snd p) = col_dim c) ivs"
    and "set (map fst ivs) \<inter> dom (content c) = {}" "add_vectors ivs c = Returns (c', n)" "small_table (col_table c')"
  shows "graphed name c' \<and> col_dim c' = col_dim c"
proof -
  let ?t = "col_table c"
  have wf: "table_wf (col_dim c) ?t" "distinct (keys_of (vectors ?t))" using assms(1) by (simp_all add: graphed_def table_wf_def)
  obtain ix where ix: "map_of (col_indices c) name = Some (Hnsw_ix ix)" "knows_all ?t ix" using assms(1) by (auto simp: graphed_def)
  obtain vs a u where f: "fold add_one_vector ivs (vectors ?t, 0, 0, []) = (vs, a, u, [] @ map fst ivs)"
    "map_of vs = map_of (vectors ?t) ++ map_of (rev ivs)" "distinct (keys_of vs)" "set vs \<subseteq> set (vectors ?t) \<union> set ivs"
    using add_fold [OF wf(2), of ivs 0 0 "[]"] by blast
  let ?t' = "\<lparr>vectors = vs, vec_mutex = mutex.Free\<rparr>"
  obtain ixs where ixs: "map_index_list (index_on_vectors_added ?t' (map fst ivs)) (col_indices c) = Returns ixs"
    "c' = c\<lparr>col_table := ?t', col_indices := ixs\<rparr>"
    using assms(4) f(1) by (auto simp: add_vectors_def run)
  have t': "table_wf (col_dim c) ?t'" by (rule table_wf_subset [OF wf(1) f(3,4) assms(2)])
  have keys: "set (keys_of vs) = set (keys_of (vectors ?t)) \<union> set (map fst ivs)"
    using arg_cong [OF f(2), of dom] by (auto simp: dom_map_of_conv_image_fst)
  have "set (map fst ivs) \<inter> set (keys_of (vectors ?t)) = {}"
    using assms(3) by (simp add: content_def dom_map_of_conv_image_fst)
  moreover have "set (inserted ix) \<subseteq> set (keys_of (vectors ?t))" using ix(2) unfolding knows_all_def by auto
  moreover have "distinct (to_be_inserted ix)" using ix(2) by (simp add: knows_all_def)
  ultimately have new: "set (map fst ivs) \<inter> set (inserted ix) = {}" "distinct (to_be_inserted ix)" by blast+
  then obtain js where js: "hnsw_on_vectors_added (map fst ivs) ix = ix\<lparr>to_be_inserted := js\<rparr>" "distinct js"
    "set js = set (to_be_inserted ix) \<union> set (map fst ivs)" using noted_new by blast
  have "knows_all ?t' (ix\<lparr>to_be_inserted := js\<rparr>)" using ix(2) js(2,3) keys new(1) by (auto simp: knows_all_def)
  moreover have "map_of ixs name = Some (Hnsw_ix (ix\<lparr>to_be_inserted := js\<rparr>))"
    using map_index_list_lookup [OF ixs(1) ix(1)] js(1) by (simp add: index_on_vectors_added_def)
  ultimately show ?thesis using t' assms(5) ixs(2) by (simp add: graphed_def)
qed

lemma searches_graphed:
  assumes "graphed name c" "search_for_top_k lv q k r index_name c = Returns (c', ok, rs)"
  shows "graphed name c' \<and> col_dim c' = col_dim c \<and> content c' = content c"
proof (cases "\<exists>x. map_of (col_indices c) index_name = Some (Hnsw_ix x)")
  case True
  let ?t = "locked Shared (col_table c)"
  obtain x where x: "map_of (col_indices c) index_name = Some (Hnsw_ix x)" using True by blast
  then obtain y where y: "hnsw_search (Some ?t) (lv index_name) q k x = Returns (y, ok, rs)"
    "c' = c\<lparr>col_indices := AList.update index_name (Hnsw_ix y) (col_indices c)\<rparr>"
    using assms(2) by (auto simp: search_for_top_k_def run)
  have m: "map_of (col_indices c') n = (if n = index_name then Some (Hnsw_ix y) else map_of (col_indices c) n)" for n
    by (simp add: y(2) update_conv)
  have "knows_all (col_table c) y" if "index_name = name"
  proof -
    have k: "knows_all ?t x" "table_wf (col_dim c) ?t" "vec_mutex ?t \<noteq> Exclusive" "small_table ?t"
      using assms(1) x that by (auto simp: graphed_def)
    obtain x' where "(if to_be_inserted x \<noteq> [] \<or> to_be_removed x \<noteq> [] then hnsw_build ?t (lv index_name) x else Returns x) = Returns x'"
      "knows_all ?t x'" using built_knows_all [OF k] by blast
    then have "knows_all ?t y" using y(1) by (auto simp: hnsw_search_def run)
    then show ?thesis by simp
  qed
  then show ?thesis using assms(1) m [of name] y(2) by (auto simp: graphed_def content_def)
next
  case False
  then have "c' = c" using assms(2) by (auto simp: search_for_top_k_def run split: option.splits index.splits)
  then show ?thesis using assms(1) by simp
qed

lemma uses_graphed: "uses c0 c \<Longrightarrow> graphed name c0 \<Longrightarrow> graphed name c \<and> col_dim c = col_dim c0"
proof (induction rule: uses.induct)
  case (adds c ivs c' n)
  then show ?case using adds_graphed [of name, OF _ adds.hyps(2-5)] by simp
next
  case (searches c lv q k r index_name c' ok rs)
  then show ?case using searches_graphed [of name, OF _ searches.hyps(2)] by simp
qed simp

lemma add_index_graphed:
  assumes "col_wf c" "small_table (col_table c)" "map_of (col_indices c) name = None" "h_M hp \<noteq> 1" "h_dist hp = euclidean"
  shows "\<exists>c'. add_index lv name hnsw (Some (Hnsw_params hp)) c = Returns (c', True) \<and> graphed name c' \<and>
    col_dim c' = col_dim c \<and> col_table c' = col_table c"
proof -
  let ?t = "col_table c"
  have wf: "table_wf (col_dim c) ?t" "vec_mutex ?t = mutex.Free" using assms(1) by (simp_all add: col_wf_def)
  obtain x where x: "hnsw_new (Some ?t) hp = Returns x" "hx_params x = hp" by (auto simp: hnsw_new_def)
  have "all_rankable euclidean ?t" using small_all_rankable [OF wf(1) _ assms(2)] wf(2) by simp
  then obtain y where y: "hnsw_init (Some ?t) (lv name) x = Returns y" "hnsw_ok y" "inserted y = keys_of (vectors ?t)"
    "hx_params y = hp" "to_be_inserted y = []" "to_be_removed y = []"
    using hnsw_init_ok [of x ?t "lv name"] x(2) assms(4,5) by auto
  have "knows_all ?t y" using y wf(1) assms(4,5) by (simp add: knows_all_def table_wf_def)
  then show ?thesis using x(1) y(1) wf assms(2,3)
    by (simp add: add_index_def build_index_def graphed_def map_emplace_def map_add_def)
qed

text \<open>
  C20. An HNSW index with the euclidean distance can be relied on while vectors are only added. \<^verbatim>\<open>add_index\<close>
  builds it; from then on, after any sequence of additions of vectors with new ids and of searches, whatever
  levels are drawn, every node of the graph is a stored vector and every other one is noted for insertion,
  and a search returns: at least one and at most \<open>k\<close> distinct stored vectors with their distances in order.
\<close>

theorem hnsw_index_grows:
  assumes "col_wf c" "small_table (col_table c)" "map_of (col_indices c) name = None" "h_M hp \<noteq> 1" "h_dist hp = euclidean"
    and "fv_wf q" "fv_finite q" "fv_dim q = col_dim c" "k \<noteq> 0"
  shows "\<exists>c1. add_index lv name hnsw (Some (Hnsw_params hp)) c = Returns (c1, True) \<and> col_table c1 = col_table c \<and>
    (\<forall>c2 lv'. uses c1 c2 \<longrightarrow>
      (\<exists>ix. map_of (col_indices c2) name = Some (Hnsw_ix ix) \<and> distinct (inserted ix @ to_be_inserted ix) \<and>
         set (inserted ix @ to_be_inserted ix) = dom (content c2)) \<and>
      (vectors (col_table c2) \<noteq> [] \<longrightarrow>
        (\<exists>c3 rs. search_for_top_k lv' q k r name c2 = Returns (c3, True, rs) \<and> content c3 = content c2 \<and>
           sound_results (col_table c2) q k rs)))"
proof -
  obtain c1 where c1: "add_index lv name hnsw (Some (Hnsw_params hp)) c = Returns (c1, True)" "graphed name c1"
    "col_dim c1 = col_dim c" "col_table c1 = col_table c" using add_index_graphed [OF assms(1-5)] by blast
  have "(\<exists>ix. map_of (col_indices c2) name = Some (Hnsw_ix ix) \<and> distinct (inserted ix @ to_be_inserted ix) \<and>
         set (inserted ix @ to_be_inserted ix) = dom (content c2)) \<and>
      (vectors (col_table c2) \<noteq> [] \<longrightarrow>
        (\<exists>c3 rs. search_for_top_k lv' q k r name c2 = Returns (c3, True, rs) \<and> content c3 = content c2 \<and>
           sound_results (col_table c2) q k rs))" if u: "uses c1 c2" for c2 lv'
  proof -
    let ?t = "locked Shared (col_table c2)"
    have g: "graphed name c2" "col_dim c2 = col_dim c" using uses_graphed [OF u c1(2)] c1(3) by simp_all
    then obtain ix where ix: "map_of (col_indices c2) name = Some (Hnsw_ix ix)" "knows_all (col_table c2) ix"
      by (auto simp: graphed_def)
    have "distinct (inserted ix @ to_be_inserted ix) \<and> set (inserted ix @ to_be_inserted ix) = dom (content c2)"
      using ix(2) by (simp add: knows_all_def content_def dom_map_of_conv_image_fst)
    moreover have "\<exists>c3 rs. search_for_top_k lv' q k r name c2 = Returns (c3, True, rs) \<and> content c3 = content c2 \<and>
        sound_results (col_table c2) q k rs" if ne: "vectors (col_table c2) \<noteq> []"
    proof -
      have s: "searchable q ?t" "small_table ?t" "knows_all ?t ix"
        using g ix(2) assms(6-8) by (auto simp: graphed_def searchable_def small_table_def table_wf_def)
      obtain y rs where "hnsw_search (Some ?t) (lv' name) q k ix = Returns (y, True, rs)" "sound_results ?t q k rs"
        using knows_all_search [OF s(3,1,2) _ assms(9), of "lv' name"] ne by auto
      then show ?thesis using ix(1) by (simp add: search_for_top_k_def content_def sound_results_def)
    qed
    ultimately show ?thesis using ix(1) by blast
  qed
  then show ?thesis using c1(1,4) by blast
qed

lemma add_index_single:
  assumes "add_index lv name hnsw (Some (Hnsw_params hp)) c = Returns (c', True)" "col_indices c = []"
  shows "\<exists>ix. col_indices c' = [(name, Hnsw_ix ix)]"
proof -
  obtain x where x: "build_index (col_table c) (lv name) hnsw (Some (Hnsw_params hp)) = Returns (Some x)"
    "col_indices c' = [(name, x)]"
    using assms by (cases "build_index (col_table c) (lv name) hnsw (Some (Hnsw_params hp))")
      (auto simp: add_index_def map_emplace_def split: option.splits)
  then show ?thesis by (auto simp: build_index_def run)
qed

theorem hnsw_index_grows_witness:
  "\<exists>c1 c2 n c3 rs. add_index (\<lambda>_ _. 0) ''i'' hnsw (Some (Hnsw_params (hnsw_params_default\<lparr>h_dist := euclidean\<rparr>))) (collection_new 1 ''c'') = Returns (c1, True) \<and>
    add_vectors [(7, sample_vector 0), (9, sample_vector 0x3F800000)] c1 = Returns (c2, n) \<and>
    search_for_top_k (\<lambda>_ _. 3) (sample_vector 0) 1 [] ''i'' c2 = Returns (c3, True, rs) \<and> rs \<noteq> []"
proof -
  let ?c = "collection_new 1 ''c''" and ?p = "hnsw_params_default\<lparr>h_dist := euclidean\<rparr>" and ?v = "sample_vector 0"
  let ?ivs = "[(7, sample_vector 0), (9, sample_vector 0x3F800000)]"
  have ok: "small_table (col_table ?c)" "map_of (col_indices ?c) ''i'' = None" "h_M ?p \<noteq> 1" "h_dist ?p = euclidean"
    "fv_wf ?v" "fv_finite ?v" "fv_dim ?v = col_dim ?c"
    by (simp_all add: collection_new_def small_table_def hnsw_params_default_def fp_eval)
  obtain c1 where c1: "add_index (\<lambda>_ _. 0) ''i'' hnsw (Some (Hnsw_params ?p)) ?c = Returns (c1, True)"
    "col_table c1 = col_table ?c" "col_dim c1 = 1" "graphed ''i'' c1"
    using add_index_graphed [OF collection_new_wf ok(1-4), of "\<lambda>_ _. 0"] by (auto simp: collection_new_def)
  obtain c1' where refines: "add_index (\<lambda>_ _. 0) ''i'' hnsw (Some (Hnsw_params ?p)) ?c = Returns (c1', True)"
    "\<And>c2 lv'. uses c1' c2 \<Longrightarrow> vectors (col_table c2) \<noteq> [] \<Longrightarrow>
      \<exists>c3 rs. search_for_top_k lv' ?v 1 [] ''i'' c2 = Returns (c3, True, rs) \<and> sound_results (col_table c2) ?v 1 rs"
    using hnsw_index_grows [OF collection_new_wf ok, of 1 "\<lambda>_ _. 0" "[]", OF one_neq_zero] by meson
  have "c1' = c1" using refines(1) c1(1) by simp
  obtain ix where ix: "col_indices c1 = [(''i'', Hnsw_ix ix)]"
    using add_index_single [OF c1(1)] by (auto simp: collection_new_def)
  let ?t = "\<lparr>vectors = ?ivs, vec_mutex = mutex.Free\<rparr>"
  let ?c2 = "c1\<lparr>col_table := ?t, col_indices := [(''i'', Hnsw_ix (hnsw_on_vectors_added [7, 9] ix))]\<rparr>"
  have a: "add_vectors ?ivs c1 = Returns (?c2, 2, 0)"
    using c1(2) ix by (simp add: add_vectors_def add_one_vector_update collection_new_def index_on_vectors_added_def)
  then have "uses c1 ?c2"
    by (rule uses.adds [OF uses.none, rotated 2])
      (use c1(2,3) in \<open>simp_all add: content_def collection_new_def small_table_def fp_eval\<close>)
  then show ?thesis using refines(2) [of ?c2 "\<lambda>_ _. 3"] \<open>c1' = c1\<close> c1(1) a by (fastforce simp: sound_results_def)
qed

subsection \<open>Updates\<close>

definition one_vector :: vec_table where
  "one_vector = \<lparr>vectors = [(7, sample_vector 0x3F800000)], vec_mutex = mutex.Free\<rparr>"

text \<open>
  Updating vectors breaks the graph. When the only vector of a collection is updated, the build removes its
  node, and on inserting it again the search for neighbours starts from the node itself: it is linked to
  itself. The build after the next update erases this link from the set that its loop walks over, which is
  undefined.
\<close>

lemma hnsw_updates_undefined:
  "\<exists>ix ix2 rs. hnsw_init (Some one_vector) (\<lambda>_. 0) sample_hnsw = Returns ix \<and>
    hnsw_search (Some one_vector) (\<lambda>_. 0) (sample_vector 0) 1 (hnsw_on_vectors_added [7] ix) = Returns (ix2, True, rs) \<and>
    hnsw_search (Some one_vector) (\<lambda>_. 0) (sample_vector 0) 1 (hnsw_on_vectors_added [7] ix2) = Undefined"
  unfolding one_vector_def by (simp add: graph_eval hnsw_on_vectors_added_def fp_eval)

end
