(* ===== verification/Hnsw_Lost.thy ===== *)
theory Hnsw_Lost
  imports Hnsw_Graph
begin

text \<open>
  Nodes that the graph index never finds (\<^verbatim>\<open>index::insert\<close> of \<^verbatim>\<open>hnsw.cpp\<close>). Shrinking a node keeps the neighbours with the
  smallest ids, since \<^verbatim>\<open>create_cand_set\<close> gives all of them one distance. A new node with a larger id than those in
  the way is dropped at once by every neighbour that had all the links it may have: it has links to
  others, but there are none to it.
\<close>

subsection \<open>Shrinking drops the new node\<close>

lemma last_candidate:
  assumes "cands_in (\<lambda>_. d) UNIV cs" "snd ` set cs = insert i X" "\<forall>x \<in> X. x < (i :: id_t)" "length cs = Suc n"
  shows "snd ` set (take n cs) = X"
proof -
  obtain ys c where cs: "cs = ys @ [c]" "length ys = n" using assms(4) by (cases cs rule: rev_cases) auto
  have d: "fst y = d" if "y \<in> set cs" for y using assms(1) that by (auto simp: cands_in_def)
  have "sorted (map pair_key cs)" using assms(1) by (simp add: cands_in_def cand_ok_def)
  then have "pair_key y \<le> pair_key c" if "y \<in> set ys" for y using that by (simp add: cs(1) sorted_append)
  then have le: "snd y \<le> snd c" if "y \<in> set ys" for y
    using that d [of y] d [of c] by (fastforce simp: cs(1) pair_key_def less_eq_prod_def)
  have new: "snd c \<notin> snd ` set ys" using cands_in_distinct [OF assms(1)] by (auto simp: cs(1))
  have "insert (snd c) (snd ` set ys) = insert i X" using assms(2) by (simp add: cs(1))
  moreover have "snd c = i"
  proof (rule ccontr)
    assume ne: "snd c \<noteq> i"
    then have "snd c < i" "i \<in> snd ` set ys" using assms(3) \<open>insert (snd c) (snd ` set ys) = insert i X\<close> by auto
    then show False using le by force
  qed
  moreover have "i \<notin> X" using assms(3) by auto
  ultimately have "snd ` set ys = X" using new by (simp add: insert_ident)
  then show ?thesis by (simp add: cs)
qed

lemma shrink_one_full:
  assumes "\<exists>d. dst nb = Returns d \<and> d \<noteq> NaN" "distinct (nbs nb)" "set (nbs nb) = insert i X" "nb \<noteq> i"
    and "\<forall>x \<in> X. x < i" "card X = unat cap"
  shows "\<exists>L. shrink_one dst cap i nb nbs = Returns (nbs(nb := L)) \<and> distinct L \<and> set L = X"
proof -
  obtain d where d: "dst nb = Returns d" "d \<noteq> NaN" using assms(1) by blast
  obtain cs where cs: "create_cand_set (Returns d) (nbs nb) = Returns cs" "cand_ok cs" "snd ` set cs = set (nbs nb)"
    "length cs = length (nbs nb)" "cands_in (\<lambda>_. d) UNIV cs"
    using create_cand_set_ok [OF d(2) assms(2)] by blast
  have "finite X" using assms(3) by (metis List.finite_set finite_insert)
  moreover have "i \<notin> X" using assms(5) by auto
  ultimately have len: "length (nbs nb) = Suc (unat cap)"
    using distinct_card [OF assms(2)] assms(3,6) by simp
  have "snd ` set (take (unat cap) cs) = X"
    using last_candidate [OF cs(5) _ assms(5)] cs(3,4) assms(3) len by simp
  moreover have "shrink_one dst cap i nb nbs = Returns (nbs(nb := create_neighbour_set (take (unat cap) cs)))"
    using len assms(4) cs(1,2) d(1) by (simp add: shrink_one_def select_take)
  ultimately show ?thesis using create_neighbour_set by blast
qed

lemma shrink_all_full:
  assumes "\<And>nb. \<exists>d. dst nb = Returns d \<and> d \<noteq> NaN" "distinct sel" "i \<notin> set sel" "\<And>j. distinct (n j)"
    and "\<And>nb. nb \<in> set sel \<Longrightarrow> set (n nb) = insert i (X nb) \<and> (\<forall>x \<in> X nb. x < i) \<and> card (X nb) = unat cap"
  shows "\<exists>n'. fold_outcome (shrink_one dst cap i) sel n = Returns n' \<and>
    (\<forall>j. distinct (n' j) \<and> set (n' j) = (if j \<in> set sel then X j else set (n j)))"
  using assms(2-)
proof (induction sel arbitrary: n)
  case (Cons nb sel)
  obtain L where L: "shrink_one dst cap i nb n = Returns (n(nb := L))" "distinct L" "set L = X nb"
  proof -
    have "distinct (n nb)" "set (n nb) = insert i (X nb)" "nb \<noteq> i" "\<forall>x \<in> X nb. x < i" "card (X nb) = unat cap"
      using Cons.prems by auto
    then show ?thesis using shrink_one_full [of dst nb, OF assms(1)] that by blast
  qed
  have "\<exists>n'. fold_outcome (shrink_one dst cap i) sel (n(nb := L)) = Returns n' \<and>
      (\<forall>j. distinct (n' j) \<and> set (n' j) = (if j \<in> set sel then X j else set ((n(nb := L)) j)))"
    using Cons.prems L(2) by (intro Cons.IH) auto
  then show ?case using L Cons.prems(1) by auto
qed auto

subsection \<open>Inserting into a full part of the graph\<close>

text \<open>
  \<open>R lc\<close> are nodes of the layer \<open>lc\<close> that have all the links they may have, all among themselves; the search
  enters through them and stays among them.
\<close>

definition full_layer :: "u32 \<Rightarrow> id_t set \<Rightarrow> (id_t \<Rightarrow> id_t list) \<Rightarrow> bool" where
  "full_layer cap S nbs \<longleftrightarrow> closed_under nbs S \<and> (\<forall>j \<in> S. length (nbs j) = unat cap)"

definition full_part :: "(nat \<Rightarrow> id_t set) \<Rightarrow> hnsw_index \<Rightarrow> bool" where
  "full_part R ix \<longleftrightarrow>
     (\<forall>lc. R (Suc lc) \<subseteq> R lc) \<and> R 0 \<subseteq> set (inserted ix) \<and> 0 \<le> max_layer ix \<and> entry_point ix \<in> R (nat (max_layer ix)) \<and> 0 \<notin> R 0 \<and>
     (\<forall>lc < length (neighbours ix). full_layer (layer_cap ix lc) (R lc) (neighbours ix ! lc))"

lemma full_layer_sets:
  assumes "full_layer cap S nbs" "\<And>j. j \<in> S \<Longrightarrow> set (nbs' j) = set (nbs j) \<and> distinct (nbs' j) \<and> distinct (nbs j)"
  shows "full_layer cap S nbs'"
  using assms by (auto simp: full_layer_def closed_under_def) (metis distinct_card)

lemma link_layer_full:
  assumes "insertable (h_dist (hx_params ix)) col i v" "lc < length (neighbours ix)"
    and "full_layer (layer_cap ix lc) S (neighbours ix ! lc)" "\<And>j. distinct ((neighbours ix ! lc) j)" "(neighbours ix ! lc) i = []"
    and "\<forall>x \<in> S. x < i" "ep \<noteq> []" "set ep \<subseteq> S"
  shows "\<exists>nbs' ep'. link_layer col i v lc (ix, ep) = Returns (ix\<lparr>neighbours := (neighbours ix)[lc := nbs']\<rparr>, ep') \<and>
    full_layer (layer_cap ix lc) S nbs' \<and> (\<forall>j. distinct (nbs' j)) \<and> ep' \<noteq> [] \<and> set ep' \<subseteq> S"
proof -
  let ?cap = "layer_cap ix lc" and ?nbs = "neighbours ix ! lc" and ?m = "h_dist (hx_params ix)"
  have i: "i \<notin> S" using assms(6) by auto
  have S: "closed_under ?nbs S" "\<And>j. j \<in> S \<Longrightarrow> length (?nbs j) = unat ?cap" using assms(3) by (auto simp: full_layer_def)
  obtain D where D: "dist_total (query_dist ?m col v) D" using assms(1) by (auto simp: insertable_def)
  obtain cs where cs: "search_layer ix col v ep (h_ef_construction (hx_params ix)) lc = Returns cs" "cs \<noteq> []" "cands_in D S cs"
    using search_layer_ok [OF D assms(2,8) S(1) assms(7)] by blast
  let ?sel = "take (unat ?cap) cs" and ?n = "fold (\<lambda>c. link i (snd c)) (take (unat ?cap) cs) ?nbs"
  have sel: "select_neighbors_heuristic cs ?cap = Returns ?sel" "cands_in D S ?sel"
    using cs(3) by (simp_all add: select_take cands_in_def [of D S cs] cands_take)
  have sS: "snd ` set ?sel \<subseteq> S" by (rule cands_ids [OF sel(2)])
  have n: "set (?n j) = set (?nbs j) \<union> (if j = i then snd ` set ?sel else {}) \<union> (if j \<in> snd ` set ?sel then {i} else {})"
    "distinct (?n j)" for j by (rule fold_link_nbs(1), rule fold_link_nbs(2) [OF assms(4)])
  have n_i: "set (?n i) = snd ` set ?sel" using n(1) [of i] assms(5) i sS by auto
  have dst: "\<exists>d. id_dist ?m col i nb = Returns d \<and> d \<noteq> NaN" for nb using assms(1) by (auto simp: insertable_def)
  have i_out: "i \<notin> set (?n i)" using n_i sS i by auto
  have full: "set (?n nb) = insert i (set (?nbs nb)) \<and> (\<forall>x \<in> set (?nbs nb). x < i) \<and> card (set (?nbs nb)) = unat ?cap"
    if nb: "nb \<in> set (?n i)" for nb
  proof -
    have "nb \<in> S" "nb \<noteq> i" using nb n_i sS i by auto
    moreover have "set (?nbs nb) \<subseteq> S" using S(1) \<open>nb \<in> S\<close> by (simp add: closed_under_def)
    ultimately show ?thesis using n(1) [of nb] nb n_i assms(6) distinct_card [OF assms(4)] S(2) by auto
  qed
  obtain nbs' where
    nbs': "fold_outcome (shrink_one (id_dist ?m col i) ?cap i) (?n i) ?n = Returns nbs'"
    "\<forall>j. distinct (nbs' j) \<and> set (nbs' j) = (if j \<in> set (?n i) then set (?nbs j) else set (?n j))"
    using shrink_all_full [where dst = "id_dist ?m col i" and X = "\<lambda>nb. set (?nbs nb)", OF dst n(2) i_out n(2) full] by blast
  have "set (nbs' j) = set (?nbs j) \<and> distinct (nbs' j) \<and> distinct (?nbs j)" if "j \<in> S" for j
    using nbs'(2) n(1) [of j] n_i that i assms(4) by auto
  then have "full_layer ?cap S nbs'" by (rule full_layer_sets [OF assms(3)])
  moreover have "create_neighbour_set cs \<noteq> []" "set (create_neighbour_set cs) \<subseteq> S"
    using create_neighbour_set(2) [of cs] cs(2) cands_ids [OF cs(3)] by (auto simp flip: set_empty)
  ultimately show ?thesis using cs(1) sel(1) nbs' assms(2) by (auto simp: link_layer_def layer_at_def)
qed

lemma rev_upt_Suc: "rev [a..<Suc b] = (if a \<le> b then b # rev [a..<b] else [])"
  by simp

lemma descend_full:
  assumes "dist_total (query_dist (h_dist (hx_params ix)) col q) D" "\<And>lc. lc < length (neighbours ix) \<Longrightarrow> closed_under (neighbours ix ! lc) (R lc)"
    and "\<And>lc. R (Suc lc) \<subseteq> R lc" "b \<le> length (neighbours ix)" "ep \<noteq> []" "set ep \<subseteq> R (b - 1)" "a \<le> b"
  shows "\<exists>ep'. fold_outcome (descend_layer ix col q) (rev [a..<b]) ep = Returns ep' \<and> ep' \<noteq> [] \<and> set ep' \<subseteq> R (a - 1)"
  using assms(4-)
proof (induction b arbitrary: ep)
  case (Suc b)
  show ?case
  proof (cases "a \<le> b")
    case True
    have "set ep \<subseteq> R b" "b < length (neighbours ix)" using Suc.prems by simp_all
    from search_layer_ok [OF assms(1) this(2,1) assms(2) [OF this(2)] Suc.prems(2), of 1] obtain cs where
      cs: "search_layer ix col q ep 1 b = Returns cs" "cs \<noteq> []" "cands_in D (R b) cs" by blast
    then obtain c cs' where "cs = c # cs'" "snd c \<in> R b" by (cases cs) (auto simp: cands_in_def)
    then have "descend_layer ix col q b ep = Returns [snd c]" using cs(1) by (simp add: descend_layer_def)
    moreover have "snd c \<in> R (b - 1)" using \<open>snd c \<in> R b\<close> assms(3) [of "b - 1"] by (cases b) auto
    ultimately show ?thesis using Suc.IH [of "[snd c]"] Suc.prems(1) True by auto
  next
    case False
    then have "a = Suc b" using Suc.prems(4) by simp
    then show ?thesis using Suc.prems by simp
  qed
qed auto

lemma link_layers_full:
  assumes "insertable (h_dist (hx_params ix)) col i v" "\<And>lc. R (Suc lc) \<subseteq> R lc" "\<forall>x \<in> R 0. x < i"
    and "\<And>lc j. lc < length (neighbours ix) \<Longrightarrow> distinct ((neighbours ix ! lc) j) \<and> (neighbours ix ! lc) i = []"
    and "\<And>lc. lc < length (neighbours ix) \<Longrightarrow> full_layer (layer_cap ix lc) (R lc) (neighbours ix ! lc)"
    and "b \<le> length (neighbours ix)" "ep \<noteq> []" "set ep \<subseteq> R (b - 1)"
  shows "\<exists>n' ep'. fold_outcome (link_layer col i v) (rev [0..<b]) (ix, ep) = Returns (ix\<lparr>neighbours := n'\<rparr>, ep') \<and>
    length n' = length (neighbours ix) \<and> (\<forall>lc < length n'. full_layer (layer_cap ix lc) (R lc) (n' ! lc))"
proof -
  have le: "R lc \<subseteq> R 0" for lc by (induction lc) (use assms(2) in blast)+
  have "\<exists>n' ep'. fold_outcome (link_layer col i v) (rev [0..<b]) (x, ep) = Returns (x\<lparr>neighbours := n'\<rparr>, ep') \<and>
      length n' = length (neighbours x) \<and> (\<forall>lc < length n'. full_layer (layer_cap ix lc) (R lc) (n' ! lc))"
    if "hx_params x = hx_params ix" "b \<le> length (neighbours x)" "ep \<noteq> []" "set ep \<subseteq> R (b - 1)"
      "\<And>lc j. lc < b \<Longrightarrow> distinct ((neighbours x ! lc) j) \<and> (neighbours x ! lc) i = []"
      "\<And>lc. lc < length (neighbours x) \<Longrightarrow> full_layer (layer_cap ix lc) (R lc) (neighbours x ! lc)" for x ep
    using that
  proof (induction b arbitrary: x ep)
    case 0
    have "x\<lparr>neighbours := neighbours x\<rparr> = x" by simp
    then show ?case using 0 by (metis fold_outcome.simps(1) rev.simps(1) upt_0)
  next
    case (Suc b)
    have b: "b < length (neighbours x)" "set ep \<subseteq> R b" "\<forall>y \<in> R b. y < i" using Suc.prems(2,4) assms(3) le by auto
    have cap: "layer_cap x lc = layer_cap ix lc" for lc using Suc.prems(1) by (simp add: layer_cap_def)
    obtain nbs' ep' where l: "link_layer col i v b (x, ep) = Returns (x\<lparr>neighbours := (neighbours x)[b := nbs']\<rparr>, ep')"
      "full_layer (layer_cap ix b) (R b) nbs'" "ep' \<noteq> []" "set ep' \<subseteq> R b"
      using link_layer_full [of x col i v b "R b" ep] Suc.prems b assms(1) cap by auto
    let ?x = "x\<lparr>neighbours := (neighbours x)[b := nbs']\<rparr>"
    have "R b \<subseteq> R (b - 1)" using assms(2) [of "b - 1"] by (cases b) auto
    then have "\<exists>n' ep''. fold_outcome (link_layer col i v) (rev [0..<b]) (?x, ep') = Returns (?x\<lparr>neighbours := n'\<rparr>, ep'') \<and>
        length n' = length (neighbours ?x) \<and> (\<forall>lc < length n'. full_layer (layer_cap ix lc) (R lc) (n' ! lc))"
      using Suc.prems l b(1) by (intro Suc.IH) (auto simp: nth_list_update)
    then show ?case using l(1) by auto
  qed
  then show ?thesis using assms(4-8) by auto
qed

lemma layers_down_nat: "layers_down (int n) (int m) = rev [m..<Suc n]"
  by (simp add: layers_down_def nat_add_distrib)

lemma full_part_parts:
  assumes "full_part R ix" "hnsw_ok ix"
  obtains M where "max_layer ix = int M" "length (neighbours ix) = Suc M" "entry_point ix \<in> R M" "\<And>lc. R (Suc lc) \<subseteq> R lc"
    "R 0 \<subseteq> set (inserted ix)" "entry_point ix \<noteq> 0"
    "\<And>lc. lc < Suc M \<Longrightarrow> full_layer (layer_cap ix lc) (R lc) (neighbours ix ! lc)"
proof -
  obtain M where M: "max_layer ix = int M" using assms(1) by (auto simp: full_part_def dest: zero_le_imp_eq_int)
  have len: "length (neighbours ix) = Suc M" using assms(2) M by (simp add: hnsw_ok_def graph_ok_def nat_add_distrib)
  have mono: "\<And>lc. R (Suc lc) \<subseteq> R lc" and e: "entry_point ix \<in> R M" using assms(1) M by (simp_all add: full_part_def)
  have "R lc \<subseteq> R 0" for lc by (induction lc) (use mono in blast)+
  moreover have "0 \<notin> R 0" using assms(1) by (simp add: full_part_def)
  ultimately have "entry_point ix \<noteq> 0" using e by (metis subsetD)
  then show thesis using that [OF M len e mono] assms(1) len by (simp add: full_part_def)
qed

lemma hnsw_insert_full:
  assumes "hnsw_ok ix" "i \<notin> set (inserted ix)" "h_M (hx_params ix) \<noteq> 1" "get_vector_by_id col i = Returns (Some v)"
    and "insertable (h_dist (hx_params ix)) col i v" "full_part R ix" "\<forall>x \<in> R 0. x < i" "int (lv i) \<le> max_layer ix"
  shows "\<exists>ix'. hnsw_insert col lv i ix = Returns ix' \<and> full_part R ix' \<and> max_layer ix' = max_layer ix"
proof -
  let ?l = "int (lv i)"
  obtain M where M: "max_layer ix = int M" "length (neighbours ix) = Suc M" "entry_point ix \<in> R M" "\<And>lc. R (Suc lc) \<subseteq> R lc"
    "R 0 \<subseteq> set (inserted ix)" "entry_point ix \<noteq> 0"
    "\<And>lc. lc < Suc M \<Longrightarrow> full_layer (layer_cap ix lc) (R lc) (neighbours ix ! lc)"
    by (rule full_part_parts [OF assms(6,1)]) (rule that)
  define ix1 where "ix1 = ix\<lparr>node_levels := (node_levels ix)(i := ?l),
    entry_point := (if entry_point ix = 0 then i else entry_point ix)\<rparr>"
  have sel: "hx_params ix1 = hx_params ix" "max_layer ix1 = int M" "neighbours ix1 = neighbours ix"
    "inserted ix1 = inserted ix" "entry_point ix1 = entry_point ix" "layer_cap ix1 lc = layer_cap ix lc" for lc
    using M(1,6) by (simp_all add: ix1_def)
  have ins: "insertable (h_dist (hx_params ix1)) col i v" using assms(5) sel by simp
  then obtain D where D: "dist_total (query_dist (h_dist (hx_params ix1)) col v) D" by (auto simp: insertable_def)
  have cl: "closed_under (neighbours ix1 ! lc) (R lc)" if "lc < length (neighbours ix1)" for lc
    using M(7) [of lc] that M(2) by (simp add: sel full_layer_def)
  have l: "lv i \<le> M" using assms(8) M(1) by simp
  have len: "Suc M \<le> length (neighbours ix1)" "Suc (lv i) \<le> length (neighbours ix1)" using M(2) l by (simp_all add: sel)
  have e: "set [entry_point ix1] \<subseteq> R (Suc M - 1)" using M(3) by (simp add: sel)
  obtain ep where ep: "fold_outcome (descend_layer ix1 col v) (rev [Suc (lv i)..<Suc M]) [entry_point ix1] = Returns ep"
    "ep \<noteq> []" "set ep \<subseteq> R (Suc (lv i) - 1)"
    using descend_full [OF D cl M(4) len(1) _ e, of "Suc (lv i)"] l by auto
  have fresh: "distinct ((neighbours ix1 ! lc) j) \<and> (neighbours ix1 ! lc) i = []" if "lc < length (neighbours ix1)" for lc j
    using hnsw_layer [OF assms(1), of lc] assms(2) that by (simp add: sel layer_ok_def)
  have full: "full_layer (layer_cap ix1 lc) (R lc) (neighbours ix1 ! lc)" if "lc < length (neighbours ix1)" for lc
    using M(7) [of lc] that M(2) by (simp add: sel)
  obtain n' ep' where n': "fold_outcome (link_layer col i v) (rev [0..<Suc (lv i)]) (ix1, ep) = Returns (ix1\<lparr>neighbours := n'\<rparr>, ep')"
    "length n' = length (neighbours ix1)" "\<forall>lc < length n'. full_layer (layer_cap ix1 lc) (R lc) (n' ! lc)"
    using link_layers_full [OF ins M(4) assms(7) fresh full len(2) ep(2,3)] by blast
  have layers: "layers_down (max_layer ix1) (?l + 1) = rev [Suc (lv i)..<Suc M]"
    "layers_down (min ?l (max_layer ix1)) 0 = rev [0..<Suc (lv i)]"
    using layers_down_nat [of M "Suc (lv i)"] layers_down_nat [of "lv i" 0] l by (simp_all add: sel min_def add.commute)
  let ?r = "(promote i ?l (ix1\<lparr>neighbours := n'\<rparr>))\<lparr>inserted := set_insert i (inserted (ix1\<lparr>neighbours := n'\<rparr>))\<rparr>"
  have "draw_level ix lv i = Returns ?l" using assms(3) by (simp add: draw_level_def)
  then have "hnsw_insert col lv i ix = Returns ?r"
    unfolding hnsw_insert_def by (simp only: obind.simps ix1_def [symmetric])
      (simp only: assms(4) obind.simps option.case layers ep(1) n'(1) case_prod_conv)
  moreover have "promote i ?l (ix1\<lparr>neighbours := n'\<rparr>) = ix1\<lparr>neighbours := n'\<rparr>" using l by (simp add: promote_def sel)
  moreover have "full_part R ((ix1\<lparr>neighbours := n'\<rparr>)\<lparr>inserted := set_insert i (inserted ix1)\<rparr>)"
    using n'(2,3) M assms(6) by (auto simp: full_part_def sel)
  ultimately show ?thesis using M(1) by (simp add: sel)
qed

lemma hnsw_inserts_full:
  assumes "hnsw_ok ix" "distinct (inserted ix @ ids)" "h_M (hx_params ix) \<noteq> 1"
    and "all_rankable (h_dist (hx_params ix)) t" "set ids \<subseteq> set (keys_of (vectors t))"
    and "full_part R ix" "\<forall>i \<in> set ids. (\<forall>x \<in> R 0. x < i) \<and> int (lv i) \<le> max_layer ix"
  shows "\<exists>ix'. fold_outcome (hnsw_insert t lv) ids ix = Returns ix' \<and> hnsw_ok ix' \<and> full_part R ix' \<and>
    inserted ix' = inserted ix @ ids \<and> hx_params ix' = hx_params ix"
  using assms
proof (induction ids arbitrary: ix)
  case (Cons i ids)
  then obtain v where v: "map_of (vectors t) i = Some v" by (metis key_has_value list.set_intros(1) subsetD)
  from Cons.prems(2) have i: "i \<notin> set (inserted ix)" by simp
  note vec = all_rankable_lookup(2) [OF Cons.prems(4) v] all_rankable_insertable [OF Cons.prems(4) v]
  obtain ix1 where "hnsw_insert t lv i ix = Returns ix1" "hnsw_ok ix1" "inserted ix1 = inserted ix @ [i]"
    "hx_params ix1 = hx_params ix"
    using hnsw_insert_ok [OF Cons.prems(1) i Cons.prems(3) vec, of lv] by blast
  moreover have "full_part R ix1 \<and> max_layer ix1 = max_layer ix"
    using hnsw_insert_full [OF Cons.prems(1) i Cons.prems(3) vec Cons.prems(6), of lv] Cons.prems(7) calculation(1) by auto
  ultimately show ?case using Cons.IH [of ix1] Cons.prems by auto
qed auto

text \<open>A search finds nothing outside of the full part.\<close>

lemma search_full_part:
  assumes "hnsw_ok ix" "full_part R ix" "rankable (h_dist (hx_params ix)) q t" "set (inserted ix) \<subseteq> set (keys_of (vectors t))"
  shows "\<exists>rs. hnsw_search_built t q k ix = Returns rs \<and> fst ` snd ` set rs \<subseteq> R 0"
proof (cases "k = 0")
  case False
  obtain M where M: "max_layer ix = int M" "length (neighbours ix) = Suc M" "entry_point ix \<in> R M" "\<And>lc. R (Suc lc) \<subseteq> R lc"
    "R 0 \<subseteq> set (inserted ix)" "entry_point ix \<noteq> 0"
    "\<And>lc. lc < Suc M \<Longrightarrow> full_layer (layer_cap ix lc) (R lc) (neighbours ix ! lc)"
    by (rule full_part_parts [OF assms(2,1)]) (rule that)
  note D = rankable_total [OF assms(3)]
  have cl: "closed_under (neighbours ix ! lc) (R lc)" if "lc < length (neighbours ix)" for lc
    using M(7) [of lc] that M(2) by (simp add: full_layer_def)
  have e: "set [entry_point ix] \<subseteq> R (Suc M - 1)" using M(3) by simp
  have len0: "0 < length (neighbours ix)" using M(2) by simp
  obtain ep where ep: "fold_outcome (descend_layer ix t q) (rev [Suc 0..<Suc M]) [entry_point ix] = Returns ep"
    "ep \<noteq> []" "set ep \<subseteq> R 0" using descend_full [OF D cl M(4) _ _ e, of "Suc 0"] M(2) by auto
  have ep1: "fold_outcome (descend_layer ix t q) (layers_down (max_layer ix) 1) [entry_point ix] = Returns ep"
    using ep(1) layers_down_nat [of M "Suc 0"] by (simp add: M(1))
  let ?ef = "max (min k (word_of_nat (length (inserted ix)))) (h_ef_search (hx_params ix))"
  have c0: "closed_under (neighbours ix ! 0) (R 0)" by (rule cl [OF len0])
  obtain cs where cs: "search_layer ix t q ep ?ef 0 = Returns cs" "cands_in (known_dist (h_dist (hx_params ix)) t q) (R 0) cs"
    using search_layer_ok [OF D len0 ep(3) c0 ep(2), of ?ef] by (elim exE conjE)
  have ids: "snd ` set cs \<subseteq> R 0" by (rule cands_ids [OF cs(2)])
  have ne: "inserted ix \<noteq> []"
  proof -
    have "R lc \<subseteq> R 0" for lc by (induction lc) (use M(4) in blast)+
    then show ?thesis using M(3,5) by fastforce
  qed
  show ?thesis
    using search_built_results [OF assms(1) ne False assms(3,4) cs(1) ep1] ids M(5)
    by (auto dest!: in_set_takeD)
qed (simp add: hnsw_search_built_def)

subsection \<open>How a graph gets full\<close>

text \<open>While there is room, a node on the only layer is linked to all others.\<close>

definition complete_graph :: "hnsw_index \<Rightarrow> bool" where
  "complete_graph ix \<longleftrightarrow>
     hnsw_ok ix \<and> max_layer ix = 0 \<and> inserted ix \<noteq> [] \<and> 0 \<notin> set (inserted ix) \<and>
     (\<forall>j \<in> set (inserted ix). set ((neighbours ix ! 0) j) = set (inserted ix) - {j})"

lemma complete_layer:
  assumes "complete_graph ix"
  shows "length (neighbours ix) = 1" "entry_point ix \<in> set (inserted ix)" "entry_point ix \<noteq> 0" "distinct (inserted ix)"
    "layer_ok (layer_cap ix 0) (set (inserted ix)) (neighbours ix ! 0)"
  using assms hnsw_layer [of ix 0] by (auto simp: complete_graph_def hnsw_ok_def graph_ok_def)

lemma shrink_none:
  "(\<And>nb. nb \<in> set sel \<Longrightarrow> length (n nb) \<le> unat cap) \<Longrightarrow> fold_outcome (shrink_one dst cap i) sel n = Returns n"
  by (induction sel) (simp_all add: shrink_one_def leD)

lemma complete_candidates:
  assumes "complete_graph ix" "dist_total (query_dist (h_dist (hx_params ix)) col v) D" "length (inserted ix) \<le> unat ef"
  shows "\<exists>cs. search_layer ix col v [entry_point ix] ef 0 = Returns cs \<and> cands_in D (set (inserted ix)) cs \<and>
    snd ` set cs = set (inserted ix) \<and> length cs = length (inserted ix)"
proof -
  let ?S = "set (inserted ix)"
  note c = complete_layer [OF assms(1)]
  have "set [entry_point ix] \<subseteq> ?S" "0 < length (neighbours ix)" "card ?S \<le> unat ef"
    using c(1,2) assms(3) by (simp_all add: distinct_card [OF c(4)])
  with search_layer_full [OF assms(2) _ _ layer_ok_closed [OF c(5)], of "[entry_point ix]" ef] obtain cs where
    cs: "search_layer ix col v [entry_point ix] ef 0 = Returns cs" "cands_in D ?S cs" "entry_point ix \<in> snd ` set cs"
    "closed_under (neighbours ix ! 0) (snd ` set cs)" by auto
  have "set ((neighbours ix ! 0) (entry_point ix)) = ?S - {entry_point ix}"
    using assms(1) c(2) by (simp add: complete_graph_def)
  then have "?S - {entry_point ix} \<subseteq> snd ` set cs" using cs(3,4) unfolding closed_under_def by blast
  then have all: "snd ` set cs = ?S" using cs(3) cands_ids [OF cs(2)] by blast
  moreover have "length cs = length (inserted ix)"
    using distinct_card [OF cands_in_distinct [OF cs(2)]] distinct_card [OF c(4)] all by simp
  ultimately show ?thesis using cs(1,2) by blast
qed

lemma link_complete:
  assumes "complete_graph ix" "hx_params x = hx_params ix" "neighbours x = neighbours ix" "i \<notin> set (inserted ix)"
    and "insertable (h_dist (hx_params ix)) col i v" "length (inserted ix) \<le> unat (h_M0 (hx_params ix))"
    and "h_M0 (hx_params ix) \<le> h_ef_construction (hx_params ix)"
  shows "\<exists>n ep'. link_layer col i v 0 (x, [entry_point ix]) = Returns (x\<lparr>neighbours := [n]\<rparr>, ep') \<and>
    (\<forall>j \<in> insert i (set (inserted ix)). set (n j) = insert i (set (inserted ix)) - {j})"
proof -
  let ?S = "set (inserted ix)" and ?cap = "h_M0 (hx_params ix)" and ?nbs = "neighbours ix ! 0"
  note c = complete_layer [OF assms(1)]
  obtain D where D: "dist_total (query_dist (h_dist (hx_params ix)) col v) D" using assms(5) by (auto simp: insertable_def)
  have ef: "length (inserted ix) \<le> unat (h_ef_construction (hx_params ix))" using assms(6,7) by (simp add: word_le_nat_alt)
  obtain cs where cs: "search_layer ix col v [entry_point ix] (h_ef_construction (hx_params ix)) 0 = Returns cs"
    "cands_in D ?S cs" "snd ` set cs = ?S" "length cs = length (inserted ix)"
    using complete_candidates [OF assms(1) D ef] by blast
  have cap: "layer_cap x 0 = ?cap" "layer_cap ix 0 = ?cap" using assms(2) by (simp_all add: layer_cap_def)
  have lay: "layer_at x 0 = Returns ?nbs" using c(1) assms(3) by (simp add: layer_at_def)
  have sl: "search_layer x col v ep ef 0 = search_layer ix col v ep ef 0" for ep ef
    by (simp add: search_layer_def layer_at_def assms(2,3))
  have sel: "select_neighbors_heuristic cs ?cap = Returns cs"
    using cs(2,4) assms(6) by (simp add: select_take cands_in_def)
  let ?n = "fold (\<lambda>c. link i (snd c)) cs ?nbs"
  have d: "distinct (?nbs j)" for j using c(5) by (simp add: layer_ok_def)
  have n: "set (?n j) = set (?nbs j) \<union> (if j = i then ?S else {}) \<union> (if j \<in> ?S then {i} else {})" "distinct (?n j)" for j
    unfolding cs(3) [symmetric] by (rule fold_link_nbs(1), rule fold_link_nbs(2) [OF d])
  have ni: "?nbs i = []" using c(5) assms(4) by (simp add: layer_ok_def)
  have sets: "set (?n j) = insert i ?S - {j}" if "j \<in> insert i ?S" for j
    using n(1) [of j] that assms(1,4) ni by (auto simp: complete_graph_def)
  have "length (?n j) \<le> unat ?cap" if j: "j \<in> set (?n i)" for j
  proof -
    have "j \<in> insert i ?S" using j sets [of i] by auto
    then have "card (set (?n j)) = card ?S" using sets [of j] assms(4) by (simp add: card_Diff_singleton_if)
    then show ?thesis using distinct_card [OF n(2) [of j]] distinct_card [OF c(4)] assms(6) by simp
  qed
  then have sh: "fold_outcome (shrink_one dst ?cap i) (?n i) ?n = Returns ?n" for dst by (rule shrink_none)
  obtain nb0 where nb0: "neighbours ix = [nb0]" using c(1) by (cases "neighbours ix") auto
  have "link_layer col i v 0 (x, [entry_point ix]) = Returns (x\<lparr>neighbours := [?n]\<rparr>, create_neighbour_set cs)"
    by (simp add: link_layer_def sl cs(1) assms(2) cap sel lay sh) (simp add: assms(3) nb0)
  then show ?thesis using sets by blast
qed

lemma hnsw_insert_complete:
  assumes "complete_graph ix" "i \<notin> set (inserted ix)" "i \<noteq> 0" "h_M (hx_params ix) \<noteq> 1" "get_vector_by_id col i = Returns (Some v)"
    and "insertable (h_dist (hx_params ix)) col i v" "length (inserted ix) \<le> unat (h_M0 (hx_params ix))"
    and "h_M0 (hx_params ix) \<le> h_ef_construction (hx_params ix)"
  shows "\<exists>ix'. hnsw_insert col (\<lambda>_. 0) i ix = Returns ix' \<and> complete_graph ix' \<and> inserted ix' = inserted ix @ [i] \<and>
    hx_params ix' = hx_params ix"
proof -
  have m: "max_layer ix = 0" and ok: "hnsw_ok ix" using assms(1) by (simp_all add: complete_graph_def)
  note c = complete_layer [OF assms(1)]
  define ix1 where "ix1 = ix\<lparr>node_levels := (node_levels ix)(i := int 0),
    entry_point := (if entry_point ix = 0 then i else entry_point ix)\<rparr>"
  have sel: "hx_params ix1 = hx_params ix" "max_layer ix1 = 0" "neighbours ix1 = neighbours ix"
    "inserted ix1 = inserted ix" "entry_point ix1 = entry_point ix"
    using c(3) m by (simp_all add: ix1_def)
  obtain n ep where l: "link_layer col i v 0 (ix1, [entry_point ix]) = Returns (ix1\<lparr>neighbours := [n]\<rparr>, ep)"
    "\<forall>j \<in> insert i (set (inserted ix)). set (n j) = insert i (set (inserted ix)) - {j}"
    using link_complete [OF assms(1) sel(1,3) assms(2,6-8)] by blast
  have ld: "layers_down 0 1 = []" "layers_down 0 0 = [0]" by (simp_all add: layers_down_def)
  let ?r = "ix1\<lparr>neighbours := [n], inserted := inserted ix @ [i]\<rparr>"
  have r: "promote i 0 (ix1\<lparr>neighbours := [n]\<rparr>) = ix1\<lparr>neighbours := [n]\<rparr>" "set_insert i (inserted ix) = inserted ix @ [i]"
    using assms(2) by (simp_all add: promote_def sel set_insert_def)
  have "draw_level ix (\<lambda>_. 0) i = Returns (int 0)" using assms(4) by (simp add: draw_level_def)
  then have "hnsw_insert col (\<lambda>_. 0) i ix = Returns ?r"
    unfolding hnsw_insert_def by (simp only: obind.simps ix1_def [symmetric])
      (simp add: assms(5) sel ld l(1) r)
  moreover obtain ix' where "hnsw_insert col (\<lambda>_. 0) i ix = Returns ix'" "hnsw_ok ix'"
    using hnsw_insert_ok [OF ok assms(2,4-6), of "\<lambda>_. 0"] by blast
  ultimately have "hnsw_ok ?r" by simp
  then show ?thesis using \<open>hnsw_insert col (\<lambda>_. 0) i ix = Returns ?r\<close> l(2) assms(1,3) m
    by (simp add: complete_graph_def sel)
qed

lemma hnsw_inserts_complete:
  assumes "complete_graph ix" "distinct (inserted ix @ ids)" "0 \<notin> set ids" "h_M (hx_params ix) \<noteq> 1"
    and "all_rankable (h_dist (hx_params ix)) t" "set ids \<subseteq> set (keys_of (vectors t))"
    and "length (inserted ix @ ids) \<le> Suc (unat (h_M0 (hx_params ix)))" "h_M0 (hx_params ix) \<le> h_ef_construction (hx_params ix)"
  shows "\<exists>ix'. fold_outcome (hnsw_insert t (\<lambda>_. 0)) ids ix = Returns ix' \<and> complete_graph ix' \<and>
    inserted ix' = inserted ix @ ids \<and> hx_params ix' = hx_params ix"
  using assms
proof (induction ids arbitrary: ix)
  case (Cons i ids)
  then obtain v where v: "map_of (vectors t) i = Some v" by (metis key_has_value list.set_intros(1) subsetD)
  have i: "i \<notin> set (inserted ix)" "i \<noteq> 0" "length (inserted ix) \<le> unat (h_M0 (hx_params ix))" using Cons.prems(2,3,7) by auto
  obtain ix1 where "hnsw_insert t (\<lambda>_. 0) i ix = Returns ix1" "complete_graph ix1" "inserted ix1 = inserted ix @ [i]"
    "hx_params ix1 = hx_params ix"
    using hnsw_insert_complete [OF Cons.prems(1) i(1,2) Cons.prems(4) all_rankable_lookup(2) [OF Cons.prems(5) v]
        all_rankable_insertable [OF Cons.prems(5) v] i(3) Cons.prems(8)] by blast
  then show ?case using Cons.IH [of ix1] Cons.prems by auto
qed simp

lemma hnsw_insert_first:
  assumes "inserted ix = []" "neighbours ix = []" "max_layer ix = - 1" "entry_point ix = 0" "i \<noteq> 0" "h_M (hx_params ix) \<noteq> 1"
    and "get_vector_by_id col i = Returns (Some v)"
  shows "\<exists>ix'. hnsw_insert col (\<lambda>_. 0) i ix = Returns ix' \<and> complete_graph ix' \<and> inserted ix' = [i] \<and> hx_params ix' = hx_params ix"
  using assms by (simp add: hnsw_insert_def draw_level_def layers_down_def promote_def set_insert_def complete_graph_def
      hnsw_ok_def graph_ok_def layer_ok_def)

lemma complete_full:
  assumes "complete_graph ix" "length (inserted ix) = Suc (unat (h_M0 (hx_params ix)))"
  shows "full_part (\<lambda>_. set (inserted ix)) ix"
proof -
  note c = complete_layer [OF assms(1)]
  have "length ((neighbours ix ! 0) j) = unat (h_M0 (hx_params ix))" if j: "j \<in> set (inserted ix)" for j
  proof -
    have "distinct ((neighbours ix ! 0) j)" using c(5) by (simp add: layer_ok_def)
    then have "length ((neighbours ix ! 0) j) = card (set (inserted ix) - {j})"
      using assms(1) j by (simp add: complete_graph_def flip: distinct_card)
    then show ?thesis using j assms(2) distinct_card [OF c(4)] by simp
  qed
  then show ?thesis using assms(1) c(1,2) layer_ok_closed [OF c(5)]
    by (auto simp: full_part_def full_layer_def complete_graph_def layer_cap_def)
qed

lemma hnsw_init_full:
  assumes "h_M (hx_params ix0) \<noteq> 1" "h_M0 (hx_params ix0) \<le> h_ef_construction (hx_params ix0)" "all_rankable (h_dist (hx_params ix0)) t"
    and "vectors t = first @ later" "length first = Suc (unat (h_M0 (hx_params ix0)))" "0 \<notin> set (keys_of first)"
    and "\<forall>i \<in> set (keys_of first). \<forall>j \<in> set (keys_of later). i < j"
  shows "\<exists>ix. hnsw_init (Some t) (\<lambda>_. 0) ix0 = Returns ix \<and> hnsw_ok ix \<and> full_part (\<lambda>_. set (keys_of first)) ix \<and>
    inserted ix = keys_of (vectors t) \<and> hx_params ix = hx_params ix0 \<and> to_be_inserted ix = [] \<and> to_be_removed ix = []"
proof -
  let ?ids = "keys_of (vectors t)" and ?base = "(hnsw_clear ix0)\<lparr>to_be_inserted := keys_of (vectors t)\<rparr>"
  have t: "vec_mutex t \<noteq> Exclusive" "distinct ?ids" using assms(3) by (auto simp: all_rankable_def)
  obtain p rest where first: "first = p # rest" using assms(5) by (cases first) auto
  have ids: "?ids = fst p # keys_of rest @ keys_of later" using assms(4) first by simp
  obtain v where v: "map_of (vectors t) (fst p) = Some v" by (metis ids key_has_value list.set_intros(1))
  have base: "hx_params ?base = hx_params ix0" by (simp add: hnsw_clear_def)
  obtain ix1 where ix1: "hnsw_insert t (\<lambda>_. 0) (fst p) ?base = Returns ix1" "complete_graph ix1" "inserted ix1 = [fst p]"
    "hx_params ix1 = hx_params ix0"
    using hnsw_insert_first [of ?base "fst p" t] all_rankable_lookup(2) [OF assms(3) v] assms(1,6) first
    by (auto simp: hnsw_clear_def)
  have "distinct (inserted ix1 @ keys_of rest)" "set (keys_of rest) \<subseteq> set ?ids" "0 \<notin> set (keys_of rest)"
    "length (inserted ix1 @ keys_of rest) \<le> Suc (unat (h_M0 (hx_params ix1)))"
    using t(2) ids ix1(3,4) assms(5,6) first by auto
  with hnsw_inserts_complete [OF ix1(2), of "keys_of rest" t] assms(1-3) ix1(4) obtain ix2 where
    ix2: "fold_outcome (hnsw_insert t (\<lambda>_. 0)) (keys_of rest) ix1 = Returns ix2" "complete_graph ix2"
    "inserted ix2 = keys_of first" "hx_params ix2 = hx_params ix0" by (auto simp: ix1(3) first)
  have full: "full_part (\<lambda>_. set (keys_of first)) ix2"
    using complete_full [OF ix2(2)] ix2(3,4) assms(5) by simp
  have ok: "hnsw_ok ix2" "max_layer ix2 = 0" using ix2(2) by (simp_all add: complete_graph_def)
  have "distinct (inserted ix2 @ keys_of later)" "set (keys_of later) \<subseteq> set ?ids" using t(2) assms(4) ix2(3) by auto
  with hnsw_inserts_full [OF ok(1), of "keys_of later" t "\<lambda>_. set (keys_of first)" "\<lambda>_. 0"] full assms(1,3,7) ix2(4) ok(2)
  obtain ix3 where
    ix3: "fold_outcome (hnsw_insert t (\<lambda>_. 0)) (keys_of later) ix2 = Returns ix3" "hnsw_ok ix3"
    "full_part (\<lambda>_. set (keys_of first)) ix3" "inserted ix3 = ?ids" "hx_params ix3 = hx_params ix0"
    using assms(4) ix2(3) by auto
  have run: "fold_outcome (hnsw_insert t (\<lambda>_. 0)) ?ids ?base = Returns ix3"
    using ix1(1) ix2(1) ix3(1) unfolding ids by (simp add: fold_outcome_append)
  have empty: "to_be_removed ?base = []" "fix_entry_point (?base\<lparr>to_be_removed := []\<rparr>) = ?base"
    by (simp_all add: fix_entry_point_def hnsw_clear_def)
  have "hnsw_build t (\<lambda>_. 0) ?base = Returns (ix3\<lparr>to_be_removed := [], to_be_inserted := []\<rparr>)"
    unfolding hnsw_build_def empty(1) by (simp only: fold_outcome.simps obind.simps empty(2)) (simp add: run)
  moreover have "get_all_vector_ids t = Returns ?ids"
    using t fold_set_insert [of fst "vectors t" "[]"] by (simp add: get_all_vector_ids_def)
  moreover have "fold set_insert ?ids [] = ?ids" using t(2) fold_set_insert [of "\<lambda>i. i" ?ids "[]"] by simp
  ultimately have "hnsw_init (Some t) (\<lambda>_. 0) ix0 = Returns (ix3\<lparr>to_be_removed := [], to_be_inserted := []\<rparr>)"
    using ids by (simp add: hnsw_init_def)
  moreover have "hnsw_ok (ix3\<lparr>to_be_removed := [], to_be_inserted := []\<rparr>)" using ix3(2) by (simp add: hnsw_ok_def graph_ok_def)
  moreover have "full_part R (ix3\<lparr>to_be_removed := [], to_be_inserted := []\<rparr>) = full_part R ix3" for R
    by (simp add: full_part_def)
  ultimately show ?thesis using ix3 by simp
qed


definition six_vectors :: vec_table where
  "six_vectors = \<lparr>vectors =
     [(1, sample_vector 0x3F800000), (2, sample_vector 0x40000000), (3, sample_vector 0x40400000),
      (4, sample_vector 0x40800000), (5, sample_vector 0x40A00000), (6, sample_vector 0)], vec_mutex = Free\<rparr>"

lemma six_vectors_list [simp]: "vectors six_vectors =
    [(1, sample_vector 0x3F800000), (2, sample_vector 0x40000000), (3, sample_vector 0x40400000),
     (4, sample_vector 0x40800000), (5, sample_vector 0x40A00000), (6, sample_vector 0)]"
  by (simp add: six_vectors_def)


subsection \<open>Removing a node\<close>

text \<open>
  Links that go one way only, as those of a node that was dropped by its neighbours, outlive the node that they go
  to: a removal looks at the links of the removed node and not at those to it.
\<close>

lemma unlink_foreign:
  assumes "unlink_layer i lc' ix = Returns ix'" "lc < length (neighbours ix)" "j \<noteq> i" "j \<notin> set ((neighbours ix ! lc) i)"
  shows "length (neighbours ix') = length (neighbours ix) \<and> (neighbours ix' ! lc) j = (neighbours ix ! lc) j \<and>
    set ((neighbours ix' ! lc) i) \<subseteq> set ((neighbours ix ! lc) i)"
proof -
  have "fold (\<lambda>nb f. f(nb := set_erase i (f nb))) xs n k = n k" if "k \<notin> set xs" for xs n k
    using that by (induction xs arbitrary: n) auto
  then show ?thesis using assms by (auto simp: unlink_layer_def layer_at_def nth_list_update split: if_splits)
qed

lemma removal_keeps_links:
  assumes "hnsw_remove_node i ix = Returns ix'" "lc < length (neighbours ix)" "j \<noteq> i" "j \<notin> set ((neighbours ix ! lc) i)"
    and "i \<in> set ((neighbours ix ! lc) j)"
  shows "i \<in> set ((neighbours ix' ! lc) j) \<and> i \<notin> set (inserted ix')"
proof -
  let ?P = "\<lambda>x. length (neighbours x) = length (neighbours ix) \<and> (neighbours x ! lc) j = (neighbours ix ! lc) j \<and>
    set ((neighbours x ! lc) i) \<subseteq> set ((neighbours ix ! lc) i)"
  obtain x where x: "fold_outcome (unlink_layer i) [0..<nat (max_layer ix + 1)] ix = Returns x"
    "ix' = x\<lparr>node_levels := (node_levels x)(i := 0), inserted := set_erase i (inserted x)\<rparr>"
    using assms(1) by (auto simp: hnsw_remove_node_def run)
  have "?P x" using x(1)
  proof (rule fold_outcome_keeps)
    fix lc' s s' assume "?P s" "unlink_layer i lc' s = Returns s'"
    then show "?P s'" using unlink_foreign [of i lc' s s' lc j] assms(2-4) by auto
  qed simp
  then show ?thesis using assms(5) x(2) by simp
qed

end
