(* ===== verification/Truncation.thy ===== *)
theory Truncation
  imports Collection
begin

text \<open>
  What the readers make of a stream that was cut off (\<^verbatim>\<open>deserialize\<close> of \<^verbatim>\<open>float_vector\<close>, the index parameters,
  \<^verbatim>\<open>index_t\<close> and \<^verbatim>\<open>collection\<close>). None of them looks at the state of the stream. A reader that returns has
  used a part of the stream and left the rest alone, and each proper prefix of that part is too short
  for it: \<open>prefix_strict\<close>, which sequencing keeps, so that it holds of every reader by its structure.
\<close>

definition prefix_strict :: "(byte list \<Rightarrow> ('a \<times> byte list) outcome) \<Rightarrow> bool" where
  "prefix_strict d \<longleftrightarrow>
     (\<forall>bs x r. d bs = Returns (x, r) \<longrightarrow>
        (\<exists>u. bs = u @ r \<and> (\<forall>s. d (u @ s) = Returns (x, s)) \<and> (\<forall>n < length u. d (take n u) = Undefined)))"

named_theorems reader

lemma strict_use:
  assumes "prefix_strict d" "d bs = Returns (x, r)"
  obtains u where "bs = u @ r" "\<And>s. d (u @ s) = Returns (x, s)" "\<And>n. n < length u \<Longrightarrow> d (take n u) = Undefined"
  using assms unfolding prefix_strict_def by blast

text \<open>A stream that is read to its end cannot be cut short.\<close>

lemma strict_truncated:
  assumes "prefix_strict d" "d bs = Returns (x, [])" "n < length bs"
  shows "d (take n bs) = Undefined"
  using strict_use [OF assms(1,2)] assms(3) by (metis append_Nil2)

lemma strict_return [reader]: "prefix_strict (\<lambda>bs. Returns (x, bs))"
  by (simp add: prefix_strict_def)

lemma strict_bind [reader]:
  assumes "prefix_strict d" "\<And>x. prefix_strict (f x)"
  shows "prefix_strict (\<lambda>bs. obind (d bs) (\<lambda>(x, r). f x r))"
  unfolding prefix_strict_def
proof (intro allI impI)
  fix bs y r assume "obind (d bs) (\<lambda>(x, r). f x r) = Returns (y, r)"
  then obtain x r1 where x: "d bs = Returns (x, r1)" "f x r1 = Returns (y, r)" by (auto simp: run)
  obtain u where u: "bs = u @ r1" "\<And>s. d (u @ s) = Returns (x, s)" "\<And>n. n < length u \<Longrightarrow> d (take n u) = Undefined"
    using strict_use [OF assms(1) x(1)] by blast
  obtain v where v: "r1 = v @ r" "\<And>s. f x (v @ s) = Returns (y, s)" "\<And>n. n < length v \<Longrightarrow> f x (take n v) = Undefined"
    using strict_use [OF assms(2) x(2)] by blast
  have "obind (d (take n (u @ v))) (\<lambda>(x, r). f x r) = Undefined" if n: "n < length (u @ v)" for n
  proof (cases "n < length u")
    case False
    then show ?thesis using n u(2) [of "take (n - length u) v"] v(3) [of "n - length u"] by simp
  qed (simp add: u(3))
  then show "\<exists>w. bs = w @ r \<and> (\<forall>s. obind (d (w @ s)) (\<lambda>(x, r). f x r) = Returns (y, s)) \<and>
      (\<forall>n < length w. obind (d (take n w)) (\<lambda>(x, r). f x r) = Undefined)"
    by (intro exI [of _ "u @ v"]) (simp add: u(1,2) v(1,2))
qed

lemma strict_outcome [reader]:
  assumes "\<And>y. prefix_strict (f y)"
  shows "prefix_strict (\<lambda>bs. obind m (\<lambda>y. f y bs))"
  using assms by (cases m) (simp_all add: prefix_strict_def)

lemma strict_undefined [reader]: "prefix_strict (\<lambda>bs. Undefined)"
  by (simp add: prefix_strict_def)

lemma strict_if [reader]:
  "prefix_strict d \<Longrightarrow> prefix_strict e \<Longrightarrow> prefix_strict (\<lambda>bs. if b then d bs else e bs)"
  by (cases b) simp_all

lemma strict_option [reader]:
  "prefix_strict d \<Longrightarrow> (\<And>y. prefix_strict (e y)) \<Longrightarrow> prefix_strict (\<lambda>bs. case z of None \<Rightarrow> d bs | Some y \<Rightarrow> e y bs)"
  by (cases z) simp_all

lemma strict_read_bytes [reader]: "prefix_strict (read_bytes n)"
  unfolding prefix_strict_def
proof (intro allI impI)
  fix bs x r assume "read_bytes n bs = Returns (x, r)"
  then have "n \<le> length bs" "x = take n bs" "r = drop n bs" by (auto simp: read_bytes_def split: if_splits)
  then show "\<exists>u. bs = u @ r \<and> (\<forall>s. read_bytes n (u @ s) = Returns (x, s)) \<and> (\<forall>m < length u. read_bytes n (take m u) = Undefined)"
    by (intro exI [of _ "take n bs"]) (simp add: read_bytes_def)
qed

lemma strict_read_u8 [reader]: "prefix_strict read_u8"
proof -
  have e: "read_u8 = (\<lambda>bs. obind (read_bytes 1 bs) (\<lambda>(x, r). Returns (hd x, r)))"
    by (rule ext) (auto simp: read_u8_def read_bytes_def split: list.split)
  show ?thesis unfolding e by (intro reader)
qed

lemma strict_read_u32 [reader]: "prefix_strict read_u32"
  unfolding read_u32_def [abs_def] by (intro reader)

lemma strict_read_u64 [reader]: "prefix_strict read_u64"
  unfolding read_u64_def [abs_def] by (intro reader)

lemma strict_read_bool [reader]: "prefix_strict read_bool"
proof -
  have e: "read_bool = (\<lambda>bs. obind (read_u8 bs) (\<lambda>(b, r).
      if b = 0 then Returns (False, r) else if b = 1 then Returns (True, r) else Undefined))"
    by (rule ext) (auto simp: read_bool_def read_u8_def split: list.split)
  show ?thesis unfolding e by (intro reader)
qed

lemma strict_read_string [reader]: "prefix_strict read_string"
  unfolding read_string_def [abs_def] by (intro reader)

lemma strict_read_n [reader]:
  assumes "prefix_strict d"
  shows "prefix_strict (read_n d n)"
proof (induction n)
  case (Suc n)
  have e: "read_n d (Suc n) = (\<lambda>bs. obind (d bs) (\<lambda>(x, r). obind (read_n d n r) (\<lambda>(xs, r'). Returns (x # xs, r'))))"
    by (rule ext) simp
  show ?case unfolding e by (intro reader assms Suc)
next
  case 0
  have e: "read_n d 0 = (\<lambda>bs. Returns ([], bs))" by (rule ext) simp
  show ?case unfolding e by (intro reader)
qed

lemma strict_pair [reader]: "prefix_strict d \<Longrightarrow> prefix_strict e \<Longrightarrow> prefix_strict (pair_dec d e)"
  unfolding pair_dec_def [abs_def] by (intro reader)

subsection \<open>The readers of the program\<close>

lemma strict_fv [reader]: "prefix_strict fv_deserialize"
  unfolding fv_deserialize_def [abs_def] read_meta_def [abs_def] by (intro reader)

lemma strict_params [reader]: "prefix_strict hnsw_params_deserialize" "prefix_strict ivf_params_deserialize"
  unfolding hnsw_params_deserialize_def [abs_def] ivf_params_deserialize_def [abs_def] read_dist_def [abs_def]
  by (intro reader)+

lemma strict_entry [reader]: "prefix_strict read_vector_entry"
  unfolding read_vector_entry_def [abs_def] by (intro reader)

lemma strict_index [reader]: "prefix_strict (index_deserialize t)"
  unfolding index_deserialize_def [abs_def] by (intro reader)

lemma strict_indices [reader]: "prefix_strict (read_indices t lv n ixs)"
proof (induction n arbitrary: ixs)
  case (Suc n)
  have e: "read_indices t lv (Suc n) ixs = (\<lambda>bs. obind (read_string bs) (\<lambda>(name, r).
     obind (index_deserialize t r) (\<lambda>(x, r').
     case x of
       None \<Rightarrow> read_indices t lv n ixs r'
     | Some ix \<Rightarrow> obind (index_init t (lv name) ix) (\<lambda>y. read_indices t lv n (AList.update name y ixs) r'))))"
    by (rule ext) simp
  show ?case unfolding e by (intro reader Suc)
next
  case 0
  have e: "read_indices t lv 0 ixs = (\<lambda>bs. Returns (ixs, bs))" by (rule ext) simp
  show ?case unfolding e by (intro reader)
qed

lemma strict_collection [reader]: "prefix_strict (collection_deserialize lv)"
  unfolding collection_deserialize_def [abs_def] by (intro reader)

text \<open>A file that was cut off anywhere makes \<^verbatim>\<open>deserialize\<close> use values that were never read.\<close>

lemma truncated_collection_undefined:
  assumes "col_wf c" "col_storable c" "n < length (collection_bytes c)"
  shows "collection_deserialize lv (take n (collection_bytes c)) = Undefined"
proof -
  obtain c' where "collection_deserialize lv (collection_bytes c) = Returns (c', [])"
    using collection_read_back [OF assms(1,2), of lv "[]"] by auto
  then show ?thesis by (rule strict_truncated [OF strict_collection _ assms(3)])
qed

end
