(* ===== verification/Storage_Crash.thy ===== *)
theory Storage_Crash
  imports Database Truncation
begin

text \<open>
  \<^verbatim>\<open>database::save\<close> write by write: what is on the disk when the program is stopped in the middle of it, and
  what a write that fails does. The file system is as in \<open>Database\<close>, and it does what it is told in that
  order: what the operating system still holds in its buffers is not lost.
\<close>

subsection \<open>Saving write by write\<close>

text \<open>
  \<open>writing\<close> is the open stream: its file and the bytes that are still to get there. The stream hands its bytes
  on in portions of any size. \<open>saved\<close> is the status that is returned in the end.
\<close>

record save_state =
  to_save :: "(string \<times> collection) list"
  writing :: "(string \<times> byte list) option"
  disk :: files
  saved :: "status option"

definition save_start :: "database \<Rightarrow> files \<Rightarrow> save_state" where
  "save_start db fs = \<lparr>to_save = collections db, writing = None, disk = fs, saved = None\<rparr>"

text \<open>Opening the stream truncates the file.\<close>

inductive save_step :: "fs_env \<Rightarrow> save_state \<Rightarrow> save_state \<Rightarrow> bool" for e where
  opens: "writing s = None \<Longrightarrow> saved s = None \<Longrightarrow> to_save s = (name, c) # cs \<Longrightarrow>
     f = replace_extension name ''.db.tmp'' \<Longrightarrow> can_open e f \<Longrightarrow> collection_serialize c = Returns bs \<Longrightarrow>
     save_step e s (s\<lparr>to_save := cs, writing := Some (f, written e f bs), disk := AList.update f [] (disk s)\<rparr>)"
| refused: "writing s = None \<Longrightarrow> saved s = None \<Longrightarrow> to_save s = (name, c) # cs \<Longrightarrow>
     \<not> can_open e (replace_extension name ''.db.tmp'') \<Longrightarrow> save_step e s (s\<lparr>to_save := cs\<rparr>)"
| writes: "writing s = Some (f, xs @ ys) \<Longrightarrow> xs \<noteq> [] \<Longrightarrow> map_of (disk s) f = Some old \<Longrightarrow>
     save_step e s (s\<lparr>writing := Some (f, ys), disk := AList.update f (old @ xs) (disk s)\<rparr>)"
| renames: "writing s = Some (f, []) \<Longrightarrow> can_rename e f \<Longrightarrow> map_of (disk s) f = Some bs \<Longrightarrow>
     save_step e s (s\<lparr>writing := None, disk := AList.update (replace_extension f []) bs (AList.delete f (disk s))\<rparr>)"
| fails: "writing s = Some (f, []) \<Longrightarrow> \<not> can_rename e f \<Longrightarrow>
     save_step e s (s\<lparr>writing := None, saved := Some internal_error\<rparr>)"
| finishes: "writing s = None \<Longrightarrow> saved s = None \<Longrightarrow> to_save s = [] \<Longrightarrow> save_step e s (s\<lparr>saved := Some success\<rparr>)"

subsection \<open>The loop as a whole\<close>

text \<open>What the loop ends with when it goes on from a state.\<close>

definition outlook :: "fs_env \<Rightarrow> save_state \<Rightarrow> (files \<times> status) outcome" where
  "outlook e s =
     (case saved s of
        Some st \<Rightarrow> Returns (disk s, st)
      | None \<Rightarrow>
          (case writing s of
             None \<Rightarrow> save_loop e (to_save s) (disk s)
           | Some (f, rest) \<Rightarrow>
               (let bs = the (map_of (disk s) f) @ rest
                in if can_rename e f
                   then save_loop e (to_save s) (AList.update (replace_extension f []) bs (AList.delete f (disk s)))
                   else Returns (AList.update f bs (disk s), internal_error))))"

text \<open>An open stream belongs to a file on the disk, and ends with the loop.\<close>

definition stream_ok :: "save_state \<Rightarrow> bool" where
  "stream_ok s \<longleftrightarrow> (case writing s of None \<Rightarrow> True | Some (f, rest) \<Rightarrow> saved s = None \<and> f \<in> set (keys_of (disk s)))"

lemma stream_keys: "stream_ok s \<Longrightarrow> writing s = Some (f, rest) \<Longrightarrow> saved s = None \<and> (\<exists>bs. map_of (disk s) f = Some bs)"
  by (auto simp: stream_ok_def dom_map_of_conv_image_fst [symmetric])

lemma update_same: "map_of xs k = Some v \<Longrightarrow> distinct (keys_of xs) \<Longrightarrow> AList.update k v xs = xs"
  by (induction xs) (auto simp: map_of_eq_Some_iff dest: map_of_SomeD intro: image_eqI)

lemma delete_update_same [simp]: "AList.delete k (AList.update k v xs) = AList.delete k xs"
  by (induction xs) (auto simp: AList.delete_eq)

lemma save_step_outlook:
  assumes "save_step e s t" "stream_ok s" "distinct (keys_of (disk s))"
  shows "outlook e t = outlook e s \<and> stream_ok t \<and> distinct (keys_of (disk t))"
  using assms
proof (induction rule: save_step.induct)
  case (opens s name c cs f bs)
  then show ?case by (auto simp: outlook_def stream_ok_def update_conv' Let_def distinct_update)
next
  case (writes s f xs ys old)
  then show ?case using stream_keys [OF writes.prems(1) writes.hyps(1)]
    by (auto simp: outlook_def stream_ok_def update_conv' Let_def distinct_update)
next
  case (renames s f bs)
  then show ?case using stream_keys [OF renames.prems(1) renames.hyps(1)]
    by (auto simp: outlook_def stream_ok_def Let_def distinct_update distinct_delete)
next
  case (fails s f)
  then show ?case using stream_keys [OF fails.prems(1) fails.hyps(1)]
    by (auto simp: outlook_def stream_ok_def Let_def update_same)
qed (auto simp: outlook_def stream_ok_def Let_def)

text \<open>However the stream portions its bytes, the loop ends as \<open>save_loop\<close> says.\<close>

lemma save_steps_end:
  assumes "(save_step e)\<^sup>*\<^sup>* (save_start db fs) s" "distinct (keys_of fs)" "saved s = Some st"
  shows "save_loop e (collections db) fs = Returns (disk s, st)"
proof -
  have "outlook e s = outlook e (save_start db fs) \<and> stream_ok s \<and> distinct (keys_of (disk s))"
    using assms(1)
  proof (induction rule: rtranclp_induct)
    case base
    show ?case using assms(2) by (simp add: save_start_def stream_ok_def)
  next
    case (step t u)
    then show ?case using save_step_outlook [of e t u] by simp
  qed
  then show ?thesis using assms(3) by (simp add: outlook_def save_start_def)
qed

text \<open>And it always gets there.\<close>

definition save_left :: "save_state \<Rightarrow> nat" where
  "save_left s =
     (case saved s of None \<Rightarrow> 1 | Some st \<Rightarrow> 0) +
     (case writing s of None \<Rightarrow> 0 | Some (f, rest) \<Rightarrow> Suc (length rest)) +
     sum_list (map (\<lambda>p. 2 + length (collection_bytes (snd p))) (to_save s))"

lemma length_written: "length (written e f bs) \<le> length bs"
  by (simp add: written_def split: option.split)

lemma save_step_decreases:
  assumes "save_step e s t" "list_all (\<lambda>p. col_wf (snd p)) (to_save s)" "stream_ok s"
  shows "save_left t < save_left s \<and> list_all (\<lambda>p. col_wf (snd p)) (to_save t)"
  using assms
proof (induction rule: save_step.induct)
  case (opens s name c cs f bs)
  then show ?case using length_written [of e f bs] by (auto simp: save_left_def collection_serialize_wf)
next
  case (fails s f)
  then show ?case using stream_keys [OF fails.prems(2) fails.hyps(1)] by (auto simp: save_left_def)
qed (auto simp: save_left_def length_greater_0_conv [symmetric] simp del: length_greater_0_conv)

lemma save_progress:
  assumes "saved s = None" "list_all (\<lambda>p. col_wf (snd p)) (to_save s)" "stream_ok s"
  shows "\<exists>t. save_step e s t"
proof (cases "writing s")
  case None
  show ?thesis
  proof (cases "to_save s")
    case (Cons p cs)
    obtain n c where p: "p = (n, c)" by (cases p)
    have b: "collection_serialize c = Returns (collection_bytes c)" using assms(2) Cons p by (simp add: collection_serialize_wf)
    show ?thesis
      by (cases "can_open e (replace_extension n ''.db.tmp'')") (use None Cons p b assms(1) in \<open>blast intro: save_step.intros\<close>)+
  qed (use None assms(1) in \<open>blast intro: finishes\<close>)
next
  case (Some w)
  obtain f rest where w: "w = (f, rest)" by (cases w)
  obtain bs where bs: "map_of (disk s) f = Some bs" using stream_keys [OF assms(3)] Some w by blast
  show ?thesis
  proof (cases "rest = []")
    case False
    then show ?thesis using writes [of s f rest "[]" bs e] Some w bs by auto
  qed (use Some w bs in \<open>cases "can_rename e f"; blast intro: save_step.intros\<close>)
qed

lemma save_steps_finish:
  assumes "list_all (\<lambda>p. col_wf (snd p)) (to_save s)" "stream_ok s" "distinct (keys_of (disk s))"
  shows "\<exists>t. (save_step e)\<^sup>*\<^sup>* s t \<and> saved t \<noteq> None"
  using assms
proof (induction "save_left s" arbitrary: s rule: less_induct)
  case less
  show ?case
  proof (cases "saved s")
    case None
    then obtain t where t: "save_step e s t" using save_progress less.prems by blast
    with less.hyps [of t] less.prems obtain u where "(save_step e)\<^sup>*\<^sup>* t u" "saved u \<noteq> None"
      using save_step_decreases [OF t] save_step_outlook [OF t] by blast
    then show ?thesis using t by (blast intro: converse_rtranclp_into_rtranclp)
  qed auto
qed

subsection \<open>Stopping in the middle\<close>

definition db_file :: "string \<Rightarrow> bool" where
  "db_file f \<longleftrightarrow> snd (split_name f) = ''.db''"

abbreviation db_files :: "files \<Rightarrow> files" where
  "db_files fs \<equiv> filter (\<lambda>p. db_file (fst p)) fs"

lemma db_file_names:
  assumes "is_collection_name_valid n = success"
  shows "db_file (n @ ''.db'')" "\<not> db_file (n @ ''.db.tmp'')"
  using file_names(3) [OF assms] split_name_ext [of "n @ ''.db''" "''tmp''"] by (auto simp: db_file_def)

lemma filter_alist_update: "filter (\<lambda>p. P (fst p)) (AList.update k v xs) =
    (if P k then AList.update k v (filter (\<lambda>p. P (fst p)) xs) else filter (\<lambda>p. P (fst p)) xs)"
  by (induction xs) auto

lemma filter_alist_delete: "\<not> P k \<Longrightarrow> filter (\<lambda>p. P (fst p)) (AList.delete k xs) = filter (\<lambda>p. P (fst p)) xs"
  by (induction xs) (auto simp: AList.delete_eq)

lemma update_files: "AList.update (n @ ''.db'') (collection_bytes c) (map file_of ds) = map file_of (AList.update n c ds)"
  by (induction ds) (auto simp: file_of_def)

text \<open>Files that are no collections do not count.\<close>

lemma load_loop_db_files: "load_loop lvs e (db_files fs) db = load_loop lvs e fs db"
proof (induction fs arbitrary: db)
  case (Cons p fs)
  obtain f bs where p: "p = (f, bs)" by (cases p)
  show ?case using Cons p by (auto simp: db_file_def split: outcome.split)
qed simp

text \<open>
  The files of the collections are those of a database \<open>ds\<close> that has each collection as it was on the disk
  before or as it is saved now; the open stream has the beginning of a collection.
\<close>

definition between :: "database \<Rightarrow> database \<Rightarrow> (string \<times> collection) list \<Rightarrow> bool" where
  "between old new ds \<longleftrightarrow>
     distinct (keys_of ds) \<and> set ds \<subseteq> set (collections old) \<union> set (collections new) \<and>
     (\<forall>n. map_of ds n = map_of (collections old) n \<or>
        map_of (collections new) n \<noteq> None \<and> map_of ds n = map_of (collections new) n)"

definition half_saved :: "database \<Rightarrow> database \<Rightarrow> save_state \<Rightarrow> bool" where
  "half_saved old new s \<longleftrightarrow>
     (\<exists>ds. db_files (disk s) = map file_of ds \<and> between old new ds) \<and> set (to_save s) \<subseteq> set (collections new) \<and>
     (case writing s of
        None \<Rightarrow> True
      | Some (f, rest) \<Rightarrow>
          \<exists>n c bs. (n, c) \<in> set (collections new) \<and> f = n @ ''.db.tmp'' \<and> map_of (disk s) f = Some bs \<and>
            bs @ rest = collection_bytes c)"

lemma between_update:
  assumes "between old new ds" "map_of (collections new) n = Some c"
  shows "between old new (AList.update n c ds)"
proof -
  have "set (AList.update n c ds) \<subseteq> insert (n, c) (set ds)" by (rule set_update_subset)
  moreover have "(n, c) \<in> set (collections new)" using assms(2) by (rule map_of_SomeD)
  ultimately show ?thesis using assms unfolding between_def by (auto simp: update_conv' distinct_update)
qed

lemma half_saved_step:
  assumes "save_step e s t" "half_saved old new s" "db_wf new" "room e = (\<lambda>_. None)"
  shows "half_saved old new t"
  using assms
proof (induction rule: save_step.induct)
  case (opens s name c cs f bs)
  have m: "(name, c) \<in> set (collections new)" using opens.prems(1) opens.hyps(3) by (auto simp: half_saved_def)
  then have v: "is_collection_name_valid name = success" "col_wf c" using opens.prems(2) by (auto simp: db_wf_def list_all_iff)
  have "f = name @ ''.db.tmp''" "bs = collection_bytes c"
    using opens.hyps(4,6) file_names(1) [OF v(1)] collection_serialize_wf [OF v(2)] by simp_all
  then show ?case using opens.prems(1,3) opens.hyps(3) m db_file_names(2) [OF v(1)]
    by (auto simp: half_saved_def filter_alist_update written_def update_conv')
next
  case (writes s f xs ys old')
  then obtain n c where nc: "(n, c) \<in> set (collections new)" "f = n @ ''.db.tmp''" "old' @ xs @ ys = collection_bytes c"
    by (auto simp: half_saved_def)
  then have "\<not> db_file f" using writes.prems(2) db_file_names(2) by (auto simp: db_wf_def list_all_iff)
  then show ?case using writes.prems(1) nc by (auto simp: half_saved_def filter_alist_update update_conv')
next
  case (renames s f bs)
  then obtain n c where nc: "(n, c) \<in> set (collections new)" "f = n @ ''.db.tmp''" "bs = collection_bytes c"
    by (auto simp: half_saved_def)
  then have v: "is_collection_name_valid n = success" "map_of (collections new) n = Some c"
    using renames.prems(2) by (auto simp: db_wf_def list_all_iff)
  obtain ds where ds: "db_files (disk s) = map file_of ds" "between old new ds" using renames.prems(1) by (auto simp: half_saved_def)
  have "db_files (AList.update (n @ ''.db'') bs (AList.delete f (disk s))) = map file_of (AList.update n c ds)"
    using db_file_names [OF v(1)] ds(1) nc(2,3) by (simp add: filter_alist_update filter_alist_delete update_files)
  then show ?case using renames.prems(1) between_update [OF ds(2) v(2)] nc(2) file_names(2) [OF v(1)]
    by (auto simp: half_saved_def)
qed (auto simp: half_saved_def)

lemma half_saved_steps:
  assumes "(save_step e)\<^sup>*\<^sup>* (save_start new fs) s" "db_files fs = map file_of (collections old)" "db_wf old" "db_wf new"
    and "room e = (\<lambda>_. None)"
  shows "half_saved old new s"
  using assms(1)
proof (induction rule: rtranclp_induct)
  case base
  show ?case using assms(2,3) by (auto simp: half_saved_def save_start_def between_def db_wf_def)
next
  case (step t u)
  then show ?case using half_saved_step assms(4,5) by blast
qed

text \<open>
  C13. A program that is stopped at any point of \<^verbatim>\<open>database::save\<close> loses nothing that was saved before, when no
  write fails: the next start loads a database in which every collection is as it was saved before or
  as it was to be saved now, whatever temporary files there are.
\<close>

theorem interrupted_save_loads:
  assumes "db_wf old" "db_storable old" "db_wf new" "db_storable new" "db_files fs = map file_of (collections old)"
    and "room e = (\<lambda>_. None)" "(save_step e)\<^sup>*\<^sup>* (save_start new fs) s" "permissive e'"
  shows "\<exists>db. load lvs e' (Some (disk s)) database_new = Returns (db, success) \<and> db_wf db \<and>
    (\<forall>n. abs_db db n = abs_db old n \<or> abs_db new n \<noteq> None \<and> abs_db db n = abs_db new n)"
proof -
  obtain ds where ds: "db_files (disk s) = map file_of ds" "between old new ds"
    using half_saved_steps [OF assms(7,5,1,3,6)] by (auto simp: half_saved_def)
  let ?db = "\<lparr>collections = ds\<rparr>"
  have "db_wf ?db" "db_storable ?db"
    using ds(2) assms(1-4) unfolding between_def db_wf_def db_storable_def list_all_iff by auto
  then obtain db where db: "load lvs e' (Some (map file_of ds)) database_new = Returns (db, success)" "db_wf db" "same_database ?db db"
    using load_back [OF _ _ assms(8), of ?db lvs] by auto
  have "load lvs e' (Some (disk s)) database_new = Returns (db, success)"
    using db(1) by (simp add: load_def flip: ds(1)) (simp add: load_loop_db_files)
  moreover have "abs_db ?db n = abs_db old n \<or> abs_db new n \<noteq> None \<and> abs_db ?db n = abs_db new n" for n
  proof -
    have "map_of ds n = map_of (collections old) n \<or>
        map_of (collections new) n \<noteq> None \<and> map_of ds n = map_of (collections new) n"
      using ds(2) unfolding between_def by blast
    then show ?thesis by (auto simp: abs_db_def)
  qed
  ultimately show ?thesis using db(2,3) by (auto simp: same_database_def)
qed

definition sample_half :: save_state where
  "sample_half = (save_start sample_db [])\<lparr>to_save := [],
     writing := Some (''c.db.tmp'', collection_bytes sample_collection), disk := [(''c.db.tmp'', [])]\<rparr>"

lemma sample_half_step: "save_step sample_fs (save_start sample_db []) sample_half"
proof -
  have n: "is_collection_name_valid ''c'' = success" by (simp add: is_collection_name_valid_def isalnum_def)
  have b: "collection_serialize sample_collection = Returns (collection_bytes sample_collection)"
    by (rule collection_serialize_wf [OF sample_collection_wf])
  show ?thesis
    using opens [of "save_start sample_db []" "''c''" sample_collection "[]" _ sample_fs, OF _ _ _ refl _ b]
      file_names(1) [OF n]
    by (simp add: sample_half_def save_start_def sample_db_def sample_fs_def written_def)
qed

theorem interrupted_save_loads_witness:
  "\<exists>db. load (\<lambda>_ _ _. 0) sample_fs (Some [(''c.db.tmp'', [])]) database_new = Returns (db, success) \<and> db_wf db \<and>
    (\<forall>n. abs_db db n = abs_db database_new n \<or> abs_db sample_db n \<noteq> None \<and> abs_db db n = abs_db sample_db n)"
proof -
  have w: "db_wf database_new" "db_storable database_new" "db_files [] = map file_of (collections database_new)"
      "room sample_fs = (\<lambda>_. None)" "(save_step sample_fs)\<^sup>*\<^sup>* (save_start sample_db []) sample_half"
    using sample_half_step by (simp_all add: db_wf_def db_storable_def database_new_def sample_fs_def)
  have "disk sample_half = [(''c.db.tmp'', [])]" by (simp add: sample_half_def)
  with interrupted_save_loads [OF w(1,2) sample_db_wf sample_db_storable w(3-5) sample_fs_permissive]
  show ?thesis by simp
qed

subsection \<open>Writes that fail\<close>

text \<open>What the file of a collection has after a save to which \<open>room\<close> set its limits.\<close>

definition file_now :: "fs_env \<Rightarrow> string \<times> collection \<Rightarrow> string \<times> byte list" where
  "file_now e p = (fst p @ ''.db'', written e (fst p @ ''.db.tmp'') (collection_bytes (snd p)))"

lemma no_tmp_files:
  assumes "\<And>p. p \<in> set ps \<Longrightarrow> \<exists>m. fst p = m @ ''.db''"
  shows "AList.delete (n @ ''.db.tmp'') ps = ps"
proof -
  have "n @ ''.db.tmp'' \<noteq> fst p" if p: "p \<in> set ps" for p
  proof
    assume "n @ ''.db.tmp'' = fst p"
    with assms [OF p] obtain m where "last (m @ ''.db'') = last (n @ ''.db.tmp'')" by metis
    then show False by simp
  qed
  then show ?thesis by (auto simp: AList.delete_eq filter_id_conv case_prod_beta)
qed

lemma update_middle:
  "k \<notin> set (keys_of xs) \<Longrightarrow> AList.update k v (xs @ (k, w) # ys) = xs @ (k, v) # ys"
  by (induction xs) auto

text \<open>Saving a database over its own files.\<close>

lemma save_loop_over:
  assumes "can_open e = (\<lambda>_. True)" "can_rename e = (\<lambda>_. True)" "distinct (keys_of (ds @ cs))"
    and "list_all (\<lambda>p. is_collection_name_valid (fst p) = success \<and> col_wf (snd p)) cs"
  shows "save_loop e cs (map (file_now e) ds @ map file_of cs) = Returns (map (file_now e) (ds @ cs), success)"
  using assms(3,4)
proof (induction cs arbitrary: ds)
  case (Cons p cs)
  obtain n c where p: "p = (n, c)" by (cases p)
  have n: "is_collection_name_valid n = success" "col_wf c" using Cons.prems(2) p by simp_all
  let ?fs = "map (file_now e) ds @ map file_of (p # cs)" and ?bs = "written e (n @ ''.db.tmp'') (collection_bytes c)"
  have d: "AList.delete (n @ ''.db.tmp'') ?fs = ?fs"
    by (rule no_tmp_files) (auto simp: file_now_def file_of_def)
  have "n @ ''.db'' \<notin> set (keys_of (map (file_now e) ds))" using Cons.prems(1) p by (auto simp: file_now_def)
  then have "AList.update (n @ ''.db'') ?bs ?fs = map (file_now e) (ds @ [p]) @ map file_of cs"
    using update_middle [of "n @ ''.db''" "map (file_now e) ds"] by (simp add: p file_of_def file_now_def)
  moreover have "save_loop e cs (map (file_now e) (ds @ [p]) @ map file_of cs) = Returns (map (file_now e) ((ds @ [p]) @ cs), success)"
    using Cons.prems by (intro Cons.IH) auto
  ultimately show ?case using n d assms(1,2)
    by (simp add: p file_names collection_serialize_wf Let_def del: map_append list.map)
qed simp

text \<open>Loading stops at the first file that was cut off.\<close>

lemma load_loop_truncated:
  assumes "can_open e' = (\<lambda>_. True)" "p \<in> set cs" "room e (fst p @ ''.db.tmp'') = Some k" "k < length (collection_bytes (snd p))"
    and "list_all (\<lambda>p. is_collection_name_valid (fst p) = success \<and> col_wf (snd p) \<and> col_storable (snd p)) cs"
  shows "load_loop lvs e' (map (file_now e) cs) db = Undefined"
  using assms(2,5)
proof (induction cs arbitrary: db)
  case (Cons q cs)
  have q: "is_collection_name_valid (fst q) = success" "col_wf (snd q)" "col_storable (snd q)" using Cons.prems(2) by simp_all
  let ?d = "collection_deserialize (lvs (fst q @ ''.db'')) (written e (fst q @ ''.db.tmp'') (collection_bytes (snd q)))"
  have "?d = Undefined \<or> (\<exists>x. ?d = Returns x)"
  proof (cases "\<exists>m. room e (fst q @ ''.db.tmp'') = Some m \<and> m < length (collection_bytes (snd q))")
    case True
    then show ?thesis using truncated_collection_undefined [OF q(2,3)] by (auto simp: written_def)
  next
    case False
    then have "written e (fst q @ ''.db.tmp'') (collection_bytes (snd q)) = collection_bytes (snd q)"
      by (auto simp: written_def split: option.split)
    then show ?thesis using collection_read_back [OF q(2,3), of "lvs (fst q @ ''.db'')" "[]"] by auto
  qed
  moreover have "?d = Undefined" if "q = p"
    using truncated_collection_undefined [OF q(2,3)] assms(3,4) that by (simp add: written_def)
  ultimately show ?case using Cons.IH Cons.prems assms(1) file_names(3) [OF q(1)]
    by (auto simp: file_now_def [of e q])
qed simp

text \<open>
  C14. A write that fails is not noticed: when the disk is full while an unchanged database is saved again, the
  intact file of the collection is replaced by the part that still had room, the save reports success
  and the next start goes on with values that it never read.
\<close>

theorem full_disk_destroys_save:
  assumes "db_wf db" "db_storable db" "map_of (collections db) n = Some c" "k < length (collection_bytes c)"
    and "e = sample_fs\<lparr>room := \<lambda>f. if f = n @ ''.db.tmp'' then Some k else None\<rparr>"
  shows "\<exists>fs fs'. save sample_fs None db = Returns (Some fs, success) \<and>
    save e (Some fs) db = Returns (Some fs', success) \<and> map_of fs' (n @ ''.db'') = Some (take k (collection_bytes c)) \<and>
    load lvs sample_fs (Some fs') database_new = Undefined"
proof -
  let ?cs = "collections db" and ?fs' = "map (file_now e) (collections db)"
  have e: "can_open e = (\<lambda>_. True)" "can_rename e = (\<lambda>_. True)" "can_open sample_fs = (\<lambda>_. True)"
    "room e (n @ ''.db.tmp'') = Some k" by (simp_all add: assms(5)) (simp_all add: sample_fs_def)
  have nc: "(n, c) \<in> set ?cs" using assms(3) by (rule map_of_SomeD)
  have wf: "distinct (keys_of ?cs)" "list_all (\<lambda>p. is_collection_name_valid (fst p) = success \<and> col_wf (snd p)) ?cs"
    "list_all (\<lambda>p. is_collection_name_valid (fst p) = success \<and> col_wf (snd p) \<and> col_storable (snd p)) ?cs"
    using assms(1,2) by (auto simp: db_wf_def db_storable_def list_all_iff)
  have "save_loop e ?cs (map file_of ?cs) = Returns (?fs', success)"
    using save_loop_over [OF e(1,2) _ wf(2), of "[]"] wf(1) by simp
  then have s: "save e (Some (map file_of ?cs)) db = Returns (Some ?fs', success)" by (simp add: save_def)
  have "distinct (keys_of ?fs')" using wf(1) by (simp add: file_now_def comp_def distinct_map inj_on_def)
  moreover have "(n @ ''.db'', take k (collection_bytes c)) \<in> set ?fs'"
    using nc e(4) by (force simp: file_now_def written_def)
  ultimately have "map_of ?fs' (n @ ''.db'') = Some (take k (collection_bytes c))" by simp
  moreover have "load lvs sample_fs (Some ?fs') database_new = Undefined"
    using load_loop_truncated [OF e(3) nc _ _ wf(3)] e(4) assms(4) by (simp add: load_def)
  ultimately show ?thesis using s save_fresh [OF assms(1) sample_fs_permissive] by blast
qed

theorem full_disk_destroys_save_witness:
  "\<exists>fs fs'. save sample_fs None sample_db = Returns (Some fs, success) \<and>
    save (sample_fs\<lparr>room := \<lambda>f. if f = ''c'' @ ''.db.tmp'' then Some 5 else None\<rparr>) (Some fs) sample_db = Returns (Some fs', success) \<and>
    map_of fs' (''c'' @ ''.db'') = Some (take 5 (collection_bytes sample_collection)) \<and>
    load (\<lambda>_ _ _. 0) sample_fs (Some fs') database_new = Undefined"
  by (rule full_disk_destroys_save [OF sample_db_wf sample_db_storable])
    (simp_all add: sample_db_def, simp add: collection_bytes_def write_string_def write_u32_def)

end
