(* ===== verification/Locking.thy ===== *)
theory Locking
  imports Collection
begin

text \<open>
  The mutexes of \<^verbatim>\<open>database.cpp\<close>, \<^verbatim>\<open>collection.cpp\<close> and of the indices, and the threads that take them. The
  other theories treat an operation of the database as one step; here an operation is the list of its lock
  operations and of its accesses to shared members, and any number of threads interleave between them.
\<close>

datatype mutex_id = Db_mutex | Idx_mutex string | Vec_mutex string | Index_mutex string nat
datatype mode = Reading | Writing

text \<open>
  \<^verbatim>\<open>collections_\<close>, \<^verbatim>\<open>indices_\<close> and \<^verbatim>\<open>vectors_\<close> of a collection, the members of an HNSW index, the clusters
  of an IVF index with their counter, and the parameters of an index. Indices are numbered.
\<close>

datatype variable = Collections | Indices string | Vectors string | Graph string nat | Clusters string nat | Params string nat

datatype lock_op = Acquire mutex_id mode | Release mutex_id mode | Access variable mode

text \<open>A lock object: the mutex is released at the end of its scope.\<close>

definition holding :: "mutex_id \<Rightarrow> mode \<Rightarrow> lock_op list \<Rightarrow> lock_op list" where
  "holding m k body = Acquire m k # body @ [Release m k]"

subsection \<open>The operations\<close>

text \<open>\<^verbatim>\<open>get_vector_by_id\<close> and \<^verbatim>\<open>get_all_vector_ids\<close> of a collection, called once and \<open>n\<close> times by an index.\<close>

definition fetch_locks :: "string \<Rightarrow> lock_op list" where
  "fetch_locks c = holding (Vec_mutex c) Reading [Access (Vectors c) Reading]"

definition fetches :: "string \<Rightarrow> nat \<Rightarrow> lock_op list" where
  "fetches c n = concat (replicate n (fetch_locks c))"

text \<open>What an operation meets when it calls an index: how IVF reacts, and how many vectors are read.\<close>

datatype ivf_case = Empty_clusters | Rebuild | Incremental
datatype met_index = Met_hnsw bool nat | Met_ivf ivf_case nat

definition hnsw_note_locks :: "string \<Rightarrow> nat \<Rightarrow> lock_op list" where
  "hnsw_note_locks c j = holding (Index_mutex c j) Writing [Access (Graph c j) Writing]"

definition hnsw_init_locks :: "string \<Rightarrow> nat \<Rightarrow> nat \<Rightarrow> lock_op list" where
  "hnsw_init_locks c j n =
     holding (Index_mutex c j) Writing (fetch_locks c @ Access (Graph c j) Writing # fetches c n)"

text \<open>With pending changes \<^verbatim>\<open>search_knn\<close> gives up the lock, takes it exclusively to build, and takes it again.\<close>

definition hnsw_search_locks :: "string \<Rightarrow> nat \<Rightarrow> bool \<Rightarrow> nat \<Rightarrow> lock_op list" where
  "hnsw_search_locks c j changes n =
     (if changes then
        holding (Index_mutex c j) Reading [Access (Graph c j) Reading] @
        holding (Index_mutex c j) Writing (Access (Graph c j) Writing # fetches c n)
      else []) @
     holding (Index_mutex c j) Reading (Access (Graph c j) Reading # fetches c n)"

definition ivf_build_locks :: "string \<Rightarrow> nat \<Rightarrow> nat \<Rightarrow> lock_op list" where
  "ivf_build_locks c j n =
     holding (Index_mutex c j) Writing (Access (Clusters c j) Writing # fetch_locks c @ fetches c n @ [Access (Clusters c j) Writing])"

text \<open>\<^verbatim>\<open>clusters_.empty()\<close> and the counter are used before any lock is taken.\<close>

definition ivf_added_locks :: "string \<Rightarrow> nat \<Rightarrow> ivf_case \<Rightarrow> nat \<Rightarrow> lock_op list" where
  "ivf_added_locks c j x n =
     Access (Clusters c j) Reading #
     (case x of
        Empty_clusters \<Rightarrow> ivf_build_locks c j n
      | Rebuild \<Rightarrow> Access (Clusters c j) Writing # ivf_build_locks c j n
      | Incremental \<Rightarrow> Access (Clusters c j) Writing #
          holding (Index_mutex c j) Writing (fetches c n @ [Access (Clusters c j) Writing]))"

definition ivf_removed_locks :: "string \<Rightarrow> nat \<Rightarrow> ivf_case \<Rightarrow> nat \<Rightarrow> lock_op list" where
  "ivf_removed_locks c j x n =
     Access (Clusters c j) Reading #
     (case x of
        Empty_clusters \<Rightarrow> []
      | Rebuild \<Rightarrow> Access (Clusters c j) Writing # ivf_build_locks c j n
      | Incremental \<Rightarrow> Access (Clusters c j) Writing #
          holding (Index_mutex c j) Writing [Access (Clusters c j) Writing])"

definition ivf_search_locks :: "string \<Rightarrow> nat \<Rightarrow> nat \<Rightarrow> lock_op list" where
  "ivf_search_locks c j n = holding (Index_mutex c j) Reading (Access (Clusters c j) Reading # fetches c n)"

definition added_locks :: "string \<Rightarrow> nat \<times> met_index \<Rightarrow> lock_op list" where
  "added_locks c x = (case x of (j, Met_hnsw b n) \<Rightarrow> hnsw_note_locks c j | (j, Met_ivf y n) \<Rightarrow> ivf_added_locks c j y n)"

definition removed_locks :: "string \<Rightarrow> nat \<times> met_index \<Rightarrow> lock_op list" where
  "removed_locks c x = (case x of (j, Met_hnsw b n) \<Rightarrow> hnsw_note_locks c j | (j, Met_ivf y n) \<Rightarrow> ivf_removed_locks c j y n)"

definition add_vectors_locks :: "string \<Rightarrow> (nat \<times> met_index) list \<Rightarrow> lock_op list" where
  "add_vectors_locks c xs =
     holding (Vec_mutex c) Writing [Access (Vectors c) Writing] @
     holding (Idx_mutex c) Reading (Access (Indices c) Reading # concat (map (added_locks c) xs))"

text \<open>\<open>None\<close>: none of the ids was found.\<close>

definition remove_vectors_locks :: "string \<Rightarrow> (nat \<times> met_index) list option \<Rightarrow> lock_op list" where
  "remove_vectors_locks c xs =
     holding (Vec_mutex c) Writing (Access (Vectors c) Writing #
       (case xs of
          None \<Rightarrow> []
        | Some ys \<Rightarrow> holding (Idx_mutex c) Reading (Access (Indices c) Reading # concat (map (removed_locks c) ys))))"

text \<open>The new index has the number \<open>j\<close>; \<open>None\<close>: the parameters do not fit the type.\<close>

definition add_index_locks :: "string \<Rightarrow> nat \<Rightarrow> met_index option \<Rightarrow> lock_op list" where
  "add_index_locks c j x =
     holding (Idx_mutex c) Writing
       (case x of
          None \<Rightarrow> []
        | Some (Met_hnsw b n) \<Rightarrow> hnsw_init_locks c j n @ [Access (Indices c) Writing]
        | Some (Met_ivf y n) \<Rightarrow> ivf_build_locks c j n @ [Access (Indices c) Writing])"

definition search_locks :: "string \<Rightarrow> (nat \<times> met_index) option \<Rightarrow> nat \<Rightarrow> lock_op list" where
  "search_locks c x n =
     holding (Idx_mutex c) Reading (holding (Vec_mutex c) Reading (Access (Indices c) Reading #
       (case x of
          None \<Rightarrow> fetch_locks c @ fetches c n
        | Some (j, Met_hnsw b m) \<Rightarrow> hnsw_search_locks c j b m
        | Some (j, Met_ivf y m) \<Rightarrow> ivf_search_locks c j m)))"

definition get_index_params_locks :: "string \<Rightarrow> lock_op list" where
  "get_index_params_locks c = holding (Idx_mutex c) Reading [Access (Indices c) Reading]"

definition serialize_locks :: "string \<Rightarrow> lock_op list" where
  "serialize_locks c =
     holding (Vec_mutex c) Reading (holding (Idx_mutex c) Reading [Access (Vectors c) Reading, Access (Indices c) Reading])"

text \<open>
  The operations of the database. \<open>Lookup_op\<close> is any of them that finds no collection, or only looks. The
  parameters that \<^verbatim>\<open>get_index_params\<close> gives out by pointer are read by the server after the locks are
  released; deleting a collection destroys its members and those of its indices \<open>js\<close>.
\<close>

datatype db_op =
    Lookup_op
  | Add_collection_op
  | Delete_collection_op string "nat list"
  | Add_vectors_op string "(nat \<times> met_index) list"
  | Delete_vectors_op string "(nat \<times> met_index) list option"
  | Add_index_op string nat "met_index option"
  | Nearest_op string "(nat \<times> met_index) option" nat
  | Index_params_op string nat
  | Save_op "string list"

definition in_db :: "lock_op list \<Rightarrow> lock_op list" where
  "in_db body = holding Db_mutex Reading (Access Collections Reading # body)"

fun locks_of :: "db_op \<Rightarrow> lock_op list" where
  "locks_of Lookup_op = in_db []"
| "locks_of Add_collection_op = holding Db_mutex Writing [Access Collections Writing]"
| "locks_of (Delete_collection_op c js) =
     holding Db_mutex Writing (Access Collections Writing # Access (Vectors c) Writing # Access (Indices c) Writing #
       concat (map (\<lambda>j. [Access (Params c j) Writing, Access (Graph c j) Writing, Access (Clusters c j) Writing]) js))"
| "locks_of (Add_vectors_op c xs) = in_db (add_vectors_locks c xs)"
| "locks_of (Delete_vectors_op c xs) = in_db (remove_vectors_locks c xs)"
| "locks_of (Add_index_op c j x) = in_db (add_index_locks c j x)"
| "locks_of (Nearest_op c x n) = in_db (search_locks c x n)"
| "locks_of (Index_params_op c j) = in_db (get_index_params_locks c) @ [Access (Params c j) Reading]"
| "locks_of (Save_op cs) = in_db (concat (map serialize_locks cs))"

subsection \<open>Threads\<close>

text \<open>
  A thread: the locks it holds and what it has still to do. A mutex is granted for writing when nobody
  holds it and for reading when nobody holds it for writing. With \<open>writers_first\<close> a reader also waits
  while a writer does; the standard leaves that open.
\<close>

type_synonym held = "(mutex_id \<times> mode) list"
type_synonym lock_thread = "held \<times> lock_op list"

fun waits_to_write :: "mutex_id \<Rightarrow> lock_thread \<Rightarrow> bool" where
  "waits_to_write m (h, Acquire m' Writing # ss) = (m' = m)"
| "waits_to_write m t = False"

definition grantable :: "bool \<Rightarrow> lock_thread list \<Rightarrow> mutex_id \<Rightarrow> mode \<Rightarrow> bool" where
  "grantable writers_first ts m k =
     (case k of
        Writing \<Rightarrow> list_all (\<lambda>t. m \<notin> fst ` set (fst t)) ts
      | Reading \<Rightarrow> list_all (\<lambda>t. (m, Writing) \<notin> set (fst t)) ts \<and>
          (writers_first \<longrightarrow> \<not> list_ex (waits_to_write m) ts))"

fun after :: "lock_op \<Rightarrow> held \<Rightarrow> held" where
  "after (Acquire m k) h = (m, k) # h"
| "after (Release m k) h = remove1 (m, k) h"
| "after (Access v k) h = h"

definition advance :: "bool \<Rightarrow> nat \<Rightarrow> lock_thread list \<Rightarrow> lock_thread list option" where
  "advance writers_first i ts =
     (if i < length ts then
        (case ts ! i of
           (h, []) \<Rightarrow> None
         | (h, s # ss) \<Rightarrow>
             if (case s of Acquire m k \<Rightarrow> grantable writers_first ts m k | _ \<Rightarrow> True)
             then Some (ts[i := (after s h, ss)]) else None)
      else None)"

definition lock_step :: "bool \<Rightarrow> lock_thread list \<Rightarrow> lock_thread list \<Rightarrow> bool" where
  "lock_step writers_first ts us \<longleftrightarrow> (\<exists>i. advance writers_first i ts = Some us)"

fun advance_all :: "bool \<Rightarrow> nat list \<Rightarrow> lock_thread list \<Rightarrow> lock_thread list option" where
  "advance_all writers_first [] ts = Some ts"
| "advance_all writers_first (i # is) ts =
     (case advance writers_first i ts of None \<Rightarrow> None | Some us \<Rightarrow> advance_all writers_first is us)"

definition starting :: "db_op list \<Rightarrow> lock_thread list" where
  "starting calls = map (\<lambda>c. ([], locks_of c)) calls"

definition all_done :: "lock_thread list \<Rightarrow> bool" where
  "all_done ts \<longleftrightarrow> list_all (\<lambda>t. snd t = []) ts"

definition deadlocked :: "bool \<Rightarrow> lock_thread list \<Rightarrow> bool" where
  "deadlocked writers_first ts \<longleftrightarrow>
     \<not> all_done ts \<and> list_all (\<lambda>i. advance writers_first i ts = None) [0..<length ts]"

lemma advance_all_steps: "advance_all wp is ts = Some us \<Longrightarrow> (lock_step wp)\<^sup>*\<^sup>* ts us"
proof (induction "is" arbitrary: ts)
  case (Cons i "is")
  then obtain vs where "advance wp i ts = Some vs" "advance_all wp is vs = Some us" by (auto split: option.splits)
  then show ?case using Cons.IH by (metis converse_rtranclp_into_rtranclp lock_step_def)
qed simp

lemma advance_cases:
  assumes "advance wp i ts = Some us"
  obtains h s ss where "i < length ts" "ts ! i = (h, s # ss)" "us = ts[i := (after s h, ss)]"
    "case s of Acquire m k \<Rightarrow> grantable wp ts m k | _ \<Rightarrow> True"
  using assms by (cases "ts ! i"; cases "snd (ts ! i)") (auto simp: advance_def split: if_splits)

lemmas lock_eval = advance_def grantable_def starting_def in_db_def holding_def fetch_locks_def fetches_def
  add_vectors_locks_def remove_vectors_locks_def add_index_locks_def search_locks_def hnsw_init_locks_def
  ivf_build_locks_def added_locks_def removed_locks_def ivf_added_locks_def ivf_removed_locks_def

subsection \<open>Deadlocks\<close>

text \<open>Two threads that keep each other waiting, whatever the others do.\<close>

lemma advance_other: "advance wp i ts = Some us \<Longrightarrow> j \<noteq> i \<Longrightarrow> us ! j = ts ! j"
  by (auto elim!: advance_cases)

lemma advance_length: "advance wp i ts = Some us \<Longrightarrow> length us = length ts"
  by (auto elim!: advance_cases)

lemma not_granted:
  assumes "i < length ts" "snd (ts ! i) = Acquire m k # ss" "j < length ts" "(m, k') \<in> set (fst (ts ! j))"
    and "k = Writing \<or> k' = Writing"
  shows "advance wp i ts = None"
proof -
  have "ts ! j \<in> set ts" using assms(3) by simp
  then have "\<not> grantable wp ts m k"
    using assms(4,5) by (cases k) (force simp: grantable_def list_all_iff)+
  then show ?thesis using assms(1,2) by (cases "ts ! i") (simp add: advance_def)
qed

definition embrace :: "lock_thread \<Rightarrow> lock_thread \<Rightarrow> bool" where
  "embrace t u \<longleftrightarrow>
     (\<exists>m k ss m' k' ss'. snd t = Acquire m k # ss \<and> snd u = Acquire m' k' # ss' \<and>
        (\<exists>l. (m, l) \<in> set (fst u) \<and> (k = Writing \<or> l = Writing)) \<and>
        (\<exists>l. (m', l) \<in> set (fst t) \<and> (k' = Writing \<or> l = Writing)))"

lemma embrace_step:
  assumes "lock_step wp ts us" "embrace (ts ! 0) (ts ! 1)" "1 < length ts"
  shows "us ! 0 = ts ! 0 \<and> us ! 1 = ts ! 1 \<and> length us = length ts"
proof -
  obtain i where i: "advance wp i ts = Some us" using assms(1) by (auto simp: lock_step_def)
  obtain m k ss l m' k' ss' l' where t: "snd (ts ! 0) = Acquire m k # ss" "snd (ts ! 1) = Acquire m' k' # ss'"
    "(m, l) \<in> set (fst (ts ! 1))" "k = Writing \<or> l = Writing" "(m', l') \<in> set (fst (ts ! 0))" "k' = Writing \<or> l' = Writing"
    using assms(2) unfolding embrace_def by blast
  have "0 < length ts" using assms(3) by linarith
  then have "advance wp 0 ts = None" "advance wp 1 ts = None"
    using not_granted [OF _ t(1) assms(3) t(3,4)] not_granted [OF assms(3) t(2) _ t(5,6)] by blast+
  then have "i \<noteq> 0" "i \<noteq> 1" using i by (metis option.distinct(1))+
  then show ?thesis using advance_other [OF i, of 0] advance_other [OF i, of 1] advance_length [OF i] by auto
qed

text \<open>While a thread that waits so has the database for reading, nobody gets it for writing.\<close>

lemma embrace_for_ever:
  assumes "(lock_step wp)\<^sup>*\<^sup>* ts us" "embrace (ts ! 0) (ts ! 1)" "1 < length ts" "(Db_mutex, Reading) \<in> set (fst (ts ! 0))"
  shows "us ! 0 = ts ! 0 \<and> us ! 1 = ts ! 1 \<and> length us = length ts \<and>
    (\<forall>i < length ts. \<forall>ss. snd (ts ! i) = Acquire Db_mutex Writing # ss \<longrightarrow> us ! i = ts ! i)"
  using assms(1)
proof (induction rule: rtranclp_induct)
  case (step us vs)
  have "vs ! 0 = us ! 0 \<and> vs ! 1 = us ! 1 \<and> length vs = length us"
    using embrace_step [OF step.hyps(2)] step.IH assms(2,3) by auto
  moreover have "vs ! i = us ! i" if i: "i < length ts" "snd (us ! i) = Acquire Db_mutex Writing # ss" for i ss
  proof -
    obtain j where j: "advance wp j us = Some vs" using step.hyps(2) by (auto simp: lock_step_def)
    have "advance wp i us = None"
    proof (rule not_granted)
      show "i < length us" "snd (us ! i) = Acquire Db_mutex Writing # ss" "0 < length us" "(Db_mutex, Reading) \<in> set (fst (us ! 0))"
        using i step.IH assms(3,4) by auto
    qed simp
    then show ?thesis using advance_other [OF j] j by (cases "i = j") auto
  qed
  ultimately show ?case using step.IH by auto
qed simp

lemma starting_held:
  "list_all (\<lambda>t. m \<notin> fst ` set (fst t)) (map (\<lambda>c. ([], f c)) cs)" "list_all (\<lambda>t. q \<notin> set (fst t)) (map (\<lambda>c. ([], f c)) cs)"
  by (simp_all add: list_all_iff)

text \<open>
  C9. Two calls can stop the server for good. A deletion of vectors takes \<^verbatim>\<open>vec_mutex_\<close> and then
  \<^verbatim>\<open>idx_mutex_\<close>; \<^verbatim>\<open>add_index\<close> takes \<^verbatim>\<open>idx_mutex_\<close>, and building the index needs \<^verbatim>\<open>vec_mutex_\<close>. Run at the
  same time they can block each other; whatever other calls there are, both then wait for ever, and since
  they hold the mutex of the database no collection is created or deleted any more. An upsert into a
  collection with an IVF index has the same conflict with a deletion, over the mutex of the index.
\<close>

theorem concurrent_deletion_deadlocks:
  assumes "\<not> writers_first \<or> others = []" "calls = Delete_vectors_op c (Some xs) # rival # others"
    and "rival = Add_index_op c j (Some x) \<or>
      rival = Add_vectors_op c [(i, Met_ivf Incremental (Suc m))] \<and> (\<exists>n ys. xs = (i, Met_ivf Incremental n) # ys)"
  shows "\<exists>ts. (lock_step writers_first)\<^sup>*\<^sup>* (starting calls) ts \<and>
    (\<forall>us. (lock_step writers_first)\<^sup>*\<^sup>* ts us \<longrightarrow>
       us ! 0 = ts ! 0 \<and> us ! 1 = ts ! 1 \<and> snd (ts ! 0) \<noteq> [] \<and> snd (ts ! 1) \<noteq> [] \<and>
       (\<forall>l < length others. (\<exists>d js. others ! l \<in> {Add_collection_op, Delete_collection_op d js}) \<longrightarrow>
          us ! (l + 2) = ([], locks_of (others ! l))))"
proof -
  have "\<exists>is ts. advance_all writers_first is (starting calls) = Some ts \<and> embrace (ts ! 0) (ts ! 1) \<and>
    (Db_mutex, Reading) \<in> set (fst (ts ! 0)) \<and> (\<exists>t u. ts = t # u # starting others)"
  proof (cases "rival = Add_index_op c j (Some x)")
    case True
    let ?is = "[0, 0, 0, 0, 1, 1, 1, 1] @ (case x of Met_hnsw b n \<Rightarrow> [] | Met_ivf y n \<Rightarrow> [1])"
    from True show ?thesis
      by (intro exI [of _ ?is], cases x) (use assms(1) in \<open>auto simp: assms(2) lock_eval starting_held embrace_def\<close>)
  next
    case False
    then show ?thesis using assms(1,3)
      by (intro exI [of _ "[1, 1, 1, 1, 1, 1, 1, 1, 1, 1, 0, 0, 0, 0, 0, 0, 0, 0]"]) (auto simp: assms(2) lock_eval starting_held embrace_def)
  qed
  then obtain "is" ts where ts: "advance_all writers_first is (starting calls) = Some ts" "embrace (ts ! 0) (ts ! 1)"
    "(Db_mutex, Reading) \<in> set (fst (ts ! 0))" "\<exists>t u. ts = t # u # starting others" by blast
  have "ts ! (l + 2) = ([], locks_of (others ! l))" if "l < length others" for l
    using ts(4) that by (auto simp: starting_def)
  then show ?thesis
    using advance_all_steps [OF ts(1)] embrace_for_ever [OF _ ts(2) _ ts(3)] ts(2,4)
    by (intro exI [of _ ts]) (fastforce simp: embrace_def starting_def holding_def)
qed

theorem concurrent_deletion_deadlocks_witness:
  "\<exists>ts. (lock_step False)\<^sup>*\<^sup>* (starting [Delete_vectors_op ''c'' (Some []), Add_index_op ''c'' 0 (Some (Met_hnsw False 1)),
      Add_collection_op]) ts \<and>
    snd (ts ! 0) \<noteq> [] \<and> snd (ts ! 1) \<noteq> [] \<and> ts ! 2 = ([], locks_of Add_collection_op)"
  using concurrent_deletion_deadlocks [OF _ refl, of False "[Add_collection_op]" "Add_index_op ''c'' 0 (Some (Met_hnsw False 1))"
      "''c''" 0 "Met_hnsw False 1" 0 0 "[]"] by (fastforce simp: numeral_2_eq_2)

text \<open>
  Where waiting writers keep readers out, one search and one upsert into the same collection are enough
  for a deadlock: the search holds \<^verbatim>\<open>vec_mutex_\<close> for reading and takes it for reading once more.
\<close>

lemma search_deadlocks_behind_writer:
  "\<exists>ts. (lock_step True)\<^sup>*\<^sup>* (starting [Nearest_op c None n, Add_vectors_op c xs]) ts \<and> deadlocked True ts"
proof -
  have "\<exists>is ts. advance_all True is (starting [Nearest_op c None n, Add_vectors_op c xs]) = Some ts \<and> deadlocked True ts"
    by (intro exI [of _ "[0, 0, 0, 0, 0, 1, 1]"]) (simp add: lock_eval deadlocked_def all_done_def upt_rec)
  then show ?thesis using advance_all_steps by blast
qed

subsection \<open>When there is no deadlock\<close>

text \<open>Something that holds at every point of a thread's way through a list of operations.\<close>

fun passes :: "(held \<Rightarrow> lock_op \<Rightarrow> bool) \<Rightarrow> held \<Rightarrow> lock_op list \<Rightarrow> bool" where
  "passes P h [] = True"
| "passes P h (s # ss) = (P h s \<and> passes P (after s h) ss)"

definition left_after :: "held \<Rightarrow> lock_op list \<Rightarrow> held" where
  "left_after h ss = fold after ss h"

definition balanced :: "lock_op list \<Rightarrow> bool" where
  "balanced ss \<longleftrightarrow> (\<forall>h. left_after h ss = h)"

lemma passes_append [simp]: "passes P h (ss @ us) \<longleftrightarrow> passes P h ss \<and> passes P (left_after h ss) us"
  by (induction ss arbitrary: h) (auto simp: left_after_def)

lemma left_after_simps [simp]:
  "left_after h [] = h" "left_after h (s # ss) = left_after (after s h) ss" "left_after h (ss @ us) = left_after (left_after h ss) us"
  by (simp_all add: left_after_def)

lemma balanced_left [simp]: "balanced ss \<Longrightarrow> left_after h ss = h"
  by (simp add: balanced_def)

lemma balanced_intros [simp, intro]:
  "balanced []" "balanced ss \<Longrightarrow> balanced (Access v k # ss)" "balanced ss \<Longrightarrow> balanced us \<Longrightarrow> balanced (ss @ us)"
  "balanced ss \<Longrightarrow> balanced (holding m k ss)" "(\<And>x. x \<in> set xs \<Longrightarrow> balanced (f x)) \<Longrightarrow> balanced (concat (map f xs))"
  "balanced (fetch_locks c)"
  by (simp_all add: balanced_def holding_def fetch_locks_def) (induction xs, auto)

lemma balanced_fetches [simp]: "balanced (fetches c n)"
  by (induction n) (simp_all add: fetches_def)

lemma passes_holding [simp]:
  "balanced ss \<Longrightarrow> passes P h (holding m k ss) \<longleftrightarrow>
     P h (Acquire m k) \<and> passes P ((m, k) # h) ss \<and> P ((m, k) # h) (Release m k)"
  by (simp add: holding_def)

lemma passes_concat: "(\<And>x. x \<in> set xs \<Longrightarrow> balanced (f x)) \<Longrightarrow> passes P h (concat (map f xs)) \<longleftrightarrow> (\<forall>x \<in> set xs. passes P h (f x))"
  by (induction xs) auto

lemma passes_fetches:
  "passes P h (fetches c n) \<longleftrightarrow> n = 0 \<or> passes P h (fetch_locks c)"
  by (induction n) (auto simp: fetches_def)

lemma locks_balanced [simp]: "balanced (locks_of call)"
  by (cases call) (auto simp: in_db_def add_vectors_locks_def remove_vectors_locks_def add_index_locks_def search_locks_def
      get_index_params_locks_def serialize_locks_def added_locks_def removed_locks_def hnsw_note_locks_def hnsw_init_locks_def
      hnsw_search_locks_def ivf_build_locks_def ivf_added_locks_def ivf_removed_locks_def ivf_search_locks_def map_concat
      split: option.split met_index.split ivf_case.split prod.split)

text \<open>
  The levels of requests. A request is in order when it takes a mutex for reading that its thread already
  has for reading, or its level is above those of the requests that the thread's locks keep waiting.
\<close>

definition acquire_ok :: "(mutex_id \<Rightarrow> mode \<Rightarrow> nat) \<Rightarrow> held \<Rightarrow> mutex_id \<Rightarrow> mode \<Rightarrow> bool" where
  "acquire_ok lv h m k \<longleftrightarrow>
     k = Reading \<and> (m, Reading) \<in> set h \<or>
     m \<notin> fst ` set h \<and>
     list_all (\<lambda>(m', k'). lv m' Writing < lv m k \<and> (k' = Writing \<longrightarrow> lv m' Reading < lv m k)) h"

fun op_ok :: "(mutex_id \<Rightarrow> mode \<Rightarrow> nat) \<Rightarrow> held \<Rightarrow> lock_op \<Rightarrow> bool" where
  "op_ok lv h (Acquire m k) = acquire_ok lv h m k"
| "op_ok lv h (Release m k) = ((m, k) \<in> set h)"
| "op_ok lv h (Access v k) = True"

fun wait_level :: "(mutex_id \<Rightarrow> mode \<Rightarrow> nat) \<Rightarrow> lock_op list \<Rightarrow> nat" where
  "wait_level lv (Acquire m k # ss) = lv m k"
| "wait_level lv ss = 0"

text \<open>Nobody shares a mutex with its writer.\<close>

definition exclusive :: "lock_thread list \<Rightarrow> bool" where
  "exclusive ts \<longleftrightarrow>
     (\<forall>i < length ts. \<forall>j < length ts. \<forall>m k. (m, Writing) \<in> set (fst (ts ! i)) \<and> (m, k) \<in> set (fst (ts ! j)) \<longrightarrow> i = j \<and> k = Writing)"

lemma exclusiveD:
  "exclusive ts \<Longrightarrow> i < length ts \<Longrightarrow> j < length ts \<Longrightarrow> (m, Writing) \<in> set (fst (ts ! i)) \<Longrightarrow> (m, k) \<in> set (fst (ts ! j)) \<Longrightarrow>
     i = j \<and> k = Writing"
  by (auto simp: exclusive_def)

lemma grantable_held:
  assumes "grantable wp ts m k" "i < length ts" "(m, k') \<in> set (fst (ts ! i))"
  shows "k = Reading \<and> k' = Reading"
proof -
  have "ts ! i \<in> set ts" using assms(2) by simp
  then show ?thesis using assms(1,3) by (cases k; cases k') (force simp: grantable_def list_all_iff)+
qed

lemma held_after:
  assumes "advance wp i ts = Some us" "j < length ts" "(m, k) \<in> set (fst (us ! j))"
  shows "(m, k) \<in> set (fst (ts ! j)) \<or> j = i \<and> grantable wp ts m k \<and> (\<exists>ss. snd (ts ! i) = Acquire m k # ss)"
  using assms(1)
proof (cases rule: advance_cases)
  case (1 h s ss)
  have "set (after s h) \<subseteq> set h \<union> {(m, k). s = Acquire m k}" 
    by (cases s) (auto dest!: subsetD [OF set_remove1_subset])
  then show ?thesis using 1 assms(2,3) by (cases "i = j") auto
qed

lemma exclusive_step: "lock_step wp ts us \<Longrightarrow> exclusive ts \<Longrightarrow> exclusive us"
proof -
  assume "lock_step wp ts us" and e: "exclusive ts"
  then obtain i where i: "advance wp i ts = Some us" by (auto simp: lock_step_def)
  have "a = b \<and> k = Writing"
    if ab: "a < length ts" "b < length ts" "(m, Writing) \<in> set (fst (us ! a))" "(m, k) \<in> set (fst (us ! b))" for a b m k
    using held_after [OF i ab(1,3)] held_after [OF i ab(2,4)] exclusiveD [OF e ab(1,2), of m k]
      grantable_held [of wp ts m Writing b k, OF _ ab(2)] grantable_held [of wp ts m k a Writing, OF _ ab(1)] by auto
  then show "exclusive us" unfolding exclusive_def advance_length [OF i] by blast
qed

lemma exclusive_starting [simp]: "exclusive (starting calls)"
  by (simp add: exclusive_def starting_def)

lemma exclusive_steps: "(lock_step wp)\<^sup>*\<^sup>* ts us \<Longrightarrow> exclusive ts \<Longrightarrow> exclusive us"
  by (induction rule: rtranclp_induct) (auto intro: exclusive_step)

definition work_left :: "lock_thread list \<Rightarrow> nat" where
  "work_left ts = sum_list (map (\<lambda>t. length (snd t)) ts)"

lemma work_left_step: "lock_step wp ts us \<Longrightarrow> Suc (work_left us) = work_left ts"
proof -
  assume "lock_step wp ts us"
  then obtain i where "advance wp i ts = Some us" by (auto simp: lock_step_def)
  then show ?thesis
  proof (cases rule: advance_cases)
    case (1 h s ss)
    then have "work_left ts = work_left (take i ts @ (h, s # ss) # drop (Suc i) ts)" using id_take_nth_drop [of i ts] by simp
    then show ?thesis using 1 by (simp add: work_left_def upd_conv_take_nth_drop)
  qed
qed

lemma work_left_steps: "(lock_step wp ^^ n) ts us \<Longrightarrow> work_left us + n = work_left ts"
proof (induction n arbitrary: us)
  case (Suc n)
  then obtain vs where "(lock_step wp ^^ n) ts vs" "lock_step wp vs us" by auto
  then show ?case using Suc.IH work_left_step [of wp vs us] by fastforce
qed simp

lemma work_left_done: "work_left ts = 0 \<longleftrightarrow> all_done ts"
  by (induction ts) (auto simp: work_left_def all_done_def)

locale lock_levels =
  fixes lv :: "mutex_id \<Rightarrow> mode \<Rightarrow> nat" and used :: "lock_op list \<Rightarrow> bool"
  assumes in_order: "used ss \<Longrightarrow> passes (op_ok lv) [] ss" and all_released: "used ss \<Longrightarrow> balanced ss"
begin

definition on_way :: "lock_thread \<Rightarrow> bool" where
  "on_way t \<longleftrightarrow> passes (op_ok lv) (fst t) (snd t) \<and> left_after (fst t) (snd t) = []"

lemma on_way_step: "lock_step wp ts us \<Longrightarrow> list_all on_way ts \<Longrightarrow> list_all on_way us"
proof -
  assume "lock_step wp ts us" and w: "list_all on_way ts"
  then obtain i where "advance wp i ts = Some us" by (auto simp: lock_step_def)
  then show ?thesis
  proof (cases rule: advance_cases)
    case (1 h s ss)
    have "on_way (ts ! i)" using w 1(1) by (simp add: list_all_length)
    then have "on_way (after s h, ss)" using 1(2) by (simp add: on_way_def)
    then show ?thesis using w 1(1,3) by (auto simp: list_all_length nth_list_update)
  qed
qed

text \<open>A request that has to wait is kept waiting by a thread whose own request has a higher level.\<close>

lemma waits_for_higher:
  assumes "exclusive ts" "list_all on_way ts" "i < length ts" "snd (ts ! i) = Acquire m k # ss"
    and "\<And>j. advance False j ts = None"
  shows "\<exists>j m' k' ss'. j < length ts \<and> snd (ts ! j) = Acquire m' k' # ss' \<and> lv m k < lv m' k'"
proof -
  have not_g: "\<not> grantable False ts a b" if "j < length ts" "snd (ts ! j) = Acquire a b # r" for j a b r
    using assms(5) [of j] that by (cases "ts ! j") (auto simp: advance_def split: if_splits)
  have blocker: "\<exists>b < length ts. \<exists>l. (a, l) \<in> set (fst (ts ! b)) \<and> (k = Writing \<or> l = Writing)"
    if "\<not> grantable False ts a k" for a k
    using that by (cases k) (force simp: grantable_def list_all_length)+
  have fresh: "list_all (\<lambda>(m', k'). lv m' Writing < lv a b \<and> (k' = Writing \<longrightarrow> lv m' Reading < lv a b)) (fst (ts ! j)) \<and>
    a \<notin> fst ` set (fst (ts ! j))" if j: "j < length ts" "snd (ts ! j) = Acquire a b # r" for j a b r
  proof -
    have "on_way (ts ! j)" using assms(2) j(1) by (simp add: list_all_length)
    moreover have "\<not> (b = Reading \<and> (a, Reading) \<in> set (fst (ts ! j)))"
      using blocker [OF not_g [OF j]] exclusiveD [OF assms(1) _ j(1)] by (metis mode.distinct(1))
    ultimately show ?thesis using j(2) by (auto simp: on_way_def acquire_ok_def)
  qed
  obtain b l where b: "b < length ts" "(m, l) \<in> set (fst (ts ! b))" "k = Writing \<or> l = Writing"
    using blocker [OF not_g [OF assms(3,4)]] by blast
  have "on_way (ts ! b)" using assms(2) b(1) by (simp add: list_all_length)
  then have "snd (ts ! b) \<noteq> []" using b(2) by (auto simp: on_way_def)
  then obtain m' k' ss' where r: "snd (ts ! b) = Acquire m' k' # ss'"
    using assms(5) [of b] b(1) by (cases "ts ! b"; cases "snd (ts ! b)"; cases "hd (snd (ts ! b))") (auto simp: advance_def)
  have "lv m k < lv m' k'"
    using fresh [OF b(1) r] b(2,3) by (cases k; cases l) (auto simp: list_all_iff)
  then show ?thesis using b(1) r by blast
qed

lemma progress:
  assumes "exclusive ts" "list_all on_way ts" "\<not> all_done ts"
  shows "\<exists>us. lock_step False ts us"
proof (rule ccontr)
  assume "\<nexists>us. lock_step False ts us"
  then have none: "advance False j ts = None" for j by (metis lock_step_def not_Some_eq)
  let ?T = "{t \<in> set ts. snd t \<noteq> []}" and ?f = "\<lambda>t. wait_level lv (snd t)"
  have fin: "finite (?f ` ?T)" by simp
  have "?f ` ?T \<noteq> {}" using assms(3) by (simp add: all_done_def list_all_iff Bex_def)
  from Max_in [OF fin this] obtain i where i: "i < length ts" "snd (ts ! i) \<noteq> []" "Max (?f ` ?T) = ?f (ts ! i)"
    by (auto simp: in_set_conv_nth)
  then obtain m k ss where r: "snd (ts ! i) = Acquire m k # ss"
    using none [of i] by (cases "ts ! i"; cases "snd (ts ! i)"; cases "hd (snd (ts ! i))") (auto simp: advance_def)
  from waits_for_higher [OF assms(1,2) i(1) r none] obtain j m' k' ss' where
    j: "j < length ts" "snd (ts ! j) = Acquire m' k' # ss'" "lv m k < lv m' k'" by blast
  then have "?f (ts ! j) \<in> ?f ` ?T" by (intro imageI) simp
  from Max_ge [OF fin this] show False using i(3) r j(2,3) by simp
qed

lemma runs_end:
  assumes "list_all (\<lambda>c. used (locks_of c)) calls" "(lock_step False ^^ n) (starting calls) ts"
  shows "n \<le> sum_list (map (\<lambda>c. length (locks_of c)) calls) \<and>
    (all_done ts \<longleftrightarrow> n = sum_list (map (\<lambda>c. length (locks_of c)) calls)) \<and> (all_done ts \<or> (\<exists>us. lock_step False ts us))"
proof -
  have "list_all on_way (starting calls)"
    using assms(1) in_order all_released by (auto simp: starting_def on_way_def list_all_iff balanced_def)
  with assms(2) have "list_all on_way ts"
    by (induction n arbitrary: ts) (auto intro: on_way_step)
  moreover have "exclusive ts" using assms(2) exclusive_steps [OF relpowp_imp_rtranclp] exclusive_starting by blast
  moreover have "work_left (starting calls) = sum_list (map (\<lambda>c. length (locks_of c)) calls)"
    by (simp add: work_left_def starting_def comp_def)
  ultimately show ?thesis using work_left_steps [OF assms(2)] work_left_done [of ts] progress by fastforce
qed

end

text \<open>
  First order: the database, \<^verbatim>\<open>vec_mutex_\<close> for writing, \<^verbatim>\<open>idx_mutex_\<close>, the index, \<^verbatim>\<open>vec_mutex_\<close> for reading.
  Every operation but the deletion of vectors keeps to it.
\<close>

fun request_order :: "mutex_id \<Rightarrow> mode \<Rightarrow> nat" where
  "request_order Db_mutex k = 0"
| "request_order (Vec_mutex c) Writing = 1"
| "request_order (Idx_mutex c) k = 2"
| "request_order (Index_mutex c j) k = 3"
| "request_order (Vec_mutex c) Reading = 4"

definition no_deletion :: "db_op \<Rightarrow> bool" where
  "no_deletion call = (case call of Delete_vectors_op c xs \<Rightarrow> False | _ \<Rightarrow> True)"

text \<open>
  Second order: without \<^verbatim>\<open>add_index\<close> nobody waits for \<^verbatim>\<open>idx_mutex_\<close>, and when no IVF index is changed the
  mutex of an index comes last.
\<close>

fun reading_order :: "mutex_id \<Rightarrow> mode \<Rightarrow> nat" where
  "reading_order Db_mutex k = 0"
| "reading_order (Vec_mutex c) k = 1"
| "reading_order (Index_mutex c j) k = 3"
| "reading_order (Idx_mutex c) k = (if k = Reading then 5 else 0)"

definition no_ivf :: "(nat \<times> met_index) list \<Rightarrow> bool" where
  "no_ivf xs \<longleftrightarrow> list_all (\<lambda>(j, x). case x of Met_hnsw b n \<Rightarrow> True | Met_ivf y n \<Rightarrow> False) xs"

definition no_index_change :: "db_op \<Rightarrow> bool" where
  "no_index_change call =
     (case call of
        Add_index_op c j x \<Rightarrow> False
      | Add_vectors_op c xs \<Rightarrow> no_ivf xs
      | Delete_vectors_op c (Some xs) \<Rightarrow> no_ivf xs
      | _ \<Rightarrow> True)"

lemmas passes_locks = in_db_def add_vectors_locks_def remove_vectors_locks_def add_index_locks_def search_locks_def
  get_index_params_locks_def serialize_locks_def added_locks_def removed_locks_def hnsw_note_locks_def hnsw_init_locks_def
  hnsw_search_locks_def ivf_build_locks_def ivf_added_locks_def ivf_removed_locks_def ivf_search_locks_def
  passes_fetches fetch_locks_def acquire_ok_def

lemma in_request_order: "no_deletion call \<Longrightarrow> passes (op_ok request_order) [] (locks_of call)"
  by (cases call) (auto simp: passes_locks no_deletion_def passes_concat split: option.split met_index.split ivf_case.split prod.split)

lemma in_reading_order: "no_index_change call \<Longrightarrow> passes (op_ok reading_order) [] (locks_of call)"
  by (cases call) (auto simp: passes_locks no_index_change_def no_ivf_def passes_concat list_all_iff
      split: option.splits met_index.split ivf_case.split prod.split)

interpretation any_but_deletions: lock_levels request_order "\<lambda>ss. \<exists>call. no_deletion call \<and> ss = locks_of call"
  by unfold_locales (auto intro: in_request_order)

interpretation no_changes: lock_levels reading_order "\<lambda>ss. \<exists>call. no_index_change call \<and> ss = locks_of call"
  by unfold_locales (auto intro: in_reading_order)



subsection \<open>Data races\<close>

fun next_access :: "lock_thread \<Rightarrow> (variable \<times> mode) option" where
  "next_access (h, Access v k # ss) = Some (v, k)"
| "next_access t = None"

definition races :: "variable \<Rightarrow> lock_thread \<Rightarrow> lock_thread \<Rightarrow> bool" where
  "races v t u \<longleftrightarrow> next_access t = Some (v, Writing) \<and> next_access u \<in> {Some (v, Reading), Some (v, Writing)}"

definition data_race :: "variable \<Rightarrow> lock_thread list \<Rightarrow> bool" where
  "data_race v ts \<longleftrightarrow> list_ex (\<lambda>i. list_ex (\<lambda>j. i \<noteq> j \<and> races v (ts ! i) (ts ! j)) [0..<length ts]) [0..<length ts]"

text \<open>The mutex that guards a member; a writer may have the whole database instead.\<close>

fun guard_of :: "variable \<Rightarrow> mutex_id option" where
  "guard_of Collections = Some Db_mutex"
| "guard_of (Indices c) = Some (Idx_mutex c)"
| "guard_of (Vectors c) = Some (Vec_mutex c)"
| "guard_of (Graph c j) = Some (Index_mutex c j)"
| "guard_of v = None"

fun guarded :: "held \<Rightarrow> lock_op \<Rightarrow> bool" where
  "guarded h (Access v k) =
     (case guard_of v of
        None \<Rightarrow> True
      | Some m \<Rightarrow> (Db_mutex, Writing) \<in> set h \<or>
          (Db_mutex, Reading) \<in> set h \<and> ((m, Writing) \<in> set h \<or> k = Reading \<and> (m, Reading) \<in> set h))"
| "guarded h s = True"

lemma operations_guarded: "passes guarded [] (locks_of call)"
  by (cases call) (auto simp: passes_locks passes_concat split: option.split met_index.split ivf_case.split prod.split)

lemma guarded_steps:
  "(lock_step wp)\<^sup>*\<^sup>* (starting calls) ts \<Longrightarrow> list_all (\<lambda>t. passes guarded (fst t) (snd t)) ts"
proof (induction rule: rtranclp_induct)
  case base
  show ?case by (simp add: starting_def list_all_iff operations_guarded)
next
  case (step ts us)
  then obtain i where "advance wp i ts = Some us" by (auto simp: lock_step_def)
  then show ?case
  proof (cases rule: advance_cases)
    case (1 h s ss)
    have "passes guarded (fst (ts ! i)) (snd (ts ! i))" using step.IH 1(1) by (simp add: list_all_length)
    then show ?thesis using 1 step.IH by (auto simp: list_all_length nth_list_update)
  qed
qed



text \<open>
  C28. Other members are not. Two upserts that run at the same time change the counter of an IVF index
  together, since it is updated before the lock is taken; and \<^verbatim>\<open>get_index\<close> reads the parameters of an index
  after it has given up all locks, when another thread may be deleting the collection with them.
\<close>

theorem unguarded_members_race:
  "(x \<noteq> Empty_clusters \<and> y \<noteq> Empty_clusters \<longrightarrow>
     (\<exists>ts. (lock_step False)\<^sup>*\<^sup>* (starting [Add_vectors_op c [(j, Met_ivf x n)], Add_vectors_op c [(j, Met_ivf y m)]]) ts \<and>
       data_race (Clusters c j) ts)) \<and>
   (\<exists>ts. (lock_step False)\<^sup>*\<^sup>* (starting [Index_params_op c j, Delete_collection_op c (j # js)]) ts \<and> data_race (Params c j) ts)"
proof -
  have "\<exists>is ts. advance_all False is (starting [Add_vectors_op c [(j, Met_ivf x n)], Add_vectors_op c [(j, Met_ivf y m)]]) = Some ts \<and>
      data_race (Clusters c j) ts" if "x \<noteq> Empty_clusters \<and> y \<noteq> Empty_clusters"
    by (intro exI [of _ "replicate 8 0 @ replicate 8 1"], cases x; cases y)
      (use that in \<open>simp_all add: lock_eval eval_nat_numeral data_race_def races_def upt_rec\<close>)
  moreover have "\<exists>is ts. advance_all False is (starting [Index_params_op c j, Delete_collection_op c (j # js)]) = Some ts \<and>
      data_race (Params c j) ts"
    by (intro exI [of _ "replicate 6 0 @ replicate 4 1"])
      (simp add: lock_eval get_index_params_locks_def eval_nat_numeral data_race_def races_def upt_rec)
  ultimately show ?thesis using advance_all_steps by blast
qed

theorem unguarded_members_race_witness:
  "\<exists>ts. (lock_step False)\<^sup>*\<^sup>* (starting [Add_vectors_op ''c'' [(0, Met_ivf Incremental 1)], Add_vectors_op ''c'' [(0, Met_ivf Rebuild 1)]]) ts \<and>
    data_race (Clusters ''c'' 0) ts"
  using unguarded_members_race [of Incremental Rebuild "''c''" 0 1 1 "[]"] by simp

end
