(* ===== verification/Grpc_Util.thy ===== *)
theory Grpc_Util
  imports Database
begin

text \<open>
  \<^verbatim>\<open>include/grpc_server/util.h\<close>: conversions between the enumerations of \<^verbatim>\<open>protos/db.proto\<close> and those of
  the database, and from status codes to gRPC statuses. An enumeration of a proto3 message is open: a
  client may send any 32-bit number. A \<^verbatim>\<open>grpc::Status\<close> is a code with a message.
\<close>

type_synonym proto_enum = "32 word"

definition IVF_FLAT :: proto_enum where "IVF_FLAT = 0"
definition HNSW :: proto_enum where "HNSW = 1"
definition COSINE :: proto_enum where "COSINE = 0"
definition EUCLIDEAN :: proto_enum where "EUCLIDEAN = 1"
definition INNER_PRODUCT :: proto_enum where "INNER_PRODUCT = 2"

lemmas proto_enums = IVF_FLAT_def HNSW_def COSINE_def EUCLIDEAN_def INNER_PRODUCT_def

definition proto_to_db_index :: "proto_enum \<Rightarrow> index_type" where
  "proto_to_db_index algo = (if algo = IVF_FLAT then ivf_flat else if algo = HNSW then hnsw else unknown)"

definition proto_to_db_dist :: "proto_enum \<Rightarrow> dist_type" where
  "proto_to_db_dist algo =
     (if algo = COSINE then cosine else if algo = EUCLIDEAN then euclidean
      else if algo = INNER_PRODUCT then inner_product else dist_unknown)"

definition db_dist_to_proto :: "dist_type \<Rightarrow> proto_enum" where
  "db_dist_to_proto d =
     (case d of cosine \<Rightarrow> COSINE | euclidean \<Rightarrow> EUCLIDEAN | inner_product \<Rightarrow> INNER_PRODUCT
      | unrecognized _ \<Rightarrow> EUCLIDEAN)"

datatype status_code = OK | ALREADY_EXISTS | NOT_FOUND | INVALID_ARGUMENT | INTERNAL

type_synonym grpc_status = "status_code \<times> string"

definition status_to_grpc_status :: "status \<Rightarrow> grpc_status" where
  "status_to_grpc_status s =
     (case s of
        success \<Rightarrow> (OK, [])
      | collection_already_exists \<Rightarrow> (ALREADY_EXISTS, ''collection already exists'')
      | collection_does_not_exist \<Rightarrow> (NOT_FOUND, ''collection does not exist'')
      | dimension_cant_be_zero \<Rightarrow> (INVALID_ARGUMENT, ''dimension cant be zero'')
      | collection_name_cant_be_empty \<Rightarrow> (INVALID_ARGUMENT, ''collection name cant be empty'')
      | collection_name_too_long \<Rightarrow> (INVALID_ARGUMENT, ''collection name is too long'')
      | collection_name_invalid_characters \<Rightarrow> (INVALID_ARGUMENT, ''collection name contains invalid characters'')
      | vector_dimension_mismatch \<Rightarrow> (INVALID_ARGUMENT, ''vector dimension mismatch with collection'')
      | index_does_not_exist \<Rightarrow> (NOT_FOUND, ''index does not exist'')
      | internal_error \<Rightarrow> (INTERNAL, ''internal error''))"

lemma grpc_status_OK_iff [simp]: "fst (status_to_grpc_status s) = OK \<longleftrightarrow> s = success"
  by (cases s) (simp_all add: status_to_grpc_status_def)

lemma proto_dist_known: "algo \<in> {COSINE, EUCLIDEAN, INNER_PRODUCT} \<Longrightarrow> get_distance_instance (proto_to_db_dist algo) \<noteq> None"
  by (auto simp: proto_to_db_dist_def proto_enums get_distance_instance_def)

text \<open>
  The wire form loses nothing that matters: a status is reported as OK exactly when the database
  succeeded and otherwise with its own text, different statuses stay different, and every distance type
  that has a metric comes back from its number.
\<close>

lemma wire_form_faithful:
  "(fst (status_to_grpc_status s) = OK \<longleftrightarrow> s = success) \<and>
   (s \<noteq> success \<longrightarrow> snd (status_to_grpc_status s) = status_to_string s) \<and>
   (status_to_grpc_status s = status_to_grpc_status s' \<longrightarrow> s = s') \<and>
   (get_distance_instance d \<noteq> None \<longrightarrow> proto_to_db_dist (db_dist_to_proto d) = d)"
proof -
  have "snd (status_to_grpc_status s) = status_to_string s" if "s \<noteq> success" for s
    using that by (cases s) (simp_all add: status_to_grpc_status_def)
  moreover have "s = s'" if "status_to_grpc_status s = status_to_grpc_status s'"
    using that by (cases s; cases s') (simp_all add: status_to_grpc_status_def)
  moreover have "get_distance_instance d \<noteq> None \<longrightarrow> proto_to_db_dist (db_dist_to_proto d) = d"
    by (cases d) (simp_all add: proto_to_db_dist_def db_dist_to_proto_def proto_enums get_distance_instance_def)
  ultimately show ?thesis by simp
qed

lemma wire_form_faithful_instance:
  "snd (status_to_grpc_status index_does_not_exist) = status_to_string index_does_not_exist \<and>
   proto_to_db_dist (db_dist_to_proto inner_product) = inner_product"
  using wire_form_faithful [of index_does_not_exist index_does_not_exist inner_product]
  by (simp add: get_distance_instance_def)

end
