(* ===== verification/Server.thy ===== *)
theory Server
  imports Grpc_Util
begin

text \<open>
  \<^verbatim>\<open>impl/grpc_server/server.cpp\<close>: the handlers of the eight calls. A handler's \<^verbatim>\<open>process\<close> checks the
  request and either finishes the call at once or submits a task to the worker pool; \<open>xxx_process\<close> gives
  the statuses of the \<^verbatim>\<open>Finish\<close> calls, or \<open>Submit\<close>. \<open>xxx_task\<close> is the task: it changes the database and
  gives the responses and statuses it finishes with. A task that throws reports INTERNAL; the model then
  leaves the database alone, which is what the code does for every request with known distance types
  (nothing that the tasks call throws after it has changed something). The generated message classes are
  reduced to the fields that the code reads; a \<^verbatim>\<open>map\<close> field is a list in any order.
\<close>

record proto_vector =
  pv_id :: id_t
  pv_values :: "float32 list"
  pv_metadata :: "(string \<times> string) list option"

datatype proto_params =
    No_params
  | Proto_hnsw proto_enum u32 u32 u32
  | Proto_ivf proto_enum u32 u32 u32

datatype rpc_request =
    Create_collection_request string u32
  | Delete_collection_request string
  | Upsert_request string "proto_vector list"
  | Search_request string "float32 list" u32
  | Del_vector_request string "id_t list"
  | Add_index_request string string proto_enum proto_params
  | Index_params_request string string

datatype rpc_response =
    Empty_response
  | Search_response "(float32 \<times> id_t \<times> float32 list) list"
  | Hnsw_response proto_enum u32 u32 u32
  | Ivf_response proto_enum u32 u32 u32
  | No_index_response

type_synonym finish = "rpc_response \<times> grpc_status"

datatype process_result = Finish_now "grpc_status list" | Submit

definition invalid :: "string \<Rightarrow> grpc_status" where
  "invalid msg = (INVALID_ARGUMENT, msg)"

definition internal :: grpc_status where
  "internal = (INTERNAL, ''Internal error'')"

subsection \<open>Collections\<close>

text \<open>\<^verbatim>\<open>dimension\<close> is an \<^verbatim>\<open>int32\<close> that becomes unsigned in the call of the database.\<close>

definition create_collection_process :: "string \<Rightarrow> u32 \<Rightarrow> process_result" where
  "create_collection_process name dimension =
     (if name = [] then Finish_now [invalid ''Collection name cannot be empty.'']
      else if sint dimension \<le> 0 then Finish_now [invalid ''Vector dimension must be greater than 0.'']
      else Submit)"

definition create_collection_task :: "string \<Rightarrow> u32 \<Rightarrow> database \<Rightarrow> (database \<times> finish list) outcome" where
  "create_collection_task name dimension db =
     (case add_collection name dimension db of
        (db', st) \<Rightarrow> Returns (db', [(Empty_response, status_to_grpc_status st)]))"

definition delete_collection_process :: "string \<Rightarrow> process_result" where
  "delete_collection_process name =
     (if name = [] then Finish_now [invalid ''Collection name cannot be empty.''] else Submit)"

definition delete_collection_task :: "string \<Rightarrow> database \<Rightarrow> (database \<times> finish list) outcome" where
  "delete_collection_task name db =
     (case delete_collection name db of
        (db', st) \<Rightarrow> Returns (db', [(Empty_response, status_to_grpc_status st)]))"

subsection \<open>Vectors\<close>

definition vector_of_proto :: "proto_vector \<Rightarrow> (id_t \<times> float_vector) outcome" where
  "vector_of_proto pv =
     obind (fv_new (word_of_nat (length (pv_values pv))) (pv_values pv)) (\<lambda>w.
       Returns (pv_id pv,
         case pv_metadata pv of None \<Rightarrow> w | Some m \<Rightarrow> fold (\<lambda>(k, x). add_metadata k x) m w))"

definition upsert_process :: "string \<Rightarrow> proto_vector list \<Rightarrow> process_result" where
  "upsert_process name vs =
     (if name = [] then Finish_now [invalid ''Collection name cannot be empty.'']
      else if vs = [] then Finish_now [invalid ''At least one vector is required for upsert.'']
      else Submit)"

text \<open>The vectors are passed by value, so every one is copied once more.\<close>

definition upsert_vectors :: "string \<Rightarrow> proto_vector list \<Rightarrow> database \<Rightarrow> (database \<times> status) outcome" where
  "upsert_vectors name vs db =
     obind (map_outcome_list vector_of_proto vs) (\<lambda>ws.
     obind (map_outcome_list (\<lambda>(i, w). obind (fv_copy w) (\<lambda>w'. Returns (i, w'))) ws) (\<lambda>ws'.
       db_add_vectors name ws' db))"

definition upsert_task :: "string \<Rightarrow> proto_vector list \<Rightarrow> database \<Rightarrow> (database \<times> finish list) outcome" where
  "upsert_task name vs db =
     catch_all
       (obind (upsert_vectors name vs db) (\<lambda>(db', st). Returns (db', [(Empty_response, status_to_grpc_status st)])))
       (\<lambda>e. Returns (db, [(Empty_response, internal)]))"

definition search_process :: "string \<Rightarrow> u32 \<Rightarrow> process_result" where
  "search_process name top_k =
     (if name = [] then Finish_now [invalid ''Collection name cannot be empty.'']
      else if sint top_k \<le> 0 then Finish_now [invalid ''top_k must be greater than 0.'']
      else Submit)"

definition scored_vector :: "score \<Rightarrow> (float32 \<times> id_t \<times> float32 list) outcome" where
  "scored_vector s =
     (case s of (score, i, v) \<Rightarrow>
        obind (copy_floats (fv_dim v) (floats v)) (\<lambda>xs. Returns (double_to_f32 score, i, xs)))"

definition search_task ::
  "(string \<Rightarrow> string \<Rightarrow> id_t \<Rightarrow> nat) \<Rightarrow> string \<Rightarrow> float32 list \<Rightarrow> u32 \<Rightarrow> database \<Rightarrow>
   (database \<times> finish list) outcome" where
  "search_task lvs name queryvector top_k db =
     catch_all
       (obind (fv_new (word_of_nat (length queryvector)) queryvector) (\<lambda>query.
        obind (get_nearest_k lvs name query top_k db) (\<lambda>(db', r).
          if is_success r \<and> has_payload r then
            obind (result_value r) (\<lambda>scores. obind (map_outcome_list scored_vector scores) (\<lambda>results.
              Returns (db', [(Search_response results, status_to_grpc_status (res_status r))])))
          else Returns (db', [(Search_response [], status_to_grpc_status (res_status r))]))))
       (\<lambda>e. Returns (db, [(Search_response [], internal)]))"

text \<open>A request without ids is finished twice.\<close>

definition delete_vector_process :: "string \<Rightarrow> id_t list \<Rightarrow> process_result" where
  "delete_vector_process name ids =
     (if name = [] then Finish_now [invalid ''Collection name cannot be empty.'']
      else if ids = [] then
        Finish_now [invalid ''At least one vector ID is required for deletion.'',
          invalid ''At least one vector ID is required for deletion.'']
      else Submit)"

definition delete_vector_task :: "string \<Rightarrow> id_t list \<Rightarrow> database \<Rightarrow> (database \<times> finish list) outcome" where
  "delete_vector_task name ids db =
     catch_all
       (obind (delete_vectors name ids db) (\<lambda>(db', st). Returns (db', [(Empty_response, status_to_grpc_status st)])))
       (\<lambda>e. Returns (db, [(Empty_response, internal)]))"

subsection \<open>Indices\<close>

text \<open>Both checks are made in the task. Parameters of the other kind count as none.\<close>

definition add_index_task ::
  "(string \<Rightarrow> string \<Rightarrow> id_t \<Rightarrow> nat) \<Rightarrow> string \<Rightarrow> string \<Rightarrow> proto_enum \<Rightarrow> proto_params \<Rightarrow> database \<Rightarrow>
   (database \<times> finish list) outcome" where
  "add_index_task lvs collection_name index_name ty ps db =
     catch_all
       (if collection_name = [] \<or> index_name = []
        then Returns (db, [(Empty_response, invalid ''Collection name and index name cannot be empty.'')])
        else if ty = HNSW then
          obind (case ps of
                   Proto_hnsw dt m efc efs \<Rightarrow> hnsw_params_new (proto_to_db_dist dt) m efc efs
                 | _ \<Rightarrow> Returns hnsw_params_default) (\<lambda>hp.
          obind (db_add_index lvs collection_name index_name hnsw (Some (Hnsw_params hp)) db) (\<lambda>(db', st).
            Returns (db', [(Empty_response, status_to_grpc_status st)])))
        else if ty = IVF_FLAT then
          obind (Returns (case ps of
                   Proto_ivf dt k n_probe thr \<Rightarrow> ivf_params_new (proto_to_db_dist dt) k n_probe (ucast thr)
                 | _ \<Rightarrow> ivf_params_default)) (\<lambda>ip.
          obind (db_add_index lvs collection_name index_name ivf_flat (Some (Ivf_params ip)) db) (\<lambda>(db', st).
            Returns (db', [(Empty_response, status_to_grpc_status st)])))
        else Returns (db, [(Empty_response, invalid ''Unknown index type'')]))
       (\<lambda>e. Returns (db, [(Empty_response, internal)]))"

definition get_index_process :: "string \<Rightarrow> string \<Rightarrow> process_result" where
  "get_index_process collection_name index_name =
     (if collection_name = [] \<or> index_name = []
      then Finish_now [invalid ''Collection/Index name cannot be empty.''] else Submit)"

text \<open>The rebuild threshold loses its upper half on the wire.\<close>

definition params_response :: "params \<Rightarrow> rpc_response" where
  "params_response p =
     (case p of
        Hnsw_params hp \<Rightarrow> Hnsw_response (db_dist_to_proto (h_dist hp)) (h_M hp) (h_ef_construction hp) (h_ef_search hp)
      | Ivf_params ip \<Rightarrow>
          Ivf_response (db_dist_to_proto (i_dist ip)) (i_k ip) (i_n_probe ip) (ucast (i_rebuild_threshold ip)))"

definition get_index_task :: "string \<Rightarrow> string \<Rightarrow> database \<Rightarrow> (database \<times> finish list) outcome" where
  "get_index_task collection_name index_name db =
     (let r = db_get_index_params collection_name index_name db; st = status_to_grpc_status (res_status r)
      in if is_success r \<and> has_payload r then
           catch_all
             (obind (result_value r) (\<lambda>(ty, p).
               case (ty, p) of
                 (unknown, _) \<Rightarrow> Returns (db, [(No_index_response, invalid ''Unknown index type'')])
               | (_, Some ps) \<Rightarrow> Returns (db, [(params_response ps, st)])
               | (_, None) \<Rightarrow> Undefined))
             (\<lambda>e. Returns (db, [(No_index_response, internal)]))
         else Returns (db, [(No_index_response, st)]))"

subsection \<open>A whole call\<close>

primrec process :: "rpc_request \<Rightarrow> process_result" where
  "process (Create_collection_request n d) = create_collection_process n d"
| "process (Delete_collection_request n) = delete_collection_process n"
| "process (Upsert_request n vs) = upsert_process n vs"
| "process (Search_request n q k) = search_process n k"
| "process (Del_vector_request n ids) = delete_vector_process n ids"
| "process (Add_index_request n i ty ps) = Submit"
| "process (Index_params_request n i) = get_index_process n i"

primrec task ::
  "(string \<Rightarrow> string \<Rightarrow> id_t \<Rightarrow> nat) \<Rightarrow> rpc_request \<Rightarrow> database \<Rightarrow> (database \<times> finish list) outcome" where
  "task lvs (Create_collection_request n d) db = create_collection_task n d db"
| "task lvs (Delete_collection_request n) db = delete_collection_task n db"
| "task lvs (Upsert_request n vs) db = upsert_task n vs db"
| "task lvs (Search_request n q k) db = search_task lvs n q k db"
| "task lvs (Del_vector_request n ids) db = delete_vector_task n ids db"
| "task lvs (Add_index_request n i ty ps) db = add_index_task lvs n i ty ps db"
| "task lvs (Index_params_request n i) db = get_index_task n i db"

text \<open>The response object as it is before the task has filled it.\<close>

definition fresh_response :: "rpc_request \<Rightarrow> rpc_response" where
  "fresh_response req =
     (case req of Search_request _ _ _ \<Rightarrow> Search_response [] | Index_params_request _ _ \<Rightarrow> No_index_response
      | _ \<Rightarrow> Empty_response)"

definition serve ::
  "(string \<Rightarrow> string \<Rightarrow> id_t \<Rightarrow> nat) \<Rightarrow> rpc_request \<Rightarrow> database \<Rightarrow> (database \<times> finish list) outcome" where
  "serve lvs req db =
     (case process req of
        Finish_now sts \<Rightarrow> Returns (db, map (Pair (fresh_response req)) sts)
      | Submit \<Rightarrow> task lvs req db)"

subsection \<open>Calls as requests to the database\<close>

lemma catch_all_Returns:
  "catch_all m h = Returns x \<longleftrightarrow> m = Returns x \<or> (\<exists>e. m = Throws e \<and> h e = Returns x)"
  by (cases m) auto

text \<open>Requests with numbers of values that fit an \<^verbatim>\<open>int\<close> and distance types of the protocol.\<close>

definition rpc_known :: "rpc_request \<Rightarrow> bool" where
  "rpc_known req =
     (case req of
        Upsert_request n vs \<Rightarrow> list_all (\<lambda>v. length (pv_values v) < 2 ^ 31) vs
      | Add_index_request n i ty (Proto_ivf dt k p thr) \<Rightarrow> dt \<in> {COSINE, EUCLIDEAN, INNER_PRODUCT}
      | _ \<Rightarrow> True)"

text \<open>The database requests that calls turn into.\<close>

definition from_call :: "request \<Rightarrow> bool" where
  "from_call r \<longleftrightarrow>
     request_ok r \<and>
     (case r of Add_collection n d \<Rightarrow> 0 < sint d | Add_index n i ty p \<Rightarrow> i \<noteq> [] | _ \<Rightarrow> True)"

lemma small_length: "n < 2 ^ 31 \<Longrightarrow> unat (word_of_nat n :: u32) = n \<and> 0 \<le> sint (word_of_nat n :: u32)"
  by (simp add: unat_of_nat sint_uint signed_take_bit_eq_if_positive bit_iff_odd uint_nat)

lemma fold_add_metadata [simp]:
  "fv_wf (fold (\<lambda>(k, x). add_metadata k x) m w) = fv_wf w" "fv_dim (fold (\<lambda>(k, x). add_metadata k x) m w) = fv_dim w"
  by (induction m arbitrary: w) (auto simp: add_metadata_def fv_wf_def floats_def)

lemma fv_new_ok:
  "length xs < 2 ^ 31 \<Longrightarrow>
     fv_new (word_of_nat (length xs)) xs = Returns \<lparr>fv_data = Some xs, fv_meta = None, fv_dim = word_of_nat (length xs)\<rparr>"
  using small_length [of "length xs"] by (simp add: fv_new_def make_array_def copy_floats_def)

lemma vector_of_proto_wf:
  "length (pv_values v) < 2 ^ 31 \<Longrightarrow> vector_of_proto v = Returns p \<Longrightarrow> fv_wf (snd p)"
proof -
  assume l: "length (pv_values v) < 2 ^ 31" and p: "vector_of_proto v = Returns p"
  have "fv_wf \<lparr>fv_data = Some (pv_values v), fv_meta = None, fv_dim = word_of_nat (length (pv_values v))\<rparr>"
    using small_length [OF l] by (simp add: fv_wf_def floats_def)
  then show "fv_wf (snd p)" using l p by (auto simp: vector_of_proto_def fv_new_ok split: option.splits)
qed

lemma upsert_as_request:
  assumes "upsert_vectors n vs db = Returns (db', st)" "list_all (\<lambda>v. length (pv_values v) < 2 ^ 31) vs"
  shows "\<exists>r. from_call r \<and> db_step lvs r db = Returns (db', st)"
proof -
  obtain ws ws' where w: "map_outcome_list vector_of_proto vs = Returns ws"
    "map_outcome_list (\<lambda>(i, w). obind (fv_copy w) (\<lambda>w'. Returns (i, w'))) ws = Returns ws'"
    "db_add_vectors n ws' db = Returns (db', st)" using assms(1) by (auto simp: upsert_vectors_def run)
  have "fv_wf (snd p)" if p: "p \<in> set ws" for p
  proof -
    obtain v where "v \<in> set vs" "vector_of_proto v = Returns p" using map_outcome_list_elem [OF w(1) p] by blast
    then show ?thesis using assms(2) vector_of_proto_wf [of v p] by (simp add: list_all_iff)
  qed
  then have "fv_wf (snd p)" if "p \<in> set ws'" for p
    using map_outcome_list_elem [OF w(2) that] by (fastforce simp: fv_copy_wf run)
  then show ?thesis using w(3)
    by (intro exI [of _ "Add_vectors n ws'"]) (simp add: from_call_def request_ok_def list_all_iff)
qed

text \<open>The task of a call either makes one request to the database and reports its status, or changes nothing.\<close>

definition reports :: "(string \<Rightarrow> string \<Rightarrow> id_t \<Rightarrow> nat) \<Rightarrow> database \<Rightarrow> database \<Rightarrow> finish list \<Rightarrow> bool" where
  "reports lvs db db' fs \<longleftrightarrow>
     (\<exists>resp st. fs = [(resp, st)] \<and>
        (db' = db \<or> (\<exists>r s. from_call r \<and> db_step lvs r db = Returns (db', s) \<and> st = status_to_grpc_status s)))"

lemma reports_same [simp]: "reports lvs db db [(resp, st)]"
  by (auto simp: reports_def)

lemma reports_step: "from_call r \<Longrightarrow> db_step lvs r db = Returns (db', s) \<Longrightarrow> reports lvs db db' [(resp, status_to_grpc_status s)]"
  by (auto simp: reports_def)

lemma search_reports:
  assumes "search_task lvs n q k db = Returns (db', fs)"
  shows "reports lvs db db' fs"
proof -
  consider "db' = db" "\<exists>resp st. fs = [(resp, st)]"
    | query r resp where "get_nearest_k lvs n query k db = Returns (db', r)" "fs = [(resp, status_to_grpc_status (res_status r))]"
    using assms by (auto simp: search_task_def catch_all_Returns run split: if_splits)
  then show ?thesis
  proof cases
    case (2 query r resp)
    then have "db_step lvs (Nearest n query k) db = Returns (db', res_status r)" by simp
    then show ?thesis unfolding 2(2) by (rule reports_step [rotated]) (simp add: from_call_def request_ok_def)
  qed auto
qed

lemma add_index_reports:
  assumes "add_index_task lvs n i ty ps db = Returns (db', fs)" "rpc_known (Add_index_request n i ty ps)"
  shows "reports lvs db db' fs"
proof -
  consider "db' = db" "\<exists>resp st. fs = [(resp, st)]"
    | hp st resp where "i \<noteq> []" "db_add_index lvs n i hnsw (Some (Hnsw_params hp)) db = Returns (db', st)"
        "fs = [(resp, status_to_grpc_status st)]"
    | ip st resp where "i \<noteq> []" "db_add_index lvs n i ivf_flat (Some (Ivf_params ip)) db = Returns (db', st)"
        "fs = [(resp, status_to_grpc_status st)]" "get_distance_instance (i_dist ip) \<noteq> None"
  proof -
    have d: "get_distance_instance (i_dist (case ps of Proto_ivf dt k n_probe thr \<Rightarrow>
        ivf_params_new (proto_to_db_dist dt) k n_probe (ucast thr) | _ \<Rightarrow> ivf_params_default)) \<noteq> None"
      using assms(2) proto_dist_known
      by (auto simp: rpc_known_def ivf_params_new_def ivf_params_default_def get_distance_instance_def split: proto_params.splits)
    show thesis using assms(1) that d
      by (fastforce simp: add_index_task_def catch_all_Returns run split: if_splits)
  qed
  then show ?thesis
  proof cases
    case (2 hp st resp)
    then have "db_step lvs (Add_index n i hnsw (Some (Hnsw_params hp))) db = Returns (db', st)" by simp
    then show ?thesis unfolding 2(3)
      by (rule reports_step [rotated]) (use 2 in \<open>simp add: from_call_def request_ok_def params_known_def\<close>)
  next
    case (3 ip st resp)
    then have "db_step lvs (Add_index n i ivf_flat (Some (Ivf_params ip))) db = Returns (db', st)" by simp
    then show ?thesis unfolding 3(3)
      by (rule reports_step [rotated]) (use 3 in \<open>auto simp: from_call_def request_ok_def params_known_def\<close>)
  qed auto
qed

lemma get_index_reports: "get_index_task n i db = Returns (db', fs) \<Longrightarrow> reports lvs db db' fs"
  by (auto simp: get_index_task_def Let_def catch_all_Returns run split: if_splits index_type.splits option.splits)
    (metis index_type.exhaust)+

lemma upsert_reports:
  assumes "upsert_task n vs db = Returns (db', fs)" "rpc_known (Upsert_request n vs)"
  shows "reports lvs db db' fs"
proof -
  have l: "list_all (\<lambda>v. length (pv_values v) < 2 ^ 31) vs" using assms(2) by (simp add: rpc_known_def)
  consider "db' = db" "\<exists>resp st. fs = [(resp, st)]"
    | st resp where "upsert_vectors n vs db = Returns (db', st)" "fs = [(resp, status_to_grpc_status st)]"
    using assms(1) by (auto simp: upsert_task_def catch_all_Returns run)
  then show ?thesis using upsert_as_request [OF _ l, of n db db' _ lvs] reports_step by cases (fastforce, blast)
qed

lemma delete_vector_reports:
  assumes "delete_vector_task n ids db = Returns (db', fs)"
  shows "reports lvs db db' fs"
proof -
  consider "db' = db" "\<exists>resp st. fs = [(resp, st)]"
    | st resp where "delete_vectors n ids db = Returns (db', st)" "fs = [(resp, status_to_grpc_status st)]"
    using assms by (auto simp: delete_vector_task_def catch_all_Returns run)
  then show ?thesis
  proof cases
    case (2 st resp)
    then have "db_step lvs (Delete_vectors n ids) db = Returns (db', st)" by simp
    then show ?thesis unfolding 2(2) by (rule reports_step [rotated]) (simp add: from_call_def request_ok_def)
  qed auto
qed

lemma task_reports:
  assumes "task lvs req db = Returns (db', fs)" "process req = Submit" "rpc_known req"
  shows "reports lvs db db' fs"
proof (cases req)
  case (Create_collection_request n d)
  have "0 < sint d" using assms(2) Create_collection_request by (auto simp: create_collection_process_def split: if_splits)
  then have "from_call (Add_collection n d)" by (simp add: from_call_def request_ok_def)
  then show ?thesis using assms(1) Create_collection_request
    by (auto simp: create_collection_task_def split: prod.splits intro: reports_step)
next
  case (Delete_collection_request n)
  have "from_call (Delete_collection n)" by (simp add: from_call_def request_ok_def)
  then show ?thesis using assms(1) Delete_collection_request
    by (auto simp: delete_collection_task_def split: prod.splits intro: reports_step)
qed (use assms search_reports add_index_reports get_index_reports upsert_reports delete_vector_reports in auto)

subsection \<open>What every database behind the server satisfies\<close>

text \<open>Positive dimensions, and no index with the empty name, the one that a query asks for.\<close>

definition served_collection :: "collection \<Rightarrow> bool" where
  "served_collection c \<longleftrightarrow> 0 < sint (col_dim c) \<and> [] \<notin> set (keys_of (col_indices c))"

definition server_wf :: "database \<Rightarrow> bool" where
  "server_wf db \<longleftrightarrow> db_wf db \<and> list_all (\<lambda>p. served_collection (snd p)) (collections db)"

lemma map_index_list_keys: "map_index_list f xs = Returns ys \<Longrightarrow> keys_of ys = keys_of xs"
  using map_index_list_keeps [of f xs ys "\<lambda>_. True"] by simp

lemma add_vectors_served: "add_vectors vs c = Returns (c', n) \<Longrightarrow> served_collection c \<Longrightarrow> served_collection c'"
  by (auto simp: add_vectors_def run served_collection_def simp flip: set_map dest!: map_index_list_keys split: prod.splits)

lemma remove_vectors_served: "remove_vectors ids c = Returns (c', n) \<Longrightarrow> served_collection c \<Longrightarrow> served_collection c'"
  by (auto simp: remove_vectors_def run served_collection_def simp flip: set_map dest!: map_index_list_keys
      split: prod.splits if_splits)

lemma add_index_served:
  assumes "add_index lv name ty p c = Returns (c', ok)" "name \<noteq> []" "served_collection c"
  shows "served_collection c'"
proof -
  have "c' = c \<or> (\<exists>ix. c' = c\<lparr>col_indices := map_emplace name ix (col_indices c)\<rparr>)"
    using assms(1) by (cases "build_index (col_table c) (lv name) ty p")
      (auto simp: add_index_def split: if_splits option.splits)
  moreover have "[] \<notin> set (keys_of (map_emplace name ix (col_indices c)))" for ix
    unfolding keys_map_emplace using assms(2,3) by (simp add: served_collection_def)
  ultimately show ?thesis using assms(3) by (auto simp: served_collection_def simp flip: set_map)
qed

lemma search_served: "search_for_top_k lv q k r [] c = Returns (c', res) \<Longrightarrow> served_collection c \<Longrightarrow> c' = c"
  by (auto simp: search_for_top_k_def served_collection_def run split: option.splits index.splits dest: map_of_in_keys)

lemma put_served:
  "list_all (\<lambda>p. served_collection (snd p)) (collections db) \<Longrightarrow> served_collection c \<Longrightarrow>
     list_all (\<lambda>p. served_collection (snd p)) (collections (put_collection n c db))"
  using set_update_subset [of n c "collections db"] by (auto simp: put_collection_def list_all_iff)

text \<open>A request other than the creation or deletion of a collection puts back a changed collection, if any.\<close>

lemma step_changes:
  assumes "db_step lvs r db = Returns (db', st)" "from_call r" "\<And>n c. map_of (collections db) n = Some c \<Longrightarrow> served_collection c"
  shows "db' = db \<or> (\<exists>n c. served_collection c \<and> db' = put_collection n c db) \<or>
    (\<exists>n d. r = Add_collection n d) \<or> (\<exists>n. r = Delete_collection n)"
proof (cases r)
  case (Add_vectors n vs)
  then show ?thesis using assms(1) add_vectors_served [OF _ assms(3)]
    by (fastforce simp: db_add_vectors_def run split: if_splits option.splits)
next
  case (Delete_vectors n ids)
  then show ?thesis using assms(1) remove_vectors_served [OF _ assms(3)]
    by (fastforce simp: delete_vectors_def run split: if_splits option.splits)
next
  case (Add_index n i ty p)
  then have "i \<noteq> []" using assms(2) by (simp add: from_call_def)
  then show ?thesis using assms(1) Add_index add_index_served [OF _ _ assms(3)]
    by (fastforce simp: db_add_index_def run split: if_splits option.splits)
next
  case (Nearest n q k)
  then show ?thesis using assms(1) search_served [OF _ assms(3)] assms(3)
    by (fastforce simp: get_nearest_k_def run split: if_splits option.splits)
qed simp_all

lemma step_served:
  assumes "db_step lvs r db = Returns (db', st)" "from_call r" "list_all (\<lambda>p. served_collection (snd p)) (collections db)"
  shows "list_all (\<lambda>p. served_collection (snd p)) (collections db')"
proof -
  have c: "served_collection c" if "map_of (collections db) n = Some c" for n c
    using assms(3) map_of_SomeD [OF that] by (auto simp: list_all_iff)
  consider "db' = db" | n c where "served_collection c" "db' = put_collection n c db"
    | n d where "r = Add_collection n d" | n where "r = Delete_collection n"
    using step_changes [OF assms(1,2)] c by blast
  then show ?thesis
  proof cases
    case (3 n d)
    have "served_collection (collection_new d n)"
      using assms(2) 3 by (simp add: served_collection_def from_call_def collection_new_def)
    then show ?thesis using assms(1,3) 3
      by (auto simp: add_collection_def map_emplace_def split: if_splits option.splits)
  next
    case (4 n)
    then show ?thesis using assms(1,3)
      by (auto simp: delete_collection_def AList.delete_eq list_all_iff split: if_splits option.splits)
  qed (use assms(3) put_served in auto)
qed

lemma serve_reports:
  assumes "serve lvs req db = Returns (db', fs)" "rpc_known req"
  shows "(db' = db \<and> (\<exists>sts. process req = Finish_now sts \<and> fs = map (Pair (fresh_response req)) sts)) \<or>
    process req = Submit \<and> reports lvs db db' fs"
  using assms task_reports by (auto simp: serve_def split: process_result.splits)

lemma serve_wf:
  assumes "serve lvs req db = Returns (db', fs)" "rpc_known req" "server_wf db"
  shows "server_wf db'"
proof -
  consider "db' = db" | r st where "from_call r" "db_step lvs r db = Returns (db', st)"
    using serve_reports [OF assms(1,2)] by (auto simp: reports_def)
  then show ?thesis
  proof cases
    case (2 r st)
    then show ?thesis using db_step_wf [of db r lvs db' st] step_served [OF 2(2,1)] assms(3)
      by (simp add: server_wf_def from_call_def)
  qed (use assms(3) in simp)
qed

text \<open>The databases that a sequence of calls to a fresh server leads to.\<close>

inductive served :: "(string \<Rightarrow> string \<Rightarrow> id_t \<Rightarrow> nat) \<Rightarrow> database \<Rightarrow> bool" for lvs where
  fresh: "served lvs database_new"
| call: "served lvs db \<Longrightarrow> rpc_known req \<Longrightarrow> serve lvs req db = Returns (db', fs) \<Longrightarrow> served lvs db'"

lemma served_wf: "served lvs db \<Longrightarrow> server_wf db"
proof (induction rule: served.induct)
  case fresh
  show ?case by (simp add: server_wf_def db_wf_def database_new_def)
next
  case (call db req db' fs)
  then show ?case by (blast intro: serve_wf)
qed

subsection \<open>Properties\<close>

text \<open>
  Every call is answered exactly once, except a deletion of vectors that names a collection and no
  ids: that one is finished twice.
\<close>

lemma calls_finish_once:
  assumes "serve lvs req db = Returns (db', fs)" "rpc_known req"
  shows "length fs = (case req of Del_vector_request n ids \<Rightarrow> if n \<noteq> [] \<and> ids = [] then 2 else 1 | _ \<Rightarrow> 1)"
proof (cases "process req")
  case (Finish_now sts)
  then have "length fs = length sts" using assms(1) by (auto simp: serve_def)
  then show ?thesis using Finish_now
    by (cases req) (auto simp: create_collection_process_def delete_collection_process_def upsert_process_def
        search_process_def delete_vector_process_def get_index_process_def split: if_splits)
next
  case Submit
  then have "length fs = 1" using serve_reports [OF assms] by (auto simp: reports_def)
  then show ?thesis using Submit by (cases req) (auto simp: delete_vector_process_def)
qed

lemma calls_finish_once_instance:
  "length [(Empty_response, invalid ''At least one vector ID is required for deletion.''),
      (Empty_response, invalid ''At least one vector ID is required for deletion.'')] = (2 :: nat)"
proof -
  have "serve (\<lambda>_ _ _. 0) (Del_vector_request ''c'' []) database_new = Returns (database_new,
      [(Empty_response, invalid ''At least one vector ID is required for deletion.''),
       (Empty_response, invalid ''At least one vector ID is required for deletion.'')])"
    by (simp add: serve_def delete_vector_process_def fresh_response_def)
  from calls_finish_once [OF this] show ?thesis by (simp add: rpc_known_def)
qed



text \<open>What \<open>server_wf\<close> says of each collection.\<close>

lemma server_wf_content:
  assumes "server_wf db" "map_of (collections db) n = Some c"
  shows "is_collection_name_valid n = success \<and> 0 < sint (col_dim c) \<and>
    list_all (\<lambda>p. fv_dim (snd p) = col_dim c \<and> length (floats (snd p)) = unat (col_dim c)) (vectors (col_table c)) \<and>
    distinct (keys_of (vectors (col_table c))) \<and> [] \<notin> set (keys_of (col_indices c))"
proof -
  have wf: "db_wf db" "served_collection c"
    using assms(1) map_of_SomeD [OF assms(2)] by (auto simp: server_wf_def list_all_iff)
  then have "is_collection_name_valid n = success" "col_wf c" using db_wf_lookup [OF _ assms(2)] by blast+
  moreover have "list_all (\<lambda>p. fv_dim (snd p) = col_dim c \<and> length (floats (snd p)) = unat (col_dim c)) (vectors (col_table c))"
    "distinct (keys_of (vectors (col_table c)))"
    using calculation(2) by (auto simp: col_wf_def table_wf_def fv_wf_def list_all_iff)
  ultimately show ?thesis using wf(2) by (simp add: served_collection_def)
qed

text \<open>
  C5. Whatever calls were made before, a search for finite values of the right dimension is answered
  with OK and the scores, ids and values that the exhaustive search over the collection gives: indices
  have no part in it.
\<close>

theorem search_call_exact:
  assumes "served lvs db" "map_of (collections db) n = Some c" "0 < sint k"
    and "length q = unat (col_dim c)" "list_all f32_finite q" "list_all (\<lambda>p. fv_finite (snd p)) (vectors (col_table c))"
  shows "\<exists>rs. exact_search (Some (col_table c)) \<lparr>fv_data = Some q, fv_meta = None, fv_dim = col_dim c\<rparr> k [] = Returns (True, rs) \<and>
    serve lvs (Search_request n q k) db =
      Returns (db, [(Search_response (map (\<lambda>(d, i, v). (double_to_f32 d, i, floats v)) rs), (OK, []))])"
proof -
  let ?q = "\<lparr>fv_data = Some q, fv_meta = None, fv_dim = col_dim c\<rparr>"
  have "db_wf db" "served_collection c"
    using served_wf [OF assms(1)] map_of_SomeD [OF assms(2)] by (auto simp: server_wf_def list_all_iff)
  then have wf: "db_wf db" "0 < sint (col_dim c)" "[] \<notin> set (keys_of (col_indices c))"
    by (simp_all add: served_collection_def)
  then have c: "is_collection_name_valid n = success" "col_wf c" using db_wf_lookup [OF _ assms(2)] by blast+
  have "fv_wf ?q" "fv_finite ?q" using wf(2) assms(4,5) by (simp_all add: fv_wf_def fv_finite_def floats_def)
  then have s: "searchable ?q (col_table c)"
    using c(2) assms(6) by (simp add: searchable_def col_wf_def)
  have "map_of (col_indices c) [] = None" using wf(3) map_of_eq_None_iff [of "col_indices c" "[]"] by simp
  from nearest_exact [OF wf(1) assms(2) this s] obtain rs where
    rs: "exact_search (Some (col_table c)) ?q k [] = Returns (True, rs)"
    "get_nearest_k lvs n ?q k db = Returns (db, result_of success rs)" by blast
  have "fv_new (word_of_nat (length q)) q = Returns ?q"
    using wf(2) assms(4) by (simp add: fv_new_def make_array_def copy_floats_def)
  moreover have "map_outcome_list scored_vector rs = Returns (map (\<lambda>(d, i, v). (double_to_f32 d, i, floats v)) rs)"
  proof (rule map_outcome_list_Returns)
    fix x assume "x \<in> set rs"
    obtain d i v where x: "x = (d, i, v)" by (cases x)
    then have "fv_wf v" using exact_search_wf [OF s rs(1), of d i v] \<open>x \<in> set rs\<close> by simp
    then show "scored_vector x = Returns (case x of (d, i, v) \<Rightarrow> (double_to_f32 d, i, floats v))"
      by (simp add: x scored_vector_def fv_wf_floats)
  qed
  moreover have "process (Search_request n q k) = Submit"
    using c(1) assms(3) by (auto simp: search_process_def name_valid_iff)
  ultimately show ?thesis using rs
    by (intro exI [of _ rs]) (simp add: serve_def search_task_def is_success_def has_payload_def result_value_def
        status_to_grpc_status_def)
qed

definition one_vector_db :: database where
  "one_vector_db = \<lparr>collections = [(''c'', \<lparr>col_dim = 1, col_name = ''c'',
     col_table = \<lparr>vectors = [(7, sample_vector 0x3F800000)], vec_mutex = Free\<rparr>, col_indices = []\<rparr>)]\<rparr>"

lemma sample_upsert:
  "upsert_vectors ''c'' [\<lparr>pv_id = 7, pv_values = [0x3F800000], pv_metadata = None\<rparr>]
    \<lparr>collections = [(''c'', collection_new 1 ''c'')]\<rparr> = Returns (one_vector_db, success)"
  by (simp add: upsert_vectors_def vector_of_proto_def fv_new_def make_array_def copy_floats_def fv_copy_def floats_def
      db_add_vectors_def is_collection_name_valid_def isalnum_def collection_new_def add_vectors_def add_one_vector_def
      map_emplace_def put_collection_def one_vector_db_def sample_vector_def)

lemma served_one_vector: "served (\<lambda>_ _ _. 0) one_vector_db"
proof (rule served.call)
  show "served (\<lambda>_ _ _. 0) \<lparr>collections = [(''c'', collection_new 1 ''c'')]\<rparr>"
  proof (rule served.call [OF served.fresh])
    show "serve (\<lambda>_ _ _. 0) (Create_collection_request ''c'' 1) database_new =
        Returns (\<lparr>collections = [(''c'', collection_new 1 ''c'')]\<rparr>, [(Empty_response, (OK, []))])"
      by (simp add: serve_def create_collection_process_def create_collection_task_def add_collection_def database_new_def
          is_collection_name_valid_def isalnum_def status_to_grpc_status_def map_emplace_def)
  qed (simp add: rpc_known_def)
  show "serve (\<lambda>_ _ _. 0) (Upsert_request ''c'' [\<lparr>pv_id = 7, pv_values = [0x3F800000], pv_metadata = None\<rparr>])
      \<lparr>collections = [(''c'', collection_new 1 ''c'')]\<rparr> = Returns (one_vector_db, [(Empty_response, (OK, []))])"
    by (simp add: serve_def upsert_process_def upsert_task_def sample_upsert status_to_grpc_status_def)
qed (simp add: rpc_known_def)

theorem search_call_exact_witness:
  "\<exists>c rs. map_of (collections one_vector_db) ''c'' = Some c \<and>
    exact_search (Some (col_table c)) \<lparr>fv_data = Some [0], fv_meta = None, fv_dim = col_dim c\<rparr> 3 [] = Returns (True, rs) \<and>
    serve (\<lambda>_ _ _. 0) (Search_request ''c'' [0] 3) one_vector_db =
      Returns (one_vector_db, [(Search_response (map (\<lambda>(d, i, v). (double_to_f32 d, i, floats v)) rs), (OK, []))])"
proof -
  obtain c where c: "map_of (collections one_vector_db) ''c'' = Some c" "col_dim c = 1"
    "vectors (col_table c) = [(7, sample_vector 0x3F800000)]" by (simp add: one_vector_db_def)
  then show ?thesis using search_call_exact [OF served_one_vector c(1), of 3 "[0]"] by (auto simp: fp_eval)
qed

end
