(* ===== verification/Rpc_Flow.thy ===== *)
theory Rpc_Flow
  imports Server
begin

text \<open>
  \<^verbatim>\<open>rpc_base\<close> of \<^verbatim>\<open>impl/grpc_server/server.cpp\<close>: the life of one handler object between its creation
  and \<^verbatim>\<open>delete this\<close>, and the streaming upsert. A handler is driven by events of the completion queue;
  each operation it starts (accepting the call, \<^verbatim>\<open>Read\<close>, \<^verbatim>\<open>Finish\<close>) brings exactly one event later,
  which is what gRPC documents. The reaction to an event is one step here, and \<open>Dispatch\<close> builds on that;
  \<open>Handler_Race\<close> takes it apart.
\<close>

datatype rpc_state = CREATED | READ | WRITTEN | PROCESSED

datatype effect =
    New_instance
  | Read_next
  | Submit_task
  | Finish_call grpc_status
  | Delete_this

subsection \<open>One event\<close>

definition process_effects :: "process_result \<Rightarrow> rpc_state \<Rightarrow> rpc_state \<times> effect list" where
  "process_effects r st =
     (case r of Finish_now sts \<Rightarrow> (PROCESSED, map Finish_call sts) | Submit \<Rightarrow> (st, [Submit_task]))"

text \<open>
  \<open>streaming\<close> handlers start a read in \<^verbatim>\<open>do_read\<close>, the others have their request already; \<open>err\<close> is what
  \<^verbatim>\<open>handle_unknown_error\<close> finishes with. The case CREATED falls through to READ.
\<close>

definition run_flow ::
  "bool \<Rightarrow> process_result \<Rightarrow> grpc_status \<Rightarrow> bool \<Rightarrow> bool \<Rightarrow> rpc_state \<Rightarrow> rpc_state \<times> effect list" where
  "run_flow streaming r err ok shutdown st =
     (if shutdown then (st, [Delete_this])
      else if \<not> ok \<and> st \<noteq> PROCESSED then (PROCESSED, [Finish_call err])
      else
        (case st of
           CREATED \<Rightarrow>
             if streaming then (READ, [New_instance, Read_next])
             else (case process_effects r CREATED of (st', es) \<Rightarrow> (st', New_instance # es))
         | READ \<Rightarrow> process_effects r READ
         | PROCESSED \<Rightarrow> (PROCESSED, [Delete_this])
         | WRITTEN \<Rightarrow> (PROCESSED, [Finish_call err])))"

subsection \<open>The life of a unary handler\<close>

text \<open>\<open>pending\<close> counts the events still to come and \<open>in_task\<close> says that a task holds the handler.\<close>

record handler =
  h_state :: rpc_state
  pending :: nat
  in_task :: bool
  deleted :: bool

definition handler_new :: handler where
  "handler_new = \<lparr>h_state = CREATED, pending = 1, in_task = False, deleted = False\<rparr>"

primrec apply_effect :: "effect \<Rightarrow> handler \<Rightarrow> handler" where
  "apply_effect New_instance h = h"
| "apply_effect Read_next h = h\<lparr>pending := Suc (pending h)\<rparr>"
| "apply_effect Submit_task h = h\<lparr>in_task := True\<rparr>"
| "apply_effect (Finish_call st) h = h\<lparr>pending := Suc (pending h)\<rparr>"
| "apply_effect Delete_this h = h\<lparr>deleted := True\<rparr>"

definition handle_event :: "rpc_request \<Rightarrow> bool \<Rightarrow> bool \<Rightarrow> handler \<Rightarrow> handler" where
  "handle_event req ok shutdown h =
     (case run_flow False (process req) internal ok shutdown (h_state h) of
        (st, es) \<Rightarrow> fold apply_effect es (h\<lparr>h_state := st, pending := pending h - 1\<rparr>))"

text \<open>Every task of a unary call ends with the state PROCESSED and one \<^verbatim>\<open>Finish\<close>.\<close>

definition task_done :: "handler \<Rightarrow> handler" where
  "task_done h = h\<lparr>h_state := PROCESSED, in_task := False, pending := Suc (pending h)\<rparr>"

inductive handler_step :: "rpc_request \<Rightarrow> handler \<Rightarrow> handler \<Rightarrow> bool" for req where
  event: "0 < pending h \<Longrightarrow> handler_step req h (handle_event req ok shutdown h)"
| task_end: "in_task h \<Longrightarrow> handler_step req h (task_done h)"

text \<open>An event that reaches a deleted handler, or a task that still holds one, uses freed memory.\<close>

definition freed_in_use :: "handler \<Rightarrow> bool" where
  "freed_in_use h \<longleftrightarrow> deleted h \<and> (0 < pending h \<or> in_task h)"

definition handler_inv :: "handler \<Rightarrow> bool" where
  "handler_inv h \<longleftrightarrow>
     pending h + (if in_task h then 1 else 0) + (if deleted h then 1 else 0) = 1 \<and>
     (h_state h = CREATED \<or> h_state h = PROCESSED)"

definition finishes_once :: "rpc_request \<Rightarrow> bool" where
  "finishes_once req \<longleftrightarrow> (case process req of Finish_now sts \<Rightarrow> length sts = 1 | Submit \<Rightarrow> True)"

lemma handler_step_inv: "handler_step req h h' \<Longrightarrow> finishes_once req \<Longrightarrow> handler_inv h \<Longrightarrow> handler_inv h'"
proof (induction rule: handler_step.induct)
  case (event h ok shutdown)
  then have "pending h = 1" "\<not> in_task h" "\<not> deleted h" "h_state h = CREATED \<or> h_state h = PROCESSED"
    by (auto simp: handler_inv_def split: if_splits)
  then show ?case using event.prems(1)
    by (cases "process req")
      (auto simp: handle_event_def run_flow_def process_effects_def handler_inv_def finishes_once_def length_Suc_conv)
next
  case (task_end h)
  then show ?case by (auto simp: handler_inv_def task_done_def split: if_splits)
qed

lemma handler_reach_inv:
  "(handler_step req)\<^sup>*\<^sup>* handler_new h \<Longrightarrow> finishes_once req \<Longrightarrow> handler_inv h"
proof (induction rule: rtranclp_induct)
  case base
  show ?case by (simp add: handler_new_def handler_inv_def)
next
  case (step h h')
  then show ?case by (blast intro: handler_step_inv)
qed

lemma finishes_once_iff:
  "finishes_once req \<longleftrightarrow> \<not> (\<exists>n. n \<noteq> [] \<and> req = Del_vector_request n [])"
  by (cases req) (auto simp: finishes_once_def create_collection_process_def delete_collection_process_def
      upsert_process_def search_process_def delete_vector_process_def get_index_process_def)

text \<open>
  A unary handler is deleted only after its last event and after its task: in every state it can
  reach, with or without a shutdown in between, exactly one of three things holds, that one event is to
  come, that its task runs, or that it is deleted.
\<close>

lemma handler_not_used_after_delete:
  assumes "(handler_step req)\<^sup>*\<^sup>* handler_new h" "\<not> (\<exists>n. n \<noteq> [] \<and> req = Del_vector_request n [])"
  shows "\<not> freed_in_use h \<and> pending h + (if in_task h then 1 else 0) + (if deleted h then 1 else 0) = 1"
proof -
  have "handler_inv h" using handler_reach_inv [OF assms(1)] assms(2) by (simp add: finishes_once_iff)
  then show ?thesis by (auto simp: handler_inv_def freed_in_use_def split: if_splits)
qed

lemma handler_not_used_after_delete_instance:
  "\<exists>h. (handler_step (Delete_collection_request ''c''))\<^sup>*\<^sup>* handler_new h \<and> \<not> freed_in_use h \<and>
    pending h + (if in_task h then 1 else 0) + (if deleted h then 1 else 0) = (1 :: nat) \<and> in_task h"
proof -
  let ?r = "Delete_collection_request ''c''"
  have "handler_step ?r handler_new (handle_event ?r True False handler_new)"
    by (rule handler_step.event) (simp add: handler_new_def)
  then have s: "(handler_step ?r)\<^sup>*\<^sup>* handler_new (handle_event ?r True False handler_new)" by (rule r_into_rtranclp)
  have "in_task (handle_event ?r True False handler_new)"
    by (simp add: handle_event_def run_flow_def process_effects_def delete_collection_process_def handler_new_def)
  with s handler_not_used_after_delete [OF s] show ?thesis by blast
qed

text \<open>
  The handler of a deletion that names no ids finishes its call twice, so two events come back: the
  first one deletes the handler and the second one is delivered to freed memory.
\<close>

lemma empty_deletion_uses_freed_handler:
  assumes "n \<noteq> []"
  shows "\<exists>h. (handler_step (Del_vector_request n []))\<^sup>*\<^sup>* handler_new h \<and> freed_in_use h"
proof -
  let ?r = "Del_vector_request n []"
  let ?h1 = "handle_event ?r True False handler_new"
  let ?h2 = "handle_event ?r True False ?h1"
  have h1: "?h1 = \<lparr>h_state = PROCESSED, pending = 2, in_task = False, deleted = False\<rparr>"
    using assms by (simp add: handle_event_def run_flow_def process_effects_def delete_vector_process_def handler_new_def)
  have "handler_step ?r handler_new ?h1" by (rule handler_step.event) (simp add: handler_new_def)
  moreover have "handler_step ?r ?h1 ?h2" by (rule handler_step.event) (simp add: h1)
  ultimately have "(handler_step ?r)\<^sup>*\<^sup>* handler_new ?h2" by (meson r_into_rtranclp rtranclp_trans)
  moreover have "freed_in_use ?h2" by (simp add: h1 freed_in_use_def) (simp add: handle_event_def run_flow_def)
  ultimately show ?thesis by blast
qed

lemma empty_deletion_uses_freed_handler_instance:
  "\<exists>h. (handler_step (Del_vector_request ''c'' []))\<^sup>*\<^sup>* handler_new h \<and> freed_in_use h"
  by (rule empty_deletion_uses_freed_handler) simp

subsection \<open>The streaming upsert\<close>

text \<open>
  The task of one message: after a success it reads the next message, after an error it finishes; when
  it catches an exception it does neither, and no event comes any more.
\<close>

datatype stream_next = Read_more | Stream_finish grpc_status | Stuck

definition stream_task :: "string \<Rightarrow> proto_vector list \<Rightarrow> database \<Rightarrow> (database \<times> stream_next) outcome" where
  "stream_task name vs db =
     catch_all
       (obind (upsert_vectors name vs db) (\<lambda>(db', st).
          Returns (db', if st \<noteq> success then Stream_finish (status_to_grpc_status st) else Read_more)))
       (\<lambda>e. Returns (db, Stuck))"

text \<open>
  The messages of one stream. When the client has no more of them the read fails, and
  \<^verbatim>\<open>handle_unknown_error\<close> finishes with the status so far. \<open>None\<close> is a call that is never finished.
\<close>

fun stream_loop ::
  "(string \<times> proto_vector list) list \<Rightarrow> grpc_status \<Rightarrow> database \<Rightarrow> (database \<times> grpc_status option) outcome" where
  "stream_loop [] status db = Returns (db, Some status)"
| "stream_loop ((name, vs) # ms) status db =
     obind (stream_task name vs db) (\<lambda>(db', nx).
       case nx of
         Read_more \<Rightarrow> stream_loop ms (OK, []) db'
       | Stream_finish st \<Rightarrow> Returns (db', Some st)
       | Stuck \<Rightarrow> Returns (db', None))"

definition stream_upsert :: "(string \<times> proto_vector list) list \<Rightarrow> database \<Rightarrow> (database \<times> grpc_status option) outcome" where
  "stream_upsert ms db = stream_loop ms internal db"

lemma stream_loop_prefix:
  "run_requests (\<lambda>(n, vs). upsert_vectors n vs) ms db = Returns (db1, sts) \<Longrightarrow> set sts \<subseteq> {success} \<Longrightarrow>
     stream_loop (ms @ rest) status db = stream_loop rest (if ms = [] then status else (OK, [])) db1"
proof (induction ms arbitrary: db status sts)
  case (Cons m ms)
  obtain n vs where m: "m = (n, vs)" by (cases m)
  obtain db2 st sts' where 1: "upsert_vectors n vs db = Returns (db2, st)" "sts = st # sts'"
    "run_requests (\<lambda>(n, vs). upsert_vectors n vs) ms db2 = Returns (db1, sts')"
    using Cons.prems(1) m by (auto simp: run)
  then show ?case using Cons.IH [OF 1(3), of "(OK, [])"] Cons.prems(2) m by (simp add: stream_task_def)
qed simp

lemma upsert_error: "upsert_vectors n vs db = Returns (db', st) \<Longrightarrow> st \<noteq> success \<Longrightarrow> db' = db"
  using step_error [of _ "Add_vectors n _" db db' st] by (auto simp: upsert_vectors_def run)

text \<open>
  C30. A streaming upsert applies its messages in order up to the first one that fails: when all succeed
  the call is answered with OK (with INTERNAL when there was no message at all); at the first failure it
  is answered with that status, what came before stays applied and what comes after is ignored.
\<close>

theorem stream_upsert_applies_prefix:
  assumes "run_requests (\<lambda>(n, vs). upsert_vectors n vs) ms db = Returns (db1, sts)" "set sts \<subseteq> {success}"
  shows "stream_upsert ms db = Returns (db1, Some (if ms = [] then internal else (OK, []))) \<and>
    (\<forall>n vs db2 st rest. upsert_vectors n vs db1 = Returns (db2, st) \<and> st \<noteq> success \<longrightarrow>
       stream_upsert (ms @ (n, vs) # rest) db = Returns (db1, Some (status_to_grpc_status st)))"
proof -
  have p: "stream_upsert (ms @ rest) db = stream_loop rest (if ms = [] then internal else (OK, [])) db1" for rest
    using stream_loop_prefix [OF assms] by (simp add: stream_upsert_def)
  moreover have "stream_upsert (ms @ (n, vs) # rest) db = Returns (db1, Some (status_to_grpc_status st))"
    if "upsert_vectors n vs db1 = Returns (db2, st)" "st \<noteq> success" for n vs db2 st rest
    using p [of "(n, vs) # rest"] upsert_error [OF that] that by (simp add: stream_task_def)
  ultimately show ?thesis using p [of "[]"] by auto
qed

theorem stream_upsert_applies_prefix_witness:
  "stream_upsert [(''c'', [\<lparr>pv_id = 7, pv_values = [0x3F800000], pv_metadata = None\<rparr>])]
      \<lparr>collections = [(''c'', collection_new 1 ''c'')]\<rparr> = Returns (one_vector_db, Some (OK, [])) \<and>
   stream_upsert [(''c'', [\<lparr>pv_id = 7, pv_values = [0x3F800000], pv_metadata = None\<rparr>]), (''x'', []), (''c'', [])]
      \<lparr>collections = [(''c'', collection_new 1 ''c'')]\<rparr> =
     Returns (one_vector_db, Some (status_to_grpc_status collection_does_not_exist))"
proof -
  let ?m = "(''c'', [\<lparr>pv_id = 7, pv_values = [0x3F800000 :: float32], pv_metadata = None\<rparr>])"
  have "run_requests (\<lambda>(n, vs). upsert_vectors n vs) [?m] \<lparr>collections = [(''c'', collection_new 1 ''c'')]\<rparr> =
      Returns (one_vector_db, [success])"
    by (simp add: sample_upsert)
  moreover have "upsert_vectors ''x'' [] one_vector_db = Returns (one_vector_db, collection_does_not_exist)"
    by (simp add: upsert_vectors_def db_add_vectors_def is_collection_name_valid_def isalnum_def one_vector_db_def)
  ultimately show ?thesis using stream_upsert_applies_prefix [of "[?m]"] by simp
qed

end
