(* ===== verification/Handler_Race.thy ===== *)
theory Handler_Race
  imports Rpc_Flow
begin

text \<open>
  The handlers of \<^verbatim>\<open>server.cpp\<close> once more, access by access. \<open>Rpc_Flow\<close> treats the reaction to an event as
  one step; here the polling threads and the workers interleave between any two accesses to the handler
  object, as they do in the program. A thread inside a method of the handler is the list of accesses it
  has still to make. What an access does is taken to be atomic; \<^verbatim>\<open>state_\<close> is read once per event.
\<close>

datatype access =
    Make_instance
  | Start_op
  | Set_state rpc_state
  | Hand_over
  | Touch
  | Free

text \<open>
  \<^verbatim>\<open>Start_op\<close> is a call of \<^verbatim>\<open>Read\<close> or \<^verbatim>\<open>Finish\<close>, \<^verbatim>\<open>Hand_over\<close> the one of \<^verbatim>\<open>submit\<close> with a task that holds the
  handler, \<^verbatim>\<open>Touch\<close> any other use of a member.
\<close>

definition process_accesses :: "process_result \<Rightarrow> access list" where
  "process_accesses r =
     (case r of
        Finish_now sts \<Rightarrow> concat (map (\<lambda>st. [Set_state PROCESSED, Start_op]) sts)
      | Submit \<Rightarrow> [Hand_over])"

definition unknown_error_accesses :: "access list" where
  "unknown_error_accesses = [Set_state PROCESSED, Start_op]"

definition do_read_accesses :: "access list" where
  "do_read_accesses = [Start_op, Set_state READ]"

definition event_accesses :: "bool \<Rightarrow> process_result \<Rightarrow> bool \<Rightarrow> bool \<Rightarrow> rpc_state \<Rightarrow> access list" where
  "event_accesses streaming r ok shutdown st =
     (if shutdown then [Free]
      else if \<not> ok \<and> st \<noteq> PROCESSED then unknown_error_accesses @ [Set_state PROCESSED]
      else
        (case st of
           CREATED \<Rightarrow> Make_instance # (if streaming then do_read_accesses else process_accesses r)
         | READ \<Rightarrow> process_accesses r
         | PROCESSED \<Rightarrow> [Free]
         | WRITTEN \<Rightarrow> unknown_error_accesses @ [Set_state PROCESSED]))"

text \<open>
  The tasks: those of a unary call end with \<^verbatim>\<open>Finish\<close>; when one of a deletion or of \<^verbatim>\<open>add_index\<close> catches an
  exception it uses the logger of the handler after that. The task of a stream reads on, finishes, or
  does nothing but log.
\<close>

definition unary_jobs :: "access list list" where
  "unary_jobs = [[Set_state PROCESSED, Start_op]]"

definition failing_jobs :: "access list list" where
  "failing_jobs = [[Set_state PROCESSED, Start_op], unknown_error_accesses @ [Touch]]"

definition stream_jobs :: "access list list" where
  "stream_jobs = [do_read_accesses, [Set_state PROCESSED, Start_op], [Touch]]"

subsection \<open>Interleaving\<close>

text \<open>
  The handler and the threads inside it, polling threads marked \<open>True\<close>. \<open>events\<close> counts the operations
  whose event is still to come; the last three fields count what the handler has done.
\<close>

record shared_handler =
  sh_state :: rpc_state
  events :: nat
  inside :: "(bool \<times> access list) list"
  freed :: bool
  instances :: nat
  started_ops :: nat
  handed :: nat

definition shared_new :: shared_handler where
  "shared_new = \<lparr>sh_state = CREATED, events = 1, inside = [], freed = False, instances = 0, started_ops = 0, handed = 0\<rparr>"

primrec do_access :: "access \<Rightarrow> shared_handler \<Rightarrow> shared_handler" where
  "do_access Make_instance h = h\<lparr>instances := Suc (instances h)\<rparr>"
| "do_access Start_op h = h\<lparr>events := Suc (events h), started_ops := Suc (started_ops h)\<rparr>"
| "do_access (Set_state st) h = h\<lparr>sh_state := st\<rparr>"
| "do_access Hand_over h = h\<lparr>handed := Suc (handed h)\<rparr>"
| "do_access Touch h = h"
| "do_access Free h = h\<lparr>freed := True\<rparr>"

definition polling :: "shared_handler \<Rightarrow> nat" where
  "polling h = length (filter (\<lambda>(p, as). p \<and> as \<noteq> []) (inside h))"

text \<open>
  What happens next: a polling thread takes an event, which may report a failure or find the server shut
  down, or the \<open>i\<close>-th thread makes its next access; when that is \<open>Hand_over\<close>, a worker starts the \<open>j\<close>-th of
  the possible tasks. At most \<open>n\<close> polling threads are inside; \<open>fails\<close> says whether events report failures
  before the call is finished.
\<close>

datatype choice = Deliver bool bool | Go nat nat

definition race_next ::
  "nat \<Rightarrow> bool \<Rightarrow> bool \<Rightarrow> process_result \<Rightarrow> access list list \<Rightarrow> choice \<Rightarrow> shared_handler \<Rightarrow> shared_handler option" where
  "race_next n fails streaming r jobs c h =
     (case c of
        Deliver ok shutdown \<Rightarrow>
          if 0 < events h \<and> polling h < n \<and> (ok \<or> fails)
          then Some (h\<lparr>events := events h - 1,
            inside := inside h @ [(True, event_accesses streaming r ok shutdown (sh_state h))]\<rparr>)
          else None
      | Go i j \<Rightarrow>
          if i < length (inside h) then
            (case inside h ! i of
               (p, []) \<Rightarrow> None
             | (p, a # as) \<Rightarrow>
                 if a \<noteq> Hand_over then Some (do_access a (h\<lparr>inside := (inside h)[i := (p, as)]\<rparr>))
                 else if j < length jobs
                 then Some (do_access a (h\<lparr>inside := (inside h)[i := (p, as)] @ [(False, jobs ! j)]\<rparr>))
                 else None)
          else None)"

fun race_run ::
  "nat \<Rightarrow> bool \<Rightarrow> bool \<Rightarrow> process_result \<Rightarrow> access list list \<Rightarrow> choice list \<Rightarrow> shared_handler \<Rightarrow> shared_handler option" where
  "race_run n fails streaming r jobs [] h = Some h"
| "race_run n fails streaming r jobs (c # cs) h =
     (case race_next n fails streaming r jobs c h of None \<Rightarrow> None | Some h' \<Rightarrow> race_run n fails streaming r jobs cs h')"

text \<open>An event that will reach a deleted handler, or a thread that is still inside one.\<close>

definition use_after_free :: "shared_handler \<Rightarrow> bool" where
  "use_after_free h \<longleftrightarrow> freed h \<and> (0 < events h \<or> list_ex (\<lambda>(p, as). as \<noteq> []) (inside h))"

lemmas race_eval = race_next_def shared_new_def polling_def event_accesses_def process_accesses_def
  unknown_error_accesses_def do_read_accesses_def stream_jobs_def failing_jobs_def use_after_free_def

subsection \<open>Races\<close>


text \<open>
  \<^verbatim>\<open>do_read\<close> starts the read before it sets the state. When the first message of a stream arrives in
  between and another polling thread takes its event, that thread finds the state CREATED: it creates a
  second new handler and starts another read into the same request. The message is never processed.
\<close>

lemma first_message_lost:
  "\<exists>cs h. race_run (m + 2) False True Submit stream_jobs cs shared_new = Some h \<and>
    instances h = 2 \<and> started_ops h = 2 \<and> events h = 1 \<and> handed h = 0 \<and> list_all (\<lambda>(p, as). as = []) (inside h)"
proof -
  let ?cs = "[Deliver True False, Go 0 0, Go 0 0, Deliver True False, Go 1 0, Go 1 0, Go 0 0, Go 1 0]"
  show ?thesis by (rule exI [of _ ?cs]) (simp add: race_eval)
qed

text \<open>A task of a deletion or of \<^verbatim>\<open>add_index\<close> that fails logs through a handler that may be gone.\<close>

lemma failing_job_race:
  "\<exists>cs h. race_run (m + 1) False False Submit failing_jobs cs shared_new = Some h \<and> use_after_free h"
proof -
  let ?cs = "[Deliver True False, Go 0 0, Go 0 1, Go 1 0, Go 1 0, Deliver True False, Go 2 0]"
  show ?thesis by (rule exI [of _ ?cs]) (simp add: race_eval)
qed

subsection \<open>Where there is no race\<close>

text \<open>
  Of the accesses that a thread still has to make, one keeps the handler alive: it ends with an operation
  whose event comes later, with a task, or with the deletion. Only the write of the state after
  \<^verbatim>\<open>handle_unknown_error\<close> comes when this has been passed on.
\<close>

definition bodies :: "access list set" where
  "bodies = {[Set_state PROCESSED, Start_op], [Start_op], [Hand_over], [Free],
     [Make_instance, Set_state PROCESSED, Start_op], [Make_instance, Hand_over],
     [Set_state PROCESSED, Start_op, Set_state PROCESSED], [Start_op, Set_state PROCESSED]}"

definition late_bodies :: "access list set" where
  "late_bodies = {[Set_state PROCESSED, Start_op, Set_state PROCESSED], [Start_op, Set_state PROCESSED], [Set_state PROCESSED]}"

definition tokens :: "(bool \<times> access list) list \<Rightarrow> nat" where
  "tokens ts = length (filter (\<lambda>(p, as). as \<in> bodies) ts)"

definition thread_ok :: "nat \<Rightarrow> bool \<Rightarrow> bool \<times> access list \<Rightarrow> bool" where
  "thread_ok n gone t \<longleftrightarrow>
     snd t \<in> bodies \<union> {[], [Set_state PROCESSED]} \<and> (snd t \<in> late_bodies \<longrightarrow> fst t \<and> n = 1) \<and>
     (snd t = [Free] \<longrightarrow> fst t) \<and> (snd t = [Set_state PROCESSED] \<longrightarrow> \<not> gone)"

definition busy :: "(bool \<times> access list) list \<Rightarrow> nat" where
  "busy ts = length (filter (\<lambda>(p, as). p \<and> as \<noteq> []) ts)"

definition race_inv :: "nat \<Rightarrow> shared_handler \<Rightarrow> bool" where
  "race_inv n h \<longleftrightarrow>
     events h + tokens (inside h) + (if freed h then 1 else 0) = 1 \<and>
     list_all (thread_ok n (freed h)) (inside h) \<and> busy (inside h) \<le> n \<and> (sh_state h = CREATED \<or> sh_state h = PROCESSED)"

lemma polling_busy: "polling h = busy (inside h)"
  by (simp add: polling_def busy_def)

lemma busy_append [simp]: "busy (ts @ us) = busy ts + busy us"
  by (simp add: busy_def)

lemma busy_Cons [simp]: "busy ((p, as) # ts) = (if p \<and> as \<noteq> [] then Suc (busy ts) else busy ts)"
  by (simp add: busy_def)

lemma busy_Nil [simp]: "busy [] = 0"
  by (simp add: busy_def)

lemma busy_member: "(True, a # as) \<in> set ts \<Longrightarrow> 0 < busy ts"
  by (force simp: busy_def filter_empty_conv)

lemma tokens_append [simp]: "tokens (ts @ us) = tokens ts + tokens us"
  by (simp add: tokens_def)

lemma tokens_Cons [simp]: "tokens ((p, as) # ts) = (if as \<in> bodies then Suc (tokens ts) else tokens ts)"
  by (simp add: tokens_def)

lemma tokens_Nil [simp]: "tokens [] = 0"
  by (simp add: tokens_def)

lemma tokens_member: "(p, as) \<in> set ts \<Longrightarrow> as \<in> bodies \<Longrightarrow> 0 < tokens ts"
  by (force simp: tokens_def filter_empty_conv)

lemma event_body:
  assumes "case r of Finish_now sts \<Rightarrow> length sts = 1 | Submit \<Rightarrow> True" "st = CREATED \<or> st = PROCESSED"
  shows "event_accesses False r ok shutdown st \<in> bodies \<and>
    (event_accesses False r ok shutdown st \<in> late_bodies \<longrightarrow> \<not> ok)"
  using assms by (auto simp: event_accesses_def process_accesses_def unknown_error_accesses_def bodies_def late_bodies_def
      length_Suc_conv split: process_result.splits)

lemma split_inside:
  assumes "i < length ts" "ts ! i = x"
  obtains us vs where "ts = us @ x # vs" "ts[i := y] = us @ y # vs"
  using that [of "take i ts" "drop (Suc i) ts"] id_take_nth_drop [OF assms(1)] upd_conv_take_nth_drop [OF assms(1)] assms(2)
  by metis

text \<open>The deletion is made by a polling thread, and then no write of the state is outstanding.\<close>

lemma free_ok:
  assumes "list_all (thread_ok n gone) ts" "busy (ts @ us) < n \<or> n \<noteq> 1"
  shows "list_all (thread_ok n True) ts"
proof -
  have "snd t \<noteq> [Set_state PROCESSED]" if t: "t \<in> set ts" for t
  proof
    assume s: "snd t = [Set_state PROCESSED]"
    then have "fst t" "n = 1" using assms(1) t by (auto simp: list_all_iff thread_ok_def late_bodies_def)
    then have "0 < busy ts" using s t busy_member [of "Set_state PROCESSED" "[]" ts] by (metis prod.collapse)
    then show False using assms(2) \<open>n = 1\<close> by simp
  qed
  then show ?thesis using assms(1) by (simp add: list_all_iff thread_ok_def)
qed

lemma deliver_inv:
  assumes "race_inv n h" "case r of Finish_now sts \<Rightarrow> length sts = 1 | Submit \<Rightarrow> True" "n \<le> 1 \<or> \<not> fails"
    and "race_next n fails False r unary_jobs (Deliver ok shutdown) h = Some h'"
  shows "race_inv n h'"
proof -
  let ?b = "event_accesses False r ok shutdown (sh_state h)"
  have c: "0 < events h" "busy (inside h) < n" "ok \<or> fails"
    and h': "h' = h\<lparr>events := events h - 1, inside := inside h @ [(True, ?b)]\<rparr>"
    using assms(4) by (auto simp: race_next_def polling_busy split: if_splits)
  have b: "?b \<in> bodies" "?b \<in> late_bodies \<longrightarrow> \<not> ok"
    using event_body [OF assms(2)] assms(1) by (auto simp: race_inv_def)
  have "\<not> freed h" using assms(1) c(1) by (auto simp: race_inv_def split: if_splits)
  moreover have "?b \<in> late_bodies \<longrightarrow> n = 1" using b(2) c assms(3) by auto
  ultimately show ?thesis using assms(1) b(1) c(1,2) by (auto simp: race_inv_def h' thread_ok_def)
qed

lemma thread_bodies:
  assumes "thread_ok n gone (p, a # as)"
  obtains (start) "a = Start_op" "as = []"
    | (set_start) "a = Set_state PROCESSED" "as = [Start_op]"
    | (hand) "a = Hand_over" "as = []"
    | (free) "a = Free" "as = []" "p"
    | (make) "a = Make_instance" "as = [Set_state PROCESSED, Start_op] \<or> as = [Hand_over]"
    | (late) "a = Set_state PROCESSED" "as = [Start_op, Set_state PROCESSED]" "p" "n = 1"
    | (late_start) "a = Start_op" "as = [Set_state PROCESSED]" "p" "n = 1"
    | (late_set) "a = Set_state PROCESSED" "as = []"
proof -
  have l: "a # as \<in> late_bodies \<Longrightarrow> p \<and> n = 1" and f: "a # as = [Free] \<Longrightarrow> p"
    and d: "a # as \<in> bodies \<or> a # as = [Set_state PROCESSED]" using assms by (auto simp: thread_ok_def)
  from d consider "a # as = [Set_state PROCESSED, Start_op]" | "a # as = [Start_op]" | "a # as = [Hand_over]" | "a # as = [Free]"
    | "a # as = [Make_instance, Set_state PROCESSED, Start_op]" | "a # as = [Make_instance, Hand_over]"
    | "a # as = [Set_state PROCESSED, Start_op, Set_state PROCESSED]" | "a # as = [Start_op, Set_state PROCESSED]"
    | "a # as = [Set_state PROCESSED]"
    unfolding bodies_def by blast
  then show thesis
    by cases (use that l f in \<open>simp_all add: late_bodies_def\<close>)
qed

lemma thread_ok_bodies [simp]:
  "thread_ok n g (p, [])" "thread_ok n g (p, [Start_op])" "thread_ok n g (p, [Set_state PROCESSED, Start_op])"
  "thread_ok n g (p, [Hand_over])" "thread_ok n g (p, [Set_state PROCESSED]) \<longleftrightarrow> p \<and> n = 1 \<and> \<not> g"
  "thread_ok n g (p, [Start_op, Set_state PROCESSED]) \<longleftrightarrow> p \<and> n = 1"
  by (auto simp: thread_ok_def bodies_def late_bodies_def)

lemma in_bodies [simp]:
  "[] \<notin> bodies" "[Start_op] \<in> bodies" "[Set_state PROCESSED, Start_op] \<in> bodies" "[Hand_over] \<in> bodies" "[Free] \<in> bodies"
  "[Set_state PROCESSED] \<notin> bodies" "[Start_op, Set_state PROCESSED] \<in> bodies"
  "[Set_state PROCESSED, Start_op, Set_state PROCESSED] \<in> bodies"
  "[Make_instance, Set_state PROCESSED, Start_op] \<in> bodies" "[Make_instance, Hand_over] \<in> bodies"
  by (simp_all add: bodies_def)

lemma go_inv:
  assumes "race_inv n h" "race_next n fails False r unary_jobs (Go i j) h = Some h'"
  shows "race_inv n h'"
proof -
  obtain p a as where i: "i < length (inside h)" "inside h ! i = (p, a # as)"
    using assms(2) by (cases "inside h ! i"; cases "snd (inside h ! i)") (auto simp: race_next_def split: if_splits)
  obtain us vs where uv: "inside h = us @ (p, a # as) # vs" "(inside h)[i := (p, as)] = us @ (p, as) # vs"
    using split_inside [OF i] by blast
  have ok: "list_all (thread_ok n (freed h)) us" "list_all (thread_ok n (freed h)) vs" "thread_ok n (freed h) (p, a # as)"
    using assms(1) by (simp_all add: race_inv_def uv)
  have h': "h' = do_access a (h\<lparr>inside := us @ (p, as) # vs @ (if a = Hand_over then [(False, [Set_state PROCESSED, Start_op])] else [])\<rparr>)"
    using assms(2) i uv(2) by (auto simp: race_next_def unary_jobs_def split: if_splits)
  from ok(3) show ?thesis
  proof (cases rule: thread_bodies)
    case free
    have "busy (us @ vs) < n \<or> n \<noteq> 1" using assms(1) free by (auto simp: race_inv_def uv)
    then have "list_all (thread_ok n True) us" "list_all (thread_ok n True) vs"
      using free_ok [OF ok(1), of vs] free_ok [OF ok(2), of us] by (simp_all add: add.commute)
    then show ?thesis using assms(1) free by (auto simp: race_inv_def uv h' split: if_splits)
  next
    case make
    then show ?thesis using assms(1) ok by (auto simp: race_inv_def uv h' split: if_splits)
  next
    case late_start
    then show ?thesis using assms(1) ok by (auto simp: race_inv_def uv h' split: if_splits)
  next
    case hand
    then show ?thesis using assms(1) ok by (auto simp: race_inv_def uv h' split: if_splits)
  qed (use assms(1) ok in \<open>auto simp: race_inv_def uv h' split: if_splits\<close>)
qed

lemma race_run_inv:
  assumes "case r of Finish_now sts \<Rightarrow> length sts = 1 | Submit \<Rightarrow> True" "n \<le> 1 \<or> \<not> fails"
  shows "race_run n fails False r unary_jobs cs h = Some h' \<Longrightarrow> race_inv n h \<Longrightarrow> race_inv n h'"
proof (induction cs arbitrary: h)
  case (Cons c cs)
  obtain h1 where h1: "race_next n fails False r unary_jobs c h = Some h1" "race_run n fails False r unary_jobs cs h1 = Some h'"
    using Cons.prems(1) by (auto split: option.splits)
  have "race_inv n h1"
    using h1(1) Cons.prems(2) deliver_inv [OF _ assms] go_inv by (cases c) blast+
  then show ?case using Cons.IH h1(2) by blast
qed simp

text \<open>
  C26. A unary call is free of such races, except for a deletion without ids: however its polling threads
  and its task interleave, its handler is never used after it is deleted, as long as there is one polling
  thread only or no event fails before the call is finished. (The tasks are those that finish the call last;
  a deletion or an \<^verbatim>\<open>add_index\<close> that catches an exception logs after that, see \<open>failing_job_race\<close>.)
\<close>

theorem unary_handler_race_free:
  assumes "\<not> (\<exists>n. n \<noteq> [] \<and> req = Del_vector_request n [])" "n \<le> 1 \<or> \<not> fails"
    and "race_run n fails False (process req) unary_jobs cs shared_new = Some h"
  shows "\<not> use_after_free h"
proof -
  have "finishes_once req" using assms(1) by (simp add: finishes_once_iff)
  then have "race_inv n h"
    using race_run_inv [OF _ assms(2,3)] by (simp add: finishes_once_def race_inv_def shared_new_def)
  moreover have "t \<notin> set (inside h)" if "freed h" "snd t \<noteq> []" for t
  proof
    assume t: "t \<in> set (inside h)"
    then have "thread_ok n True t" using calculation that(1) by (auto simp: race_inv_def list_all_iff)
    then have "snd t \<in> bodies" using that(2) by (auto simp: thread_ok_def)
    then have "0 < tokens (inside h)" using t tokens_member [of "fst t" "snd t"] by simp
    then show False using calculation that(1) by (simp add: race_inv_def)
  qed
  ultimately show ?thesis by (fastforce simp: use_after_free_def race_inv_def list_ex_iff)
qed

theorem unary_handler_race_free_witness:
  "\<exists>h. race_run 4 False False (process (Delete_collection_request ''c'')) unary_jobs
      [Deliver True False, Go 0 0, Go 0 0, Go 1 0, Go 1 0, Deliver True False, Go 2 0] shared_new = Some h \<and>
    freed h \<and> \<not> use_after_free h"
proof -
  let ?cs = "[Deliver True False, Go 0 0, Go 0 0, Go 1 0, Go 1 0, Deliver True False, Go 2 0]"
  have "\<exists>h. race_run 4 False False (process (Delete_collection_request ''c'')) unary_jobs ?cs shared_new = Some h \<and> freed h"
    by (simp add: race_eval delete_collection_process_def unary_jobs_def)
  then show ?thesis using unary_handler_race_free [of "Delete_collection_request ''c''" 4 False ?cs] by auto
qed

end
