(* ===== verification/Worker_Pool.thy ===== *)
theory Worker_Pool
  imports Prelude
begin

text \<open>
  \<^verbatim>\<open>include/grpc_server/worker_pool.h\<close>: threads that run tasks from one queue. Everything a thread
  does while it holds \<^verbatim>\<open>mutex_\<close> is one step; the steps of the threads and of the callers interleave in
  any order. The lists \<open>accepted\<close> and \<open>started\<close> are not in the code: they record the tasks that \<^verbatim>\<open>submit\<close>
  took and those that a thread took from the queue.
\<close>

datatype 'a thread = Idle | Running 'a | Exited

record 'a pool =
  tasks :: "'a list"
  stopped :: bool
  threads :: "'a thread list"
  accepted :: "'a list"
  started :: "'a list"

definition max_queue_size :: nat where
  "max_queue_size = 10000"

definition pool_new :: "nat \<Rightarrow> 'a pool" where
  "pool_new num_threads =
     \<lparr>tasks = [], stopped = False, threads = replicate num_threads Idle, accepted = [], started = []\<rparr>"

definition pool_submit :: "'a \<Rightarrow> 'a pool \<Rightarrow> 'a pool outcome" where
  "pool_submit task p =
     (if max_queue_size \<le> length (tasks p) then Throws (Runtime_error ''Task queue full'')
      else Returns (p\<lparr>tasks := tasks p @ [task], accepted := accepted p @ [task]\<rparr>))"

text \<open>
  A thread at the head of its loop: it returns when the pool is stopped, takes the first task when there
  is one, and waits (\<open>None\<close>) otherwise.
\<close>

definition worker_wake :: "nat \<Rightarrow> 'a pool \<Rightarrow> 'a pool option" where
  "worker_wake i p =
     (if i < length (threads p) \<and> (case threads p ! i of Idle \<Rightarrow> True | _ \<Rightarrow> False) then
        (if stopped p then Some (p\<lparr>threads := (threads p)[i := Exited]\<rparr>)
         else
           (case tasks p of
              [] \<Rightarrow> None
            | t # ts \<Rightarrow> Some (p\<lparr>tasks := ts, threads := (threads p)[i := Running t], started := started p @ [t]\<rparr>)))
      else None)"

text \<open>The task returns or throws; an exception is logged. Either way the loop goes on.\<close>

definition worker_finish :: "nat \<Rightarrow> 'a pool \<Rightarrow> 'a pool option" where
  "worker_finish i p =
     (if i < length (threads p) \<and> (case threads p ! i of Running _ \<Rightarrow> True | _ \<Rightarrow> False)
      then Some (p\<lparr>threads := (threads p)[i := Idle]\<rparr>) else None)"

text \<open>The first part of \<^verbatim>\<open>shutdown\<close>; it then waits until every thread has exited.\<close>

definition pool_stop :: "'a pool \<Rightarrow> 'a pool" where
  "pool_stop p = (if stopped p then p else p\<lparr>stopped := True\<rparr>)"

definition joined :: "'a pool \<Rightarrow> bool" where
  "joined p \<longleftrightarrow> list_all (\<lambda>t. case t of Exited \<Rightarrow> True | _ \<Rightarrow> False) (threads p)"

inductive worker_step :: "'a pool \<Rightarrow> 'a pool \<Rightarrow> bool" where
  wake: "worker_wake i p = Some q \<Longrightarrow> worker_step p q"
| finish: "worker_finish i p = Some q \<Longrightarrow> worker_step p q"

inductive pool_step :: "'a pool \<Rightarrow> 'a pool \<Rightarrow> bool" where
  worker: "worker_step p q \<Longrightarrow> pool_step p q"
| submit: "pool_submit t p = Returns q \<Longrightarrow> pool_step p q"
| stop: "pool_step p (pool_stop p)"

inductive_cases worker_stepE: "worker_step p q"
inductive_cases pool_stepE: "pool_step p q"

subsection \<open>Steps\<close>

lemma worker_wakeE:
  assumes "worker_wake i p = Some q"
  obtains (exit) "i < length (threads p)" "threads p ! i = Idle" "stopped p" "q = p\<lparr>threads := (threads p)[i := Exited]\<rparr>"
  | (take) t ts where "i < length (threads p)" "threads p ! i = Idle" "\<not> stopped p" "tasks p = t # ts"
      "q = p\<lparr>tasks := ts, threads := (threads p)[i := Running t], started := started p @ [t]\<rparr>"
  using assms by (auto simp: worker_wake_def split: if_splits thread.splits list.splits)

lemma worker_finishE:
  assumes "worker_finish i p = Some q"
  obtains t where "i < length (threads p)" "threads p ! i = Running t" "q = p\<lparr>threads := (threads p)[i := Idle]\<rparr>"
  using assms by (auto simp: worker_finish_def split: if_splits thread.splits)

text \<open>What every step keeps: no task is lost, taken twice or out of order, and the queue is bounded.\<close>

definition pool_inv :: "'a pool \<Rightarrow> bool" where
  "pool_inv p \<longleftrightarrow> accepted p = started p @ tasks p \<and> length (tasks p) \<le> max_queue_size"

lemma worker_step_inv: "worker_step p q \<Longrightarrow> pool_inv p \<Longrightarrow> pool_inv q"
  by (erule worker_stepE) (auto elim!: worker_wakeE worker_finishE simp: pool_inv_def)

lemma pool_step_inv: "pool_step p q \<Longrightarrow> pool_inv p \<Longrightarrow> pool_inv q"
proof (erule pool_stepE)
  show "pool_inv p \<Longrightarrow> pool_submit t p = Returns q \<Longrightarrow> pool_inv q" for t
    by (auto simp: pool_inv_def pool_submit_def split: if_splits)
  show "pool_inv p \<Longrightarrow> worker_step p q \<Longrightarrow> pool_inv q" by (rule worker_step_inv)
qed (auto simp: pool_inv_def pool_stop_def)

lemma pool_steps_inv: "pool_step\<^sup>*\<^sup>* p q \<Longrightarrow> pool_inv p \<Longrightarrow> pool_inv q"
  by (induction rule: rtranclp_induct) (auto intro: pool_step_inv)

lemma stopped_step:
  "pool_step p q \<Longrightarrow> stopped p \<Longrightarrow> stopped q \<and> started q = started p \<and> (\<exists>ts. tasks q = tasks p @ ts)"
  by (erule pool_stepE)
    (auto elim!: worker_stepE worker_wakeE worker_finishE simp: pool_submit_def pool_stop_def split: if_splits)

text \<open>Once the pool is stopped, a thread has at most two steps left.\<close>

fun steps_left :: "'a thread \<Rightarrow> nat" where
  "steps_left (Running t) = 2"
| "steps_left Idle = 1"
| "steps_left Exited = 0"

definition pool_weight :: "'a pool \<Rightarrow> nat" where
  "pool_weight p = (\<Sum>t\<leftarrow>threads p. steps_left t)"

lemma weight_update:
  "i < length ts \<Longrightarrow> (\<Sum>t\<leftarrow>ts[i := x]. steps_left t) + steps_left (ts ! i) = (\<Sum>t\<leftarrow>ts. steps_left t) + steps_left x"
proof (induction ts arbitrary: i)
  case (Cons t ts)
  then show ?case by (cases i) auto
qed simp

lemma worker_step_weight:
  "worker_step p q \<Longrightarrow> stopped p \<Longrightarrow> pool_weight q < pool_weight p \<and> stopped q"
proof (erule worker_stepE)
  fix i assume "stopped p" "worker_wake i p = Some q"
  then show ?thesis
    by (auto elim!: worker_wakeE simp: pool_weight_def) (use weight_update [of i "threads p" Exited] in simp)
next
  fix i assume "stopped p" "worker_finish i p = Some q"
  then show ?thesis
    by (auto elim!: worker_finishE simp: pool_weight_def) (use weight_update [of i "threads p" Idle] in simp)
qed

lemma joined_iff: "joined p \<longleftrightarrow> (\<forall>i < length (threads p). threads p ! i = Exited)"
proof -
  have "(case t of Exited \<Rightarrow> True | _ \<Rightarrow> False) \<longleftrightarrow> t = Exited" for t :: "'a thread" by (cases t) auto
  then show ?thesis by (simp add: joined_def list_all_length)
qed

lemma stopped_progress:
  assumes "stopped p" "\<not> joined p"
  shows "\<exists>q. worker_step p q"
proof -
  obtain i where i: "i < length (threads p)" "threads p ! i \<noteq> Exited"
    using assms(2) by (auto simp: joined_iff)
  then show ?thesis
  proof (cases "threads p ! i")
    case Idle
    then show ?thesis using i assms(1) by (intro exI worker_step.wake [of i]) (simp add: worker_wake_def)
  next
    case (Running t)
    then show ?thesis using i by (intro exI worker_step.finish [of i]) (simp add: worker_finish_def)
  qed simp
qed

lemma stopped_joins:
  "stopped p \<Longrightarrow> \<exists>q. worker_step\<^sup>*\<^sup>* p q \<and> joined q \<and> started q = started p \<and> tasks q = tasks p"
proof (induction "pool_weight p" arbitrary: p rule: less_induct)
  case less
  show ?case
  proof (cases "joined p")
    case False
    then obtain q where q: "worker_step p q" using stopped_progress less.prems by blast
    then have w: "pool_weight q < pool_weight p" "stopped q" using worker_step_weight less.prems by blast+
    have "started q = started p \<and> tasks q = tasks p"
      using q less.prems by (auto elim!: worker_stepE worker_wakeE worker_finishE)
    then show ?thesis using less.hyps [OF w] q by (metis converse_rtranclp_into_rtranclp)
  qed blast
qed

subsection \<open>Properties\<close>

text \<open>
  C32. In every state the pool can reach, the accepted tasks are those that were started followed by
  those in the queue: no task is lost, started twice or overtaken, and the queue stays within its bound.
\<close>

theorem pool_fifo:
  assumes "pool_step\<^sup>*\<^sup>* (pool_new n) p"
  shows "accepted p = started p @ tasks p \<and> length (tasks p) \<le> 10000"
  using pool_steps_inv [OF assms] by (simp add: pool_inv_def pool_new_def max_queue_size_def)

theorem pool_fifo_witness:
  "\<exists>p. pool_step\<^sup>*\<^sup>* (pool_new 1) p \<and> accepted p = started p @ tasks p \<and> length (tasks p) \<le> 10000 \<and> accepted p = [True]"
proof -
  let ?p = "\<lparr>tasks = [True], stopped = False, threads = [Idle], accepted = [True], started = []\<rparr>"
  have "pool_step (pool_new 1) ?p"
    by (rule pool_step.submit [of True]) (simp add: pool_submit_def pool_new_def max_queue_size_def)
  then have "pool_step\<^sup>*\<^sup>* (pool_new 1) ?p" by (rule r_into_rtranclp)
  from pool_fifo [OF this] this show ?thesis by (intro exI [of _ ?p]) simp
qed

text \<open>
  After \<^verbatim>\<open>shutdown\<close> has set its flag no task is started any more: what is in the queue then, and
  what \<^verbatim>\<open>submit\<close> still accepts later, never runs.
\<close>

lemma pool_stopped_starts_nothing:
  assumes "stopped p" "pool_step\<^sup>*\<^sup>* p q"
  shows "started q = started p \<and> (\<exists>ts. tasks q = tasks p @ ts)"
proof -
  have "stopped q \<and> started q = started p \<and> (\<exists>ts. tasks q = tasks p @ ts)"
    using assms(2) by (induction rule: rtranclp_induct) (use assms(1) stopped_step in \<open>auto, metis append.assoc\<close>)
  then show ?thesis by blast
qed

lemma pool_stopped_starts_nothing_instance:
  "\<exists>q. pool_step\<^sup>*\<^sup>* (pool_stop (pool_new 1)) q \<and> started q = started (pool_stop (pool_new 1)) \<and>
    (\<exists>ts. tasks q = tasks (pool_stop (pool_new 1)) @ ts) \<and> tasks q = [True]"
proof -
  let ?q = "\<lparr>tasks = [True], stopped = True, threads = [Idle], accepted = [True], started = []\<rparr>"
  have "pool_step (pool_stop (pool_new 1)) ?q"
    by (rule pool_step.submit [of True]) (simp add: pool_submit_def pool_stop_def pool_new_def max_queue_size_def)
  then have s: "pool_step\<^sup>*\<^sup>* (pool_stop (pool_new 1)) ?q" by (rule r_into_rtranclp)
  have "stopped (pool_stop (pool_new 1))" by (simp add: pool_stop_def)
  from pool_stopped_starts_nothing [OF this s] s show ?thesis by (intro exI [of _ ?q]) simp
qed

text \<open>
  \<^verbatim>\<open>shutdown\<close> terminates when the running tasks do: in a stopped pool the threads can take finitely
  many steps only, as long as one has not exited some thread can take a step, and so all get joined.
\<close>

lemma pool_shutdown_joins:
  assumes "stopped p"
  shows "wfP (\<lambda>q' q. stopped q \<and> worker_step q q') \<and> (\<exists>q. worker_step\<^sup>*\<^sup>* p q \<and> joined q) \<and>
    (\<forall>q. worker_step\<^sup>*\<^sup>* p q \<and> \<not> joined q \<longrightarrow> (\<exists>q'. worker_step q q'))"
proof -
  have "wfP (\<lambda>q' q. stopped q \<and> worker_step q q')"
    by (rule wfp_if_convertible_to_nat [where f = pool_weight]) (use worker_step_weight in blast)
  moreover have "stopped q" if "worker_step\<^sup>*\<^sup>* p q" for q
    using that by (induction rule: rtranclp_induct) (use assms worker_step_weight in blast)+
  ultimately show ?thesis using stopped_joins [OF assms] stopped_progress by blast
qed

lemma pool_shutdown_joins_instance:
  "wfP (\<lambda>q' q :: bool pool. stopped q \<and> worker_step q q') \<and>
    (\<exists>q. worker_step\<^sup>*\<^sup>* (pool_stop (pool_new 2) :: bool pool) q \<and> joined q) \<and>
    (\<exists>q'. worker_step (pool_stop (pool_new 2) :: bool pool) q')"
proof -
  have "stopped (pool_stop (pool_new 2) :: bool pool)" "\<not> joined (pool_stop (pool_new 2) :: bool pool)"
    by (simp_all add: pool_stop_def pool_new_def joined_def numeral_2_eq_2)
  then show ?thesis using pool_shutdown_joins [of "pool_stop (pool_new 2) :: bool pool"] by blast
qed

end
