(* ===== verification/Config.thy ===== *)
theory Config
  imports Prelude
begin

text \<open>
  \<^verbatim>\<open>include/configuration/provider.h\<close> and \<^verbatim>\<open>impl/configuration/provider.cpp\<close>: settings from a TOML file.
  The TOML library is not part of the repository; what the code uses of it are arguments here:

  \<^item> \<open>parse\<close> reads the file of a path and gives its root value or an error with its text;
  \<^item> \<open>table\<close> gives the entries of a value that is a table, \<open>array\<close> the elements of one that is an array;
  \<^item> \<open>conv\<close> is \<^verbatim>\<open>toml::get<T>\<close>, which gives \<open>None\<close> where the library throws.

  No hypothesis about them is needed.
\<close>

datatype parse_error = Syntax_error string | Other_error string

record 'v config =
  data :: 'v
  config_path :: string
  loaded :: bool

definition config_new :: "'v \<Rightarrow> 'v config" where
  "config_new empty_value = \<lparr>data = empty_value, config_path = [], loaded = False\<rparr>"

text \<open>The state after the call, and the exception if there is one.\<close>

definition config_load ::
  "(string \<Rightarrow> bool) \<Rightarrow> (string \<Rightarrow> parse_error + 'v) \<Rightarrow> string \<Rightarrow> 'v config \<Rightarrow> 'v config \<times> unit outcome" where
  "config_load file_exists parse path c =
     (if \<not> file_exists path then (c, Throws (Runtime_error (''Configuration file not found: '' @ path)))
      else
        (case parse path of
           Inr v \<Rightarrow> (c\<lparr>data := v, config_path := path, loaded := True\<rparr>, Returns ())
         | Inl (Syntax_error e) \<Rightarrow> (c, Throws (Runtime_error (''Failed to parse TOML file: '' @ e)))
         | Inl (Other_error e) \<Rightarrow> (c, Throws (Runtime_error (''Failed to load configuration: '' @ e)))))"

text \<open>One step down the hierarchy, and the loop over all keys but the last.\<close>

definition lookup_key :: "('v \<Rightarrow> (string \<times> 'v) list option) \<Rightarrow> 'v \<Rightarrow> string \<Rightarrow> 'v option" where
  "lookup_key table v k = (case table v of None \<Rightarrow> None | Some t \<Rightarrow> map_of t k)"

fun navigate :: "('v \<Rightarrow> (string \<times> 'v) list option) \<Rightarrow> string list \<Rightarrow> 'v \<Rightarrow> 'v option" where
  "navigate table [] v = Some v"
| "navigate table (k # ks) v =
     (case lookup_key table v k of None \<Rightarrow> None | Some w \<Rightarrow> navigate table ks w)"

definition final_value :: "('v \<Rightarrow> (string \<times> 'v) list option) \<Rightarrow> string list \<Rightarrow> 'v \<Rightarrow> 'v option" where
  "final_value table keys v =
     (case navigate table (butlast keys) v of None \<Rightarrow> None | Some w \<Rightarrow> lookup_key table w (last keys))"

definition get_value ::
  "('v \<Rightarrow> (string \<times> 'v) list option) \<Rightarrow> ('v \<Rightarrow> 'a option) \<Rightarrow> string list \<Rightarrow> 'v config \<Rightarrow> 'a option" where
  "get_value table conv keys c =
     (if \<not> loaded c \<or> keys = [] then None
      else (case final_value table keys (data c) of None \<Rightarrow> None | Some w \<Rightarrow> conv w))"

text \<open>The first element that does not convert makes the whole result empty.\<close>

fun convert_all :: "('v \<Rightarrow> 'a option) \<Rightarrow> 'v list \<Rightarrow> 'a list option" where
  "convert_all conv [] = Some []"
| "convert_all conv (v # vs) =
     (case conv v of None \<Rightarrow> None
      | Some x \<Rightarrow> (case convert_all conv vs of None \<Rightarrow> None | Some xs \<Rightarrow> Some (x # xs)))"

definition get_array ::
  "('v \<Rightarrow> (string \<times> 'v) list option) \<Rightarrow> ('v \<Rightarrow> 'v list option) \<Rightarrow> ('v \<Rightarrow> 'a option) \<Rightarrow> string list \<Rightarrow>
   'v config \<Rightarrow> 'a list option" where
  "get_array table array conv keys c =
     (if \<not> loaded c \<or> keys = [] then None
      else
        (case final_value table keys (data c) of
           None \<Rightarrow> None
         | Some w \<Rightarrow> (case array w of None \<Rightarrow> None | Some vs \<Rightarrow> convert_all conv vs)))"

definition has_key :: "('v \<Rightarrow> (string \<times> 'v) list option) \<Rightarrow> string list \<Rightarrow> 'v config \<Rightarrow> bool" where
  "has_key table keys c =
     (if \<not> loaded c \<or> keys = [] then False else navigate table keys (data c) \<noteq> None)"

subsection \<open>Properties\<close>

lemma navigate_append:
  "navigate table (ks @ ls) v = (case navigate table ks v of None \<Rightarrow> None | Some w \<Rightarrow> navigate table ls w)"
  by (induction ks arbitrary: v) (auto split: option.splits)

lemma final_value_navigate: "keys \<noteq> [] \<Longrightarrow> final_value table keys v = navigate table keys v"
  using navigate_append [of table "butlast keys" "[last keys]" v]
  by (simp add: final_value_def split: option.splits)

lemma convert_all_Some:
  "convert_all conv vs = Some xs \<longleftrightarrow> list_all2 (\<lambda>v x. conv v = Some x) vs xs"
proof (induction vs arbitrary: xs)
  case (Cons v vs)
  show ?case
    by (cases xs) (auto simp flip: Cons.IH split: option.splits)
qed auto

text \<open>
  C40. The three getters agree on what a key path leads to: a value is returned exactly when the path
  exists and its value converts, an array exactly when it exists, is an array and all its elements
  convert, in their order; and a file that fails to load leaves the settings as they were.
\<close>

theorem settings_lookup:
  "(get_value table conv keys c = Some x \<longleftrightarrow>
      has_key table keys c \<and> (\<exists>v. navigate table keys (data c) = Some v \<and> conv v = Some x)) \<and>
   (get_array table array conv keys c = Some xs \<longleftrightarrow>
      has_key table keys c \<and> (\<exists>v vs. navigate table keys (data c) = Some v \<and> array v = Some vs \<and>
        list_all2 (\<lambda>v x. conv v = Some x) vs xs)) \<and>
   (\<forall>c' r. config_load file_exists parse path c = (c', r) \<longrightarrow>
      (if \<exists>v. file_exists path \<and> parse path = Inr v then r = Returns () \<and> loaded c' else c' = c \<and> (\<exists>e. r = Throws e)))"
proof -
  have "get_value table conv keys c = Some x \<longleftrightarrow>
      has_key table keys c \<and> (\<exists>v. navigate table keys (data c) = Some v \<and> conv v = Some x)"
    by (auto simp: get_value_def has_key_def final_value_navigate split: option.splits)
  moreover have "get_array table array conv keys c = Some xs \<longleftrightarrow>
      has_key table keys c \<and> (\<exists>v vs. navigate table keys (data c) = Some v \<and> array v = Some vs \<and>
        list_all2 (\<lambda>v x. conv v = Some x) vs xs)"
    by (auto simp: get_array_def has_key_def final_value_navigate convert_all_Some split: option.splits)
  moreover have "if \<exists>v. file_exists path \<and> parse path = Inr v then r = Returns () \<and> loaded c' else c' = c \<and> (\<exists>e. r = Throws e)"
    if "config_load file_exists parse path c = (c', r)" for c' r
    using that by (auto simp: config_load_def split: if_splits sum.splits parse_error.splits)
  ultimately show ?thesis by blast
qed

text \<open>A library over trees of tables and numbers, to instantiate the arguments with.\<close>

datatype sample_value = Sample_table "(string \<times> sample_value) list" | Sample_int int

definition sample_tab :: "sample_value \<Rightarrow> (string \<times> sample_value) list option" where
  "sample_tab v = (case v of Sample_table t \<Rightarrow> Some t | _ \<Rightarrow> None)"

definition sample_int :: "sample_value \<Rightarrow> int option" where
  "sample_int v = (case v of Sample_int i \<Rightarrow> Some i | _ \<Rightarrow> None)"

theorem settings_lookup_witness:
  "get_value sample_tab sample_int [''server'', ''port'']
     \<lparr>data = Sample_table [(''server'', Sample_table [(''port'', Sample_int 50051)])], config_path = [], loaded = True\<rparr> = Some 50051 \<and>
   get_array sample_tab (\<lambda>_. None) sample_int [''server'', ''port'']
     \<lparr>data = Sample_table [(''server'', Sample_table [(''port'', Sample_int 50051)])], config_path = [], loaded = True\<rparr> \<noteq> Some [1] \<and>
   config_load (\<lambda>_. False) (\<lambda>_. Inl (Other_error [])) ''c'' (config_new (Sample_int 0)) =
     (config_new (Sample_int 0), Throws (Runtime_error ''Configuration file not found: c''))"
proof -
  let ?c = "\<lparr>data = Sample_table [(''server'', Sample_table [(''port'', Sample_int 50051)])], config_path = [], loaded = True\<rparr>"
  have "has_key sample_tab [''server'', ''port''] ?c"
    "navigate sample_tab [''server'', ''port''] (data ?c) = Some (Sample_int 50051)" "sample_int (Sample_int 50051) = Some 50051"
    by (simp_all add: has_key_def lookup_key_def sample_tab_def sample_int_def)
  then have "get_value sample_tab sample_int [''server'', ''port''] ?c = Some 50051"
    and "get_array sample_tab (\<lambda>_. None) sample_int [''server'', ''port''] ?c \<noteq> Some [1]"
    using settings_lookup [of sample_tab sample_int "[''server'', ''port'']" ?c 50051 "\<lambda>_. None" "[1]" "\<lambda>_. False"
        "\<lambda>_. Inl (Other_error [])" "''c''"] by auto
  then show ?thesis by (simp add: config_load_def)
qed

subsection \<open>The getters of \<^verbatim>\<open>config_provider\<close>\<close>

text \<open>
  What the TOML library makes of a value: \<^verbatim>\<open>as_table\<close> and \<^verbatim>\<open>as_array\<close> where \<^verbatim>\<open>is_table\<close> and \<^verbatim>\<open>is_array\<close> hold,
  and \<^verbatim>\<open>toml::get<T>\<close> at the four types the program uses. The variadic overloads of the header only
  collect their arguments into the list of keys.
\<close>

record 'v toml =
  as_table :: "'v \<Rightarrow> (string \<times> 'v) list option"
  as_array :: "'v \<Rightarrow> 'v list option"
  as_string :: "'v \<Rightarrow> string option"
  as_int :: "'v \<Rightarrow> u64 option"
  as_double :: "'v \<Rightarrow> u64 option"
  as_bool :: "'v \<Rightarrow> bool option"

definition get_string :: "'v toml \<Rightarrow> string list \<Rightarrow> 'v config \<Rightarrow> string option" where
  "get_string T keys c = get_value (as_table T) (as_string T) keys c"

definition get_int :: "'v toml \<Rightarrow> string list \<Rightarrow> 'v config \<Rightarrow> u64 option" where
  "get_int T keys c = get_value (as_table T) (as_int T) keys c"

text \<open>A \<^verbatim>\<open>double\<close> is its bit pattern.\<close>

definition get_double :: "'v toml \<Rightarrow> string list \<Rightarrow> 'v config \<Rightarrow> u64 option" where
  "get_double T keys c = get_value (as_table T) (as_double T) keys c"

definition get_bool :: "'v toml \<Rightarrow> string list \<Rightarrow> 'v config \<Rightarrow> bool option" where
  "get_bool T keys c = get_value (as_table T) (as_bool T) keys c"

definition get_string_array :: "'v toml \<Rightarrow> string list \<Rightarrow> 'v config \<Rightarrow> string list option" where
  "get_string_array T keys c = get_array (as_table T) (as_array T) (as_string T) keys c"

definition get_int_array :: "'v toml \<Rightarrow> string list \<Rightarrow> 'v config \<Rightarrow> u64 list option" where
  "get_int_array T keys c = get_array (as_table T) (as_array T) (as_int T) keys c"

lemmas getter_defs = get_string_def get_int_def get_double_def get_bool_def get_string_array_def get_int_array_def

lemma getters_need_key:
  assumes "\<not> has_key (as_table T) keys c"
  shows "get_string T keys c = None" "get_int T keys c = None" "get_double T keys c = None" "get_bool T keys c = None"
    "get_string_array T keys c = None" "get_int_array T keys c = None"
  using assms by (auto simp: getter_defs get_value_def get_array_def has_key_def final_value_navigate split: option.splits)

lemma nothing_before_load:
  "get_string T keys (config_new v) = None" "get_int T keys (config_new v) = None" "get_double T keys (config_new v) = None"
  "get_bool T keys (config_new v) = None"
  by (simp_all add: getter_defs get_value_def config_new_def)

subsection \<open>Opening a provider\<close>

definition config_open :: "(string \<Rightarrow> bool) \<Rightarrow> (string \<Rightarrow> parse_error + 'v) \<Rightarrow> 'v \<Rightarrow> string \<Rightarrow> 'v config outcome" where
  "config_open file_exists parse empty_value path =
     (case config_load file_exists parse path (config_new empty_value) of (c, r) \<Rightarrow> obind r (\<lambda>_. Returns c))"

definition is_loaded :: "'v config \<Rightarrow> bool" where
  "is_loaded c = loaded c"

definition get_config_path :: "'v config \<Rightarrow> string" where
  "get_config_path c = config_path c"

lemma config_open_returns:
  "config_open file_exists parse v path = Returns c \<longleftrightarrow>
     file_exists path \<and> (\<exists>w. parse path = Inr w \<and> c = \<lparr>data = w, config_path = path, loaded = True\<rparr>)"
  by (auto simp: config_open_def config_load_def config_new_def split: sum.splits parse_error.splits)

lemma opened_provider:
  assumes "config_open file_exists parse v path = Returns c"
  shows "is_loaded c" "get_config_path c = path"
  using assms by (auto simp: config_open_returns is_loaded_def get_config_path_def)

end
