(* ===== verification/Server_Life.thy ===== *)
theory Server_Life
  imports Rpc_Flow Worker_Pool Config
begin

text \<open>
  \<^verbatim>\<open>server\<close> of \<^verbatim>\<open>include/grpc_server/server.h\<close> and \<^verbatim>\<open>impl/grpc_server/server.cpp\<close>: the settings it starts
  with, and how calls, the worker threads and \<^verbatim>\<open>shutdown\<close> interleave. A task runs in one step; the
  polling threads are counted, and what one of them does with the event of a new call (\<open>Rpc_Flow\<close> has the
  whole life of a handler) is one step too, possible while \<^verbatim>\<open>running_\<close> is set: afterwards \<^verbatim>\<open>run_flow\<close> only
  deletes handlers. The answers are recorded in \<open>answered\<close>.
\<close>

subsection \<open>Construction\<close>

text \<open>\<^verbatim>\<open>std::to_string\<close> of a number.\<close>

fun digits :: "nat \<Rightarrow> string" where
  "digits n = (if n < 10 then [''0123456789'' ! n] else digits (n div 10) @ [''0123456789'' ! (n mod 10)])"

declare digits.simps [simp del]

definition to_string :: "u64 \<Rightarrow> string" where
  "to_string w = (if sint w < 0 then CHR ''-'' # digits (nat (- sint w)) else digits (unat w))"

record settings =
  num_of_thread :: byte
  address :: string
  db_worker_pool_size :: u64
  log_level :: string
  storage_enabled :: bool

definition value_or :: "'a option \<Rightarrow> 'a \<Rightarrow> 'a" where
  "value_or x d = (case x of None \<Rightarrow> d | Some y \<Rightarrow> y)"

text \<open>\<^verbatim>\<open>num_of_thread_\<close> is a \<^verbatim>\<open>uint8_t\<close>; the numbers of the configuration have 64 bits.\<close>

definition server_settings ::
  "(string list \<Rightarrow> string option) \<Rightarrow> (string list \<Rightarrow> u64 option) \<Rightarrow> (string list \<Rightarrow> bool option) \<Rightarrow> settings" where
  "server_settings gs gi gb =
     \<lparr>num_of_thread = ucast (value_or (gi [''server'', ''threads'']) 4),
      address = value_or (gs [''server'', ''ip'']) ''0.0.0.0'' @ '':'' @
        to_string (value_or (gi [''server'', ''port'']) 50051),
      db_worker_pool_size = value_or (gi [''server'', ''db_worker_pool_size'']) 4,
      log_level = value_or (gs [''server'', ''log_level'']) ''info'',
      storage_enabled = value_or (gb [''storage'', ''enabled'']) True\<rparr>"

subsection \<open>Running and shutting down\<close>

text \<open>
  Where \<^verbatim>\<open>shutdown\<close> is: not called, before the save, before stopping the pool, waiting for its threads, in
  \<^verbatim>\<open>server_->Shutdown()\<close>, before the end of the polling threads, past it.
\<close>

datatype phase = Serving | Saving | Stopping | Joining | Closing | Polling | Closed

record server =
  running :: bool
  phase :: phase
  srv_db :: database
  srv_pool :: "rpc_request pool"
  srv_storage :: "files option"
  answered :: "finish list"
  pollers :: nat

text \<open>\<^verbatim>\<open>server::server\<close>: the status that \<^verbatim>\<open>load\<close> returns is ignored.\<close>

definition server_new ::
  "(string \<Rightarrow> string \<Rightarrow> id_t \<Rightarrow> nat) \<Rightarrow> fs_env \<Rightarrow> settings \<Rightarrow> files option \<Rightarrow> server outcome" where
  "server_new lvs e cfg storage =
     obind (if storage_enabled cfg then load lvs e storage database_new else Returns (database_new, success)) (\<lambda>(db, st).
       Returns \<lparr>running = False, phase = Serving, srv_db = db, srv_pool = pool_new (unat (db_worker_pool_size cfg)),
         srv_storage = storage, answered = [], pollers = 0\<rparr>)"

definition server_start :: "settings \<Rightarrow> server \<Rightarrow> server" where
  "server_start cfg s =
     (if running s then s
      else s\<lparr>running := True, phase := Serving, pollers := pollers s + unat (num_of_thread cfg)\<rparr>)"

definition shutdown_save :: "fs_env \<Rightarrow> settings \<Rightarrow> server \<Rightarrow> server outcome" where
  "shutdown_save e cfg s =
     (if storage_enabled cfg
      then obind (save e (srv_storage s) (srv_db s)) (\<lambda>(storage, st). Returns (s\<lparr>srv_storage := storage, phase := Stopping\<rparr>))
      else Returns (s\<lparr>phase := Stopping\<rparr>))"

text \<open>
  The calls that the pool has accepted and not answered. gRPC is asked with \<open>idle\<close> whether
  \<^verbatim>\<open>server_->Shutdown()\<close> returns while they are open; it documents that this call blocks until all calls
  are finished, which the properties below take as a hypothesis where they need it.
\<close>

definition unanswered :: "'a pool \<Rightarrow> 'a list" where
  "unanswered p = concat (map (\<lambda>t. case t of Running r \<Rightarrow> [r] | _ \<Rightarrow> []) (threads p)) @ tasks p"

inductive server_step ::
  "(string \<Rightarrow> string \<Rightarrow> id_t \<Rightarrow> nat) \<Rightarrow> fs_env \<Rightarrow> settings \<Rightarrow> (rpc_request list \<Rightarrow> bool) \<Rightarrow> server \<Rightarrow> server \<Rightarrow> bool"
  for lvs e cfg idle where
  accept: "running s \<Longrightarrow> 0 < pollers s \<Longrightarrow> process req = Submit \<Longrightarrow> pool_submit req (srv_pool s) = Returns p \<Longrightarrow>
     server_step lvs e cfg idle s (s\<lparr>srv_pool := p\<rparr>)"
| reject: "running s \<Longrightarrow> 0 < pollers s \<Longrightarrow> process req = Finish_now sts \<Longrightarrow>
     server_step lvs e cfg idle s (s\<lparr>answered := answered s @ map (Pair (fresh_response req)) sts\<rparr>)"
| wake: "worker_wake i (srv_pool s) = Some p \<Longrightarrow> server_step lvs e cfg idle s (s\<lparr>srv_pool := p\<rparr>)"
| run_task: "i < length (threads (srv_pool s)) \<Longrightarrow> threads (srv_pool s) ! i = Running req \<Longrightarrow>
     task lvs req (srv_db s) = Returns (db', fs) \<Longrightarrow> worker_finish i (srv_pool s) = Some p \<Longrightarrow>
     server_step lvs e cfg idle s (s\<lparr>srv_pool := p, srv_db := db', answered := answered s @ fs\<rparr>)"
| shutdown_begin: "running s \<Longrightarrow> server_step lvs e cfg idle s (s\<lparr>running := False, phase := Saving\<rparr>)"
| shutdown_saved: "phase s = Saving \<Longrightarrow> shutdown_save e cfg s = Returns s' \<Longrightarrow> server_step lvs e cfg idle s s'"
| shutdown_pool: "phase s = Stopping \<Longrightarrow>
     server_step lvs e cfg idle s (s\<lparr>srv_pool := pool_stop (srv_pool s), phase := Joining\<rparr>)"
| pool_joined: "phase s = Joining \<Longrightarrow> joined (srv_pool s) \<Longrightarrow> server_step lvs e cfg idle s (s\<lparr>phase := Closing\<rparr>)"
| server_shut: "phase s = Closing \<Longrightarrow> idle (unanswered (srv_pool s)) \<Longrightarrow>
     server_step lvs e cfg idle s (s\<lparr>phase := Polling\<rparr>)"
| queue_shut: "phase s = Polling \<Longrightarrow> server_step lvs e cfg idle s (s\<lparr>phase := Closed, pollers := 0\<rparr>)"

subsection \<open>Properties\<close>

lemma threads_wrap: "num_of_thread (server_settings gs (\<lambda>_. Some (256 * n)) gb) = 0"
proof -
  have "unat (ucast (256 * n :: u64) :: byte) = unat (256 * n) mod 256" by (simp add: unsigned_ucast_eq take_bit_eq_mod)
  also have "unat (256 * n) mod 256 = 0" by (simp add: unat_word_ariths mod_mod_cancel)
  finally have "(ucast (256 * n :: u64) :: byte) = 0" by (simp add: unat_eq_zero)
  then show ?thesis by (simp add: server_settings_def value_or_def)
qed

lemma default_settings:
  "server_settings (\<lambda>_. None) (\<lambda>_. None) (\<lambda>_. None) =
     \<lparr>num_of_thread = 4, address = ''0.0.0.0:50051'', db_worker_pool_size = 4, log_level = ''info'', storage_enabled = True\<rparr>"
proof -
  have "to_string 50051 = ''50051''" by (simp add: to_string_def digits.simps)
  then show ?thesis by (simp add: server_settings_def value_or_def)
qed

text \<open>A server that nothing polls for.\<close>

definition unpolled :: "server \<Rightarrow> bool" where
  "unpolled s \<longleftrightarrow>
     pollers s = 0 \<and> accepted (srv_pool s) = [] \<and> tasks (srv_pool s) = [] \<and> answered s = [] \<and>
     (\<forall>req. Running req \<notin> set (threads (srv_pool s)))"

lemma running_update: "Running r \<in> set (ts[i := t]) \<Longrightarrow> t \<noteq> Running r \<Longrightarrow> Running r \<in> set ts"
  using set_update_subset_insert [of ts i t] by auto

lemma unpolled_step:
  assumes "server_step lvs e cfg idle s t" "unpolled s"
  shows "unpolled t"
  using assms(1)
proof (cases rule: server_step.cases)
  case (wake i p)
  then show ?thesis using assms(2) by (auto elim!: worker_wakeE dest!: running_update simp: unpolled_def)
next
  case (run_task i req db' fs p)
  then show ?thesis using assms(2) by (metis nth_mem unpolled_def)
next
  case shutdown_saved
  then show ?thesis using assms(2) by (auto simp: shutdown_save_def unpolled_def run split: if_splits)
qed (use assms(2) in \<open>auto simp: unpolled_def pool_stop_def\<close>)

text \<open>
  The number of polling threads is cut to eight bits. With a multiple of 256 of them configured the
  server starts, and never takes or answers a call; without a configuration there are four.
\<close>

lemma polling_threads_wrap:
  assumes "cfg = server_settings gs (\<lambda>_. Some (256 * n)) gb" "server_new lvs e cfg storage = Returns s"
    and "(server_step lvs e cfg idle)\<^sup>*\<^sup>* (server_start cfg s) t"
  shows "accepted (srv_pool t) = [] \<and> answered t = [] \<and>
    num_of_thread (server_settings (\<lambda>_. None) (\<lambda>_. None) (\<lambda>_. None)) = 4"
proof -
  have "unpolled (server_start cfg s)"
    using assms(1,2) by (auto simp: server_new_def server_start_def unpolled_def pool_new_def threads_wrap run)
  from assms(3) this have "unpolled t" by (induction rule: rtranclp_induct) (auto intro: unpolled_step)
  then show ?thesis by (simp add: unpolled_def default_settings)
qed

lemma polling_threads_wrap_instance:
  "\<forall>e idle. \<exists>s t. server_new (\<lambda>_ _ _. 0) e (server_settings (\<lambda>_. None) (\<lambda>_. Some (256 * 2)) (\<lambda>_. None)) None = Returns s \<and>
    (server_step (\<lambda>_ _ _. 0) e (server_settings (\<lambda>_. None) (\<lambda>_. Some (256 * 2)) (\<lambda>_. None)) idle)\<^sup>*\<^sup>*
      (server_start (server_settings (\<lambda>_. None) (\<lambda>_. Some (256 * 2)) (\<lambda>_. None)) s) t \<and>
    phase t = Saving \<and> accepted (srv_pool t) = [] \<and> answered t = []"
proof (intro allI)
  fix e idle
  let ?cfg = "server_settings (\<lambda>_. None) (\<lambda>_. Some (256 * 2)) (\<lambda>_. None)"
  obtain s where s: "server_new (\<lambda>_ _ _. 0) e ?cfg None = Returns s"
    by (simp add: server_new_def load_def split: if_splits)
  then have "server_step (\<lambda>_ _ _. 0) e ?cfg idle (server_start ?cfg s) ((server_start ?cfg s)\<lparr>running := False, phase := Saving\<rparr>)"
    by (intro server_step.shutdown_begin) (simp add: server_start_def)
  then have t: "(server_step (\<lambda>_ _ _. 0) e ?cfg idle)\<^sup>*\<^sup>* (server_start ?cfg s) ((server_start ?cfg s)\<lparr>running := False, phase := Saving\<rparr>)"
    by (rule r_into_rtranclp)
  from polling_threads_wrap [OF refl s t] s t show "\<exists>s t. server_new (\<lambda>_ _ _. 0) e (server_settings (\<lambda>_. None) (\<lambda>_. Some (256 * 2)) (\<lambda>_. None)) None = Returns s \<and>
    (server_step (\<lambda>_ _ _. 0) e (server_settings (\<lambda>_. None) (\<lambda>_. Some (256 * 2)) (\<lambda>_. None)) idle)\<^sup>*\<^sup>*
      (server_start (server_settings (\<lambda>_. None) (\<lambda>_. Some (256 * 2)) (\<lambda>_. None)) s) t \<and>
    phase t = Saving \<and> accepted (srv_pool t) = [] \<and> answered t = []"
    by (intro exI [of _ s] exI [of _ "(server_start ?cfg s)\<lparr>running := False, phase := Saving\<rparr>"]) simp
qed

text \<open>
  C35. \<^verbatim>\<open>shutdown\<close> saves before it stops the workers: a call whose task is running at that moment is
  carried out and answered afterwards, the shutdown completes, and none of the call's effects is in the
  files. Whatever it changed and acknowledged, the next start finds the database as it was before the call.
\<close>

theorem answered_call_not_saved:
  assumes "db_wf db" "db_storable db" "permissive e" "storage_enabled cfg" "idle []"
    and "process req = Submit" "task lvs req db = Returns (db', fs)"
    and "s = \<lparr>running = True, phase = Serving, srv_db = db, srv_pool = pool_new 1, srv_storage = None, answered = [],
      pollers = 1\<rparr>"
  shows "\<exists>t db''. (server_step lvs e cfg idle)\<^sup>*\<^sup>* s t \<and> phase t = Closed \<and> answered t = fs \<and> srv_db t = db' \<and>
    load lvs e (srv_storage t) database_new = Returns (db'', success) \<and> same_database db db''"
proof -
  let ?st = "server_step lvs e cfg idle"
  let ?p0 = "\<lparr>tasks = [req], stopped = False, threads = [Idle], accepted = [req], started = []\<rparr>"
  let ?p1 = "\<lparr>tasks = [], stopped = False, threads = [Running req], accepted = [req], started = [req]\<rparr>"
  let ?p2 = "\<lparr>tasks = [], stopped = False, threads = [Idle], accepted = [req], started = [req]\<rparr>"
  let ?p3 = "\<lparr>tasks = [], stopped = True, threads = [Exited], accepted = [req], started = [req]\<rparr>"
  let ?files = "Some (map file_of (collections db))"
  let ?mk = "\<lambda>r ph d p st a. \<lparr>running = r, phase = ph, srv_db = d, srv_pool = p, srv_storage = st, answered = a, pollers = 1\<rparr>"
  let ?s0 = "?mk True Serving db ?p0 None []" and ?s1 = "?mk True Serving db ?p1 None []"
  let ?s2 = "?mk False Saving db ?p1 None []" and ?s3 = "?mk False Stopping db ?p1 ?files []"
  let ?s4 = "?mk False Stopping db' ?p2 ?files fs" and ?s5 = "?mk False Joining db' (?p2\<lparr>stopped := True\<rparr>) ?files fs"
  let ?t = "?mk False Polling db' ?p3 ?files fs"
  have 1: "?st s ?s0"
    using server_step.accept [of s req ?p0] by (simp add: assms(6,8) pool_submit_def pool_new_def max_queue_size_def)
  have 2: "?st ?s0 ?s1" using server_step.wake [of 0 ?s0 ?p1] by (simp add: worker_wake_def)
  have 3: "?st ?s1 ?s2" using server_step.shutdown_begin [of ?s1] by simp
  have 4: "?st ?s2 ?s3"
    by (rule server_step.shutdown_saved) (simp_all add: shutdown_save_def assms(4) save_fresh [OF assms(1,3)])
  have 5: "?st ?s3 ?s4" using server_step.run_task [of 0 ?s3 req lvs db' fs ?p2] assms(7) by (simp add: worker_finish_def)
  have 6: "?st ?s4 ?s5" using server_step.shutdown_pool [of ?s4] by (simp add: pool_stop_def)
  have 7: "?st ?s5 (?mk False Joining db' ?p3 ?files fs)" using server_step.wake [of 0 ?s5 ?p3] by (simp add: worker_wake_def)
  have 8: "?st (?mk False Joining db' ?p3 ?files fs) (?mk False Closing db' ?p3 ?files fs)"
    using server_step.pool_joined [of "?mk False Joining db' ?p3 ?files fs"] by (simp add: joined_def)
  have 9: "?st (?mk False Closing db' ?p3 ?files fs) ?t"
    using server_step.server_shut [of "?mk False Closing db' ?p3 ?files fs" idle] assms(5) by (simp add: unanswered_def)
  have "?st ?t (?t\<lparr>phase := Closed, pollers := 0\<rparr>)" by (rule server_step.queue_shut) simp
  with 1 2 3 4 5 6 7 8 9 have "?st\<^sup>*\<^sup>* s (?t\<lparr>phase := Closed, pollers := 0\<rparr>)"
    by (meson converse_rtranclp_into_rtranclp rtranclp.rtrancl_refl)
  moreover obtain db'' where "load lvs e ?files database_new = Returns (db'', success)" "same_database db db''"
    using load_back [OF assms(1-3)] by blast
  ultimately show ?thesis by (intro exI [of _ "?t\<lparr>phase := Closed, pollers := 0\<rparr>"] exI [of _ db'']) simp
qed

theorem answered_call_not_saved_witness:
  "\<exists>db' t db''. abs_db db' ''c'' = None \<and>
    (server_step (\<lambda>_ _ _. 0) sample_fs
      (server_settings (\<lambda>_. None) (\<lambda>_. None) (\<lambda>_. None)) (\<lambda>cs. cs = []))\<^sup>*\<^sup>*
      \<lparr>running = True, phase = Serving, srv_db = sample_db, srv_pool = pool_new 1, srv_storage = None, answered = [],
        pollers = 1\<rparr> t \<and>
    phase t = Closed \<and> answered t = [(Empty_response, (OK, []))] \<and> srv_db t = db' \<and>
    load (\<lambda>_ _ _. 0) sample_fs (srv_storage t) database_new =
      Returns (db'', success) \<and> same_database sample_db db''"
proof -
  have t: "task (\<lambda>_ _ _. 0) (Delete_collection_request ''c'') sample_db = Returns (database_new, [(Empty_response, (OK, []))])"
    by (simp add: delete_collection_task_def delete_collection_def sample_db_def database_new_def
        is_collection_name_valid_def isalnum_def status_to_grpc_status_def)
  have "abs_db database_new ''c'' = None" by (simp add: abs_db_def database_new_def)
  then show ?thesis
    using answered_call_not_saved [OF sample_db_wf sample_db_storable _ _ _ _ t refl,
        of sample_fs
           "server_settings (\<lambda>_. None) (\<lambda>_. None) (\<lambda>_. None)" "\<lambda>cs. cs = []"]
    by (auto simp: server_settings_def value_or_def delete_collection_process_def)
qed

subsection \<open>Whether shutdown ends\<close>

text \<open>A stopped pool under the steps of the server.\<close>

lemma stop_pool_step:
  assumes "server_step lvs e cfg idle s t" "stopped (srv_pool s)"
  shows "stopped (srv_pool t) \<and> (\<exists>ts. tasks (srv_pool t) = tasks (srv_pool s) @ ts)"
  using assms
proof (cases rule: server_step.cases)
  case (shutdown_saved)
  then show ?thesis using assms(2) by (auto simp: shutdown_save_def run split: if_splits)
qed (auto elim!: worker_wakeE worker_finishE simp: pool_submit_def pool_stop_def split: if_splits)

text \<open>The stages of \<^verbatim>\<open>shutdown\<close> past \<^verbatim>\<open>server_->Shutdown()\<close>.\<close>

definition shut :: "server \<Rightarrow> bool" where
  "shut s \<longleftrightarrow> phase s = Polling \<or> phase s = Closed"

lemma not_shut_step:
  assumes "server_step lvs e cfg idle s t" "stopped (srv_pool s)" "tasks (srv_pool s) \<noteq> []" "\<not> shut s"
    and "\<And>cs. idle cs \<Longrightarrow> cs = []"
  shows "\<not> shut t"
  using assms(1)
proof (cases rule: server_step.cases)
  case server_shut
  then show ?thesis using assms(3) assms(5) [of "unanswered (srv_pool s)"] by (simp add: unanswered_def)
next
  case shutdown_saved
  then show ?thesis by (auto simp: shutdown_save_def shut_def run split: if_splits)
qed (use assms(4) in \<open>auto simp: shut_def\<close>)

text \<open>
  C33. When tasks are queued at the moment the pool is stopped, \<^verbatim>\<open>shutdown\<close> never returns: the workers drop
  these tasks, so their calls are never finished, and \<^verbatim>\<open>server_->Shutdown()\<close>, which blocks until all calls
  are finished, waits for ever.
\<close>

theorem shutdown_hangs:
  assumes "\<And>cs. idle cs \<Longrightarrow> cs = []"
    and "stopped (srv_pool s)" "tasks (srv_pool s) \<noteq> []" "phase s \<noteq> Polling" "phase s \<noteq> Closed"
    and "(server_step lvs e cfg idle)\<^sup>*\<^sup>* s t"
  shows "phase t \<noteq> Closed \<and> (\<exists>ts. tasks (srv_pool t) = tasks (srv_pool s) @ ts)"
proof -
  have "stopped (srv_pool t) \<and> \<not> shut t \<and> (\<exists>ts. tasks (srv_pool t) = tasks (srv_pool s) @ ts)"
    using assms(6)
  proof (induction rule: rtranclp_induct)
    case base
    then show ?case using assms(2,4,5) by (simp add: shut_def)
  next
    case (step t u)
    then have "tasks (srv_pool t) \<noteq> []" using assms(3) by auto
    then show ?case using stop_pool_step [OF step.hyps(2)] not_shut_step [OF step.hyps(2) _ _ _ assms(1)] step.IH by auto
  qed
  then show ?thesis by (auto simp: shut_def)
qed

theorem shutdown_hangs_witness:
  "\<forall>lvs e cfg. \<exists>s t. (server_step lvs e cfg (\<lambda>cs. cs = []))\<^sup>*\<^sup>* s t \<and> tasks (srv_pool s) = [Delete_collection_request ''c''] \<and>
     phase s = Joining \<and> phase t = Closing \<and> joined (srv_pool t) \<and> phase t \<noteq> Closed \<and>
     (\<exists>ts. tasks (srv_pool t) = tasks (srv_pool s) @ ts)"
proof (intro allI)
  fix lvs e cfg
  let ?r = "Delete_collection_request ''c''"
  let ?mk = "\<lambda>ph th. \<lparr>running = False, phase = ph, srv_db = database_new, srv_pool = \<lparr>tasks = [?r], stopped = True,
      threads = [th], accepted = [?r], started = []\<rparr>, srv_storage = None, answered = [], pollers = 1\<rparr>"
  let ?st = "server_step lvs e cfg (\<lambda>cs. cs = [])"
  have "?st (?mk Joining Idle) (?mk Joining Exited)"
    using server_step.wake [of 0 "?mk Joining Idle" "srv_pool (?mk Joining Exited)"] by (simp add: worker_wake_def)
  moreover have "?st (?mk Joining Exited) (?mk Closing Exited)"
    using server_step.pool_joined [of "?mk Joining Exited"] by (simp add: joined_def)
  ultimately have r: "?st\<^sup>*\<^sup>* (?mk Joining Idle) (?mk Closing Exited)"
    by (meson converse_rtranclp_into_rtranclp rtranclp.rtrancl_refl)
  show "\<exists>s t. (server_step lvs e cfg (\<lambda>cs. cs = []))\<^sup>*\<^sup>* s t \<and> tasks (srv_pool s) = [Delete_collection_request ''c''] \<and>
     phase s = Joining \<and> phase t = Closing \<and> joined (srv_pool t) \<and> phase t \<noteq> Closed \<and>
     (\<exists>ts. tasks (srv_pool t) = tasks (srv_pool s) @ ts)"
    using shutdown_hangs [OF _ _ _ _ _ r] r by (intro exI [of _ "?mk Joining Idle"] exI [of _ "?mk Closing Exited"]) (simp add: joined_def)
qed

text \<open>A server past the stop of a pool with an empty queue, with the tasks \<open>R\<close> still running.\<close>

definition closing :: "(database \<Rightarrow> bool) \<Rightarrow> rpc_request set \<Rightarrow> server \<Rightarrow> bool" where
  "closing P R s \<longleftrightarrow>
     \<not> running s \<and> stopped (srv_pool s) \<and> tasks (srv_pool s) = [] \<and> P (srv_db s) \<and>
     (\<forall>req. Running req \<in> set (threads (srv_pool s)) \<longrightarrow> req \<in> R) \<and>
     (phase s = Joining \<or> phase s \<in> {Closing, Polling, Closed} \<and> joined (srv_pool s))"

fun stages_left :: "phase \<Rightarrow> nat" where
  "stages_left Joining = 3"
| "stages_left Closing = 2"
| "stages_left Polling = 1"
| "stages_left _ = 0"

definition shutdown_weight :: "server \<Rightarrow> nat" where
  "shutdown_weight s = pool_weight (srv_pool s) + stages_left (phase s)"

lemma joined_no_worker: "joined p \<Longrightarrow> worker_wake i p = None" "joined p \<Longrightarrow> worker_finish i p = None"
  by (auto simp: joined_iff worker_wake_def worker_finish_def)

lemma closing_step:
  assumes "server_step lvs e cfg idle s t" "closing P R s"
    and "\<And>req db. req \<in> R \<Longrightarrow> P db \<Longrightarrow> \<exists>db' fs. task lvs req db = Returns (db', fs) \<and> P db'"
  shows "closing P R t \<and> shutdown_weight t < shutdown_weight s"
  using assms(1)
proof (cases rule: server_step.cases)
  case (wake i p)
  then have w: "pool_weight p < pool_weight (srv_pool s) \<and> stopped p"
    using worker_step_weight [OF worker_step.wake [OF wake(2)]] assms(2) by (simp add: closing_def)
  have "phase s = Joining" using wake(2) assms(2) joined_no_worker(1) [of "srv_pool s" i] by (auto simp: closing_def)
  moreover have "tasks p = []" "\<And>req. Running req \<in> set (threads p) \<Longrightarrow> Running req \<in> set (threads (srv_pool s))"
    using wake(2) assms(2) by (auto elim!: worker_wakeE dest: running_update simp: closing_def)
  ultimately show ?thesis using w assms(2) by (auto simp: wake(1) closing_def shutdown_weight_def)
next
  case (run_task i req db' fs p)
  then have w: "pool_weight p < pool_weight (srv_pool s) \<and> stopped p"
    using worker_step_weight [OF worker_step.finish [OF run_task(5)]] assms(2) by (simp add: closing_def)
  have "phase s = Joining" using run_task(5) assms(2) joined_no_worker(2) [of "srv_pool s" i] by (auto simp: closing_def)
  moreover have "tasks p = []" "\<And>req. Running req \<in> set (threads p) \<Longrightarrow> Running req \<in> set (threads (srv_pool s))"
    using run_task(5) assms(2) by (auto elim!: worker_finishE dest: running_update simp: closing_def)
  moreover have "P db'"
  proof -
    have "req \<in> R" using run_task(2,3) assms(2) by (metis closing_def nth_mem)
    then show ?thesis using assms(2,3) run_task(4) by (fastforce simp: closing_def)
  qed
  ultimately show ?thesis using w assms(2) by (auto simp: run_task(1) closing_def shutdown_weight_def)
qed (use assms(2) in \<open>auto simp: closing_def shutdown_weight_def\<close>)

lemma closing_progress:
  assumes "closing P R s" "phase s \<noteq> Closed" "idle []"
    and "\<And>req db. req \<in> R \<Longrightarrow> P db \<Longrightarrow> \<exists>db' fs. task lvs req db = Returns (db', fs) \<and> P db'"
  shows "\<exists>t. server_step lvs e cfg idle s t"
proof (cases "joined (srv_pool s)")
  case True
  then have "Running r \<notin> set (threads (srv_pool s))" for r by (auto simp: joined_iff in_set_conv_nth)
  then have "(case t of Running r \<Rightarrow> [r] | _ \<Rightarrow> []) = []" if "t \<in> set (threads (srv_pool s))" for t
    using that by (cases t) auto
  then have "unanswered (srv_pool s) = []" using assms(1) by (auto simp: closing_def unanswered_def)
  then show ?thesis using True assms(1-3) server_step.pool_joined server_step.server_shut server_step.queue_shut
    by (auto simp: closing_def) metis+
next
  case False
  then obtain i where i: "i < length (threads (srv_pool s))" "threads (srv_pool s) ! i \<noteq> Exited" by (auto simp: joined_iff)
  show ?thesis
  proof (cases "threads (srv_pool s) ! i")
    case Idle
    then have "worker_wake i (srv_pool s) = Some ((srv_pool s)\<lparr>threads := (threads (srv_pool s))[i := Exited]\<rparr>)"
      using i(1) assms(1) by (simp add: worker_wake_def closing_def)
    then show ?thesis by (blast intro: server_step.wake)
  next
    case (Running req)
    then have "req \<in> R" using i(1) assms(1) by (metis closing_def nth_mem)
    then obtain db' fs where "task lvs req (srv_db s) = Returns (db', fs)" using assms(1,4) by (meson closing_def)
    moreover have "worker_finish i (srv_pool s) = Some ((srv_pool s)\<lparr>threads := (threads (srv_pool s))[i := Idle]\<rparr>)"
      using i(1) Running by (simp add: worker_finish_def)
    ultimately show ?thesis using i(1) Running by (blast intro: server_step.run_task)
  qed (use i in simp)
qed

lemma closing_run:
  assumes "(server_step lvs e cfg idle ^^ k) s t" "closing P R s"
    and "\<And>req db. req \<in> R \<Longrightarrow> P db \<Longrightarrow> \<exists>db' fs. task lvs req db = Returns (db', fs) \<and> P db'"
  shows "closing P R t \<and> shutdown_weight t + k \<le> shutdown_weight s"
  using assms(1)
proof (induction k arbitrary: t)
  case (Suc k)
  then obtain u where u: "(server_step lvs e cfg idle ^^ k) s u" "server_step lvs e cfg idle u t" by auto
  from Suc.IH [OF u(1)] closing_step [of lvs e cfg idle u t P R] u(2) assms(3) show ?case by fastforce
qed (use assms(2) in simp)

lemma closing_ends:
  assumes "closing P R s" "idle []"
    and "\<And>req db. req \<in> R \<Longrightarrow> P db \<Longrightarrow> \<exists>db' fs. task lvs req db = Returns (db', fs) \<and> P db'"
  shows "\<exists>t. (server_step lvs e cfg idle)\<^sup>*\<^sup>* s t \<and> closing P R t \<and> phase t = Closed"
  using assms(1)
proof (induction "shutdown_weight s" arbitrary: s rule: less_induct)
  case less
  show ?case
  proof (cases "phase s = Closed")
    case False
    then obtain u where u: "server_step lvs e cfg idle s u"
      using closing_progress [of P R s idle lvs e cfg] less.prems False assms(2,3) by blast
    have "closing P R u" "shutdown_weight u < shutdown_weight s"
      using closing_step [of lvs e cfg idle s u P R] u less.prems assms(3) by blast+
    then show ?thesis using less.hyps [of u] u by (meson converse_rtranclp_into_rtranclp)
  qed (use less.prems in blast)
qed

lemma weight_bound: "pool_weight p \<le> 2 * length (threads p)"
proof -
  have "(\<Sum>t\<leftarrow>ts. steps_left t) \<le> 2 * length ts" for ts :: "'a thread list"
  proof (induction ts)
    case (Cons t ts)
    then show ?case by (cases t) auto
  qed simp
  then show ?thesis by (simp add: pool_weight_def)
qed



end
