(* ===== verification/Dispatch.thy ===== *)
theory Dispatch
  imports Server_Life
begin

text \<open>
  All calls of a running server together: the handler objects, the events of the completion queue, the
  tasks in the worker pool and the database. Each event and each task is one step; \<open>Rpc_Flow\<close> says what an
  event does to a handler, \<open>Server\<close> and \<open>Rpc_Flow\<close> what a task does to the database. Which messages the
  clients send is an argument. gRPC documents that accepting a call fails only after the server was shut down.
\<close>

subsection \<open>Handlers\<close>

datatype rpc_kind =
    Create_collection_handler
  | Delete_collection_handler
  | Upsert_handler
  | Search_handler
  | Stream_upsert_handler
  | Delete_vector_handler
  | Add_index_handler
  | Get_index_handler

primrec kind_of :: "rpc_request \<Rightarrow> rpc_kind" where
  "kind_of (Create_collection_request n d) = Create_collection_handler"
| "kind_of (Delete_collection_request n) = Delete_collection_handler"
| "kind_of (Upsert_request n vs) = Upsert_handler"
| "kind_of (Search_request n q k) = Search_handler"
| "kind_of (Del_vector_request n ids) = Delete_vector_handler"
| "kind_of (Add_index_request n i ty ps) = Add_index_handler"
| "kind_of (Index_params_request n i) = Get_index_handler"

text \<open>A message that a handler has read: the request of a unary call or one message of a stream.\<close>

datatype message = Unary rpc_request | Part string "proto_vector list"

text \<open>\<open>call_answers\<close> is not in the code: it records what the handler has finished its call with.\<close>

record call =
  call_kind :: rpc_kind
  call_flow :: handler
  call_status :: grpc_status
  call_answers :: "finish list"

definition call_new :: "rpc_kind \<Rightarrow> call" where
  "call_new k = \<lparr>call_kind = k, call_flow = handler_new, call_status = internal, call_answers = []\<rparr>"

text \<open>The constructor of each kind asks gRPC for a call; the handler is then its tag.\<close>

definition create_collection_handler :: call where
  [simp]: "create_collection_handler = call_new Create_collection_handler"

definition delete_collection_handler :: call where
  [simp]: "delete_collection_handler = call_new Delete_collection_handler"

definition upsert_handler :: call where
  [simp]: "upsert_handler = call_new Upsert_handler"

definition search_handler :: call where
  [simp]: "search_handler = call_new Search_handler"

definition stream_upsert_handler :: call where
  [simp]: "stream_upsert_handler = call_new Stream_upsert_handler"

definition delete_vector_handler :: call where
  [simp]: "delete_vector_handler = call_new Delete_vector_handler"

definition add_index_handler :: call where
  [simp]: "add_index_handler = call_new Add_index_handler"

definition get_index_handler :: call where
  [simp]: "get_index_handler = call_new Get_index_handler"

definition init_rpc_handlers :: "call list" where
  "init_rpc_handlers =
     [create_collection_handler, delete_collection_handler, upsert_handler, search_handler,
       stream_upsert_handler, delete_vector_handler, add_index_handler, get_index_handler]"

definition creat_new_instance :: "call \<Rightarrow> call" where
  [simp]: "creat_new_instance c = call_new (call_kind c)"

text \<open>
  The status that \<^verbatim>\<open>handle_unknown_error\<close> of each handler finishes with, after it has set the state to PROCESSED,
  which \<open>run_flow\<close> does; a stream has its status so far.
\<close>

definition create_collection_unknown_error :: grpc_status where
  [simp]: "create_collection_unknown_error = internal"

definition delete_collection_unknown_error :: grpc_status where
  [simp]: "delete_collection_unknown_error = internal"

definition upsert_unknown_error :: grpc_status where
  [simp]: "upsert_unknown_error = internal"

definition search_unknown_error :: grpc_status where
  [simp]: "search_unknown_error = internal"

definition stream_upsert_unknown_error :: "call \<Rightarrow> grpc_status" where
  [simp]: "stream_upsert_unknown_error c = call_status c"

definition delete_vector_unknown_error :: grpc_status where
  [simp]: "delete_vector_unknown_error = internal"

definition add_index_unknown_error :: grpc_status where
  [simp]: "add_index_unknown_error = internal"

definition get_index_unknown_error :: grpc_status where
  [simp]: "get_index_unknown_error = internal"

definition unknown_error :: "call \<Rightarrow> grpc_status" where
  "unknown_error c =
     (case call_kind c of
        Create_collection_handler \<Rightarrow> create_collection_unknown_error
      | Delete_collection_handler \<Rightarrow> delete_collection_unknown_error
      | Upsert_handler \<Rightarrow> upsert_unknown_error
      | Search_handler \<Rightarrow> search_unknown_error
      | Stream_upsert_handler \<Rightarrow> stream_upsert_unknown_error c
      | Delete_vector_handler \<Rightarrow> delete_vector_unknown_error
      | Add_index_handler \<Rightarrow> add_index_unknown_error
      | Get_index_handler \<Rightarrow> get_index_unknown_error)"

primrec message_process :: "message \<Rightarrow> process_result" where
  "message_process (Unary req) = process req"
| "message_process (Part n vs) = Submit"

primrec message_response :: "message \<Rightarrow> rpc_response" where
  "message_response (Unary req) = fresh_response req"
| "message_response (Part n vs) = Empty_response"

subsection \<open>The server\<close>

text \<open>A task in the pool is its message with the number of its handler. \<open>done_tasks\<close> records what has been run.\<close>

datatype task_end = Finished "finish list" | Reads_on | Stuck_task

record dispatcher =
  calls :: "call list"
  task_pool :: "(nat \<times> message) pool"
  store :: database
  done_tasks :: "(nat \<times> message \<times> task_end) list"
  serving :: bool

definition dispatcher_start :: "nat \<Rightarrow> database \<Rightarrow> dispatcher" where
  "dispatcher_start workers db =
     \<lparr>calls = init_rpc_handlers, task_pool = pool_new workers, store = db, done_tasks = [], serving = True\<rparr>"

definition on_call :: "nat \<Rightarrow> (call \<Rightarrow> call) \<Rightarrow> dispatcher \<Rightarrow> dispatcher" where
  "on_call i f d = d\<lparr>calls := (calls d)[i := f (calls d ! i)]\<rparr>"

definition effect_on_call :: "effect \<Rightarrow> message \<Rightarrow> call \<Rightarrow> call" where
  "effect_on_call e m c =
     c\<lparr>call_flow := apply_effect e (call_flow c),
       call_answers := call_answers c @ (case e of Finish_call st \<Rightarrow> [(message_response m, st)] | _ \<Rightarrow> [])\<rparr>"

text \<open>A full queue makes \<^verbatim>\<open>submit\<close> throw in the polling thread, which ends the program.\<close>

definition call_effect :: "nat \<Rightarrow> message \<Rightarrow> effect \<Rightarrow> dispatcher \<Rightarrow> dispatcher outcome" where
  "call_effect i m e d =
     obind
       (case e of
          New_instance \<Rightarrow> Returns (d\<lparr>calls := calls d @ [creat_new_instance (calls d ! i)]\<rparr>)
        | Submit_task \<Rightarrow> obind (pool_submit (i, m) (task_pool d)) (\<lambda>p. Returns (d\<lparr>task_pool := p\<rparr>))
        | _ \<Rightarrow> Returns d)
       (\<lambda>d'. Returns (on_call i (effect_on_call e m) d'))"

definition call_event :: "nat \<Rightarrow> bool \<Rightarrow> message \<Rightarrow> dispatcher \<Rightarrow> dispatcher outcome" where
  "call_event i ok m d =
     (let c = calls d ! i in
      case run_flow (call_kind c = Stream_upsert_handler) (message_process m) (unknown_error c) ok (\<not> serving d)
          (h_state (call_flow c)) of
        (st, es) \<Rightarrow>
          fold_outcome (call_effect i m) es
            (on_call i (\<lambda>c. c\<lparr>call_flow := (call_flow c)\<lparr>h_state := st, pending := pending (call_flow c) - 1\<rparr>\<rparr>) d))"

text \<open>The events a handler can see while the server runs, and the messages they bring.\<close>

definition event_fits :: "(message \<Rightarrow> bool) \<Rightarrow> bool \<Rightarrow> message \<Rightarrow> call \<Rightarrow> bool" where
  "event_fits sent ok m c =
     (case h_state (call_flow c) of
        CREATED \<Rightarrow> ok \<and>
          (case m of Unary req \<Rightarrow> sent m \<and> kind_of req = call_kind c | Part n vs \<Rightarrow> call_kind c = Stream_upsert_handler)
      | READ \<Rightarrow> (case m of Unary req \<Rightarrow> False | Part n vs \<Rightarrow> ok \<longrightarrow> sent m)
      | _ \<Rightarrow> True)"

subsection \<open>Tasks\<close>

primrec run_message ::
  "(string \<Rightarrow> string \<Rightarrow> id_t \<Rightarrow> nat) \<Rightarrow> message \<Rightarrow> database \<Rightarrow> (database \<times> task_end) outcome" where
  "run_message lvs (Unary req) db = obind (task lvs req db) (\<lambda>(db', fs). Returns (db', Finished fs))"
| "run_message lvs (Part n vs) db =
     obind (stream_task n vs db) (\<lambda>(db', nx).
       Returns (db', case nx of Read_more \<Rightarrow> Reads_on | Stream_finish st \<Rightarrow> Finished [(Empty_response, st)] | Stuck \<Rightarrow> Stuck_task))"

definition end_task :: "task_end \<Rightarrow> call \<Rightarrow> call" where
  "end_task e c =
     (let h = (call_flow c)\<lparr>in_task := False\<rparr> in
      case e of
        Finished fs \<Rightarrow> c\<lparr>call_flow := h\<lparr>h_state := PROCESSED, pending := pending h + length fs\<rparr>, call_answers := call_answers c @ fs\<rparr>
      | Reads_on \<Rightarrow> c\<lparr>call_flow := h\<lparr>h_state := READ, pending := Suc (pending h)\<rparr>, call_status := (OK, [])\<rparr>
      | Stuck_task \<Rightarrow> c\<lparr>call_flow := h\<rparr>)"

inductive work_step :: "(string \<Rightarrow> string \<Rightarrow> id_t \<Rightarrow> nat) \<Rightarrow> dispatcher \<Rightarrow> dispatcher \<Rightarrow> bool" for lvs where
  wake: "worker_wake w (task_pool d) = Some p \<Longrightarrow> work_step lvs d (d\<lparr>task_pool := p\<rparr>)"
| run_task: "w < length (threads (task_pool d)) \<Longrightarrow> threads (task_pool d) ! w = Running (i, m) \<Longrightarrow>
     run_message lvs m (store d) = Returns (db', e) \<Longrightarrow> worker_finish w (task_pool d) = Some p \<Longrightarrow>
     work_step lvs d (on_call i (end_task e) (d\<lparr>task_pool := p, store := db', done_tasks := done_tasks d @ [(i, m, e)]\<rparr>))"

inductive dispatch_step ::
  "(string \<Rightarrow> string \<Rightarrow> id_t \<Rightarrow> nat) \<Rightarrow> (message \<Rightarrow> bool) \<Rightarrow> dispatcher \<Rightarrow> dispatcher \<Rightarrow> bool" for lvs sent where
  event: "i < length (calls d) \<Longrightarrow> 0 < pending (call_flow (calls d ! i)) \<Longrightarrow> serving d \<longrightarrow> event_fits sent ok m (calls d ! i) \<Longrightarrow>
     call_event i ok m d = Returns d' \<Longrightarrow> dispatch_step lvs sent d d'"
| work: "work_step lvs d d' \<Longrightarrow> dispatch_step lvs sent d d'"
| stop: "serving d \<Longrightarrow> dispatch_step lvs sent d (d\<lparr>serving := False\<rparr>)"
| stop_pool: "\<not> serving d \<Longrightarrow> dispatch_step lvs sent d (d\<lparr>task_pool := pool_stop (task_pool d)\<rparr>)"

subsection \<open>The pool as a multiset of open tasks\<close>

definition open_tasks :: "'a pool \<Rightarrow> 'a multiset" where
  "open_tasks p = mset (unanswered p)"

lemma open_tasks_new [simp]: "open_tasks (pool_new n) = {#}"
  by (induction n) (simp_all add: open_tasks_def unanswered_def pool_new_def)

lemma open_tasks_submit: "pool_submit t p = Returns q \<Longrightarrow> open_tasks q = add_mset t (open_tasks p)"
  by (auto simp: open_tasks_def unanswered_def pool_submit_def split: if_splits)

lemma submit_keeps: "pool_submit t p = Returns q \<Longrightarrow> stopped q = stopped p \<and> threads q = threads p"
  by (auto simp: pool_submit_def split: if_splits)

lemma open_tasks_stop [simp]: "open_tasks (pool_stop p) = open_tasks p"
  by (simp add: open_tasks_def unanswered_def pool_stop_def)

lemma unanswered_update:
  assumes "i < length ts"
  shows "mset (concat (map f (ts[i := t]))) + mset (f (ts ! i)) = mset (concat (map f ts)) + mset (f t)"
proof -
  have "concat (map f ts) = concat (map f (take i ts)) @ f (ts ! i) @ concat (map f (drop (Suc i) ts))"
    using id_take_nth_drop [OF assms] by (metis concat_append concat.simps(2) list.simps(9) map_append)
  then show ?thesis using assms by (simp add: upd_conv_take_nth_drop)
qed

lemma open_tasks_wake: "worker_wake i p = Some q \<Longrightarrow> open_tasks q = open_tasks p"
  using unanswered_update [of i "threads p" "\<lambda>t. case t of Running r \<Rightarrow> [r] | _ \<Rightarrow> []"]
  by (auto simp: worker_wake_def open_tasks_def unanswered_def split: if_splits thread.splits list.splits)

lemma open_tasks_finish:
  "worker_finish i p = Some q \<Longrightarrow> threads p ! i = Running r \<Longrightarrow> open_tasks p = add_mset r (open_tasks q)"
  using unanswered_update [of i "threads p" "\<lambda>t. case t of Running r \<Rightarrow> [r] | _ \<Rightarrow> []" Idle]
  by (auto simp: worker_finish_def open_tasks_def unanswered_def split: if_splits)

subsection \<open>Types of messages and answers\<close>

definition message_for :: "rpc_kind \<Rightarrow> message \<Rightarrow> bool" where
  "message_for k m = (case m of Unary req \<Rightarrow> kind_of req = k | Part n vs \<Rightarrow> k = Stream_upsert_handler)"

definition response_for :: "rpc_kind \<Rightarrow> rpc_response \<Rightarrow> bool" where
  "response_for k r =
     (case r of
        Empty_response \<Rightarrow> k \<noteq> Search_handler \<and> k \<noteq> Get_index_handler
      | Search_response rs \<Rightarrow> k = Search_handler
      | _ \<Rightarrow> k = Get_index_handler)"

text \<open>The messages that are no deletion without ids and have a length and distance types that fit.\<close>

definition message_ok :: "message \<Rightarrow> bool" where
  "message_ok m =
     (case m of
        Unary req \<Rightarrow> rpc_known req \<and> finishes_once req
      | Part n vs \<Rightarrow> list_all (\<lambda>v. length (pv_values v) < 2 ^ 31) vs)"

lemma fresh_response_typed: "response_for (kind_of req) (fresh_response req)"
  by (cases req) (simp_all add: response_for_def fresh_response_def)

lemma get_index_typed:
  assumes "get_index_task n i db = Returns (db', fs)" "f \<in> set fs"
  shows "response_for Get_index_handler (fst f)"
proof -
  have "fst f \<in> {No_index_response} \<union> range params_response"
    using assms by (auto simp: get_index_task_def Let_def catch_all_Returns run split: if_splits prod.splits option.splits index_type.splits)
  then show ?thesis by (auto simp: response_for_def params_response_def split: params.split)
qed

lemma task_typed:
  "task lvs req db = Returns (db', fs) \<Longrightarrow> f \<in> set fs \<Longrightarrow> response_for (kind_of req) (fst f)"
  using get_index_typed by (cases req) (auto simp: create_collection_task_def delete_collection_task_def upsert_task_def search_task_def
      delete_vector_task_def add_index_task_def response_for_def catch_all_Returns run split: prod.splits if_splits)

subsection \<open>What an event does\<close>

text \<open>
  The invariant of one handler: either an event is to come, or a task holds it, or it is deleted, or it is a
  stream whose task is stuck; it has one answer exactly when it is PROCESSED.
\<close>

definition call_ok :: "call \<Rightarrow> bool" where
  "call_ok c \<longleftrightarrow>
     (let h = call_flow c; n = pending h + (if in_task h then 1 else 0) + (if deleted h then 1 else 0) in
      (n = 1 \<or> n = 0 \<and> call_kind c = Stream_upsert_handler \<and> h_state h = READ) \<and>
      h_state h \<noteq> WRITTEN \<and> (h_state h = READ \<longrightarrow> call_kind c = Stream_upsert_handler) \<and>
      (in_task h \<longrightarrow> h_state h = (if call_kind c = Stream_upsert_handler then READ else CREATED)) \<and>
      length (call_answers c) = (if h_state h = PROCESSED then 1 else 0) \<and>
      list_all (\<lambda>a. response_for (call_kind c) (fst a)) (call_answers c))"

definition waiting :: "call \<Rightarrow> bool" where
  "waiting c \<longleftrightarrow> h_state (call_flow c) = CREATED \<and> pending (call_flow c) = 1"

lemma init_rpc_handlers_map:
  "init_rpc_handlers = map call_new [Create_collection_handler, Delete_collection_handler, Upsert_handler, Search_handler,
     Stream_upsert_handler, Delete_vector_handler, Add_index_handler, Get_index_handler]"
  by (simp add: init_rpc_handlers_def)

lemma call_new_simps [simp]:
  "call_ok (call_new k)" "waiting (call_new k)" "call_kind (call_new k) = k" "call_answers (call_new k) = []"
  "call_status (call_new k) = internal" "\<not> in_task (call_flow (call_new k))"
  by (simp_all add: call_ok_def waiting_def call_new_def handler_new_def)

text \<open>What a handler answers without a task: a refused request, or the end of a stream.\<close>

definition own_answer :: "(message \<Rightarrow> bool) \<Rightarrow> call \<Rightarrow> finish \<Rightarrow> bool" where
  "own_answer sent c a \<longleftrightarrow>
     (\<exists>req st. sent (Unary req) \<and> kind_of req = call_kind c \<and> process req = Finish_now [st] \<and> a = (fresh_response req, st)) \<or>
     call_kind c = Stream_upsert_handler \<and> a = (Empty_response, call_status c)"

lemma fold_outcome_Nil [simp]: "fold_outcome f [] = Returns"
  by (rule ext) simp

lemmas event_eval = call_event_def call_effect_def on_call_def effect_on_call_def Let_def nth_append list_update_append

text \<open>What an event leaves of a handler \<open>c\<close>, with the handlers that it creates.\<close>

definition event_result :: "(message \<Rightarrow> bool) \<Rightarrow> nat \<Rightarrow> message \<Rightarrow> dispatcher \<Rightarrow> dispatcher \<Rightarrow> call \<Rightarrow> call \<Rightarrow> call list \<Rightarrow> bool" where
  "event_result sent i m d d' c c' new \<longleftrightarrow>
      d' = d\<lparr>calls := (calls d)[i := c'] @ new, task_pool := task_pool d'\<rparr> \<and> call_ok c' \<and>
      call_kind c' = call_kind c \<and> call_status c' = call_status c \<and> \<not> in_task (call_flow c) \<and>
      (deleted (call_flow c') \<and> serving d \<longrightarrow> h_state (call_flow c') = PROCESSED) \<and>
      (serving d \<longrightarrow> \<not> waiting c') \<and> new = (if serving d \<and> waiting c then [call_new (call_kind c)] else []) \<and>
      (task_pool d' = task_pool d \<and> \<not> in_task (call_flow c') \<or>
       pool_submit (i, m) (task_pool d) = Returns (task_pool d') \<and> in_task (call_flow c') \<and>
         sent m \<and> message_for (call_kind c) m \<and> message_process m = Submit) \<and>
      (call_answers c' = call_answers c \<or>
       (\<exists>a. call_answers c = [] \<and> call_answers c' = [a] \<and> own_answer sent c a))"

definition idle_call :: "call \<Rightarrow> bool" where
  "idle_call c \<longleftrightarrow>
     call_ok c \<and> pending (call_flow c) = 1 \<and> \<not> in_task (call_flow c) \<and> \<not> deleted (call_flow c) \<and> h_state (call_flow c) \<noteq> WRITTEN"

lemma idle_callI: "call_ok c \<Longrightarrow> 0 < pending (call_flow c) \<Longrightarrow> idle_call c"
  by (cases "in_task (call_flow c)"; cases "deleted (call_flow c)") (simp_all add: call_ok_def idle_call_def Let_def)

lemma idle_call_facts:
  assumes "idle_call c"
  shows "pending (call_flow c) = 1" "\<not> in_task (call_flow c)" "\<not> deleted (call_flow c)"
    "h_state (call_flow c) = READ \<Longrightarrow> call_kind c = Stream_upsert_handler"
    "length (call_answers c) = (if h_state (call_flow c) = PROCESSED then 1 else 0)"
    "list_all (\<lambda>a. response_for (call_kind c) (fst a)) (call_answers c)" "h_state (call_flow c) \<noteq> WRITTEN"
  using assms by (simp_all add: idle_call_def call_ok_def Let_def)

lemmas event_result_intro = event_result_def call_ok_def waiting_def message_for_def Let_def

lemma event_deletes:
  assumes "call_event i ok m d = Returns d'" "i < length (calls d)" "c = calls d ! i" "idle_call c"
    and "serving d \<longrightarrow> h_state (call_flow c) = PROCESSED"
  shows "event_result sent i m d d' c (c\<lparr>call_flow := (call_flow c)\<lparr>pending := 0, deleted := True\<rparr>\<rparr>) []"
proof -
  have "run_flow (call_kind c = Stream_upsert_handler) (message_process m) (unknown_error c) ok (\<not> serving d) (h_state (call_flow c)) =
      (h_state (call_flow c), [Delete_this])"
    using assms(5) by (auto simp: run_flow_def)
  then have "d' = d\<lparr>calls := (calls d)[i := c\<lparr>call_flow := (call_flow c)\<lparr>pending := 0, deleted := True\<rparr>\<rparr>]\<rparr>"
    using assms(1-4) by (simp add: event_eval idle_call_def)
  then show ?thesis using idle_call_facts [OF assms(4)] assms(5) by (simp add: event_result_intro)
qed

lemma event_opens_stream:
  assumes "call_event i True m d = Returns d'" "i < length (calls d)" "c = calls d ! i" "idle_call c" "serving d"
    and "h_state (call_flow c) = CREATED" "call_kind c = Stream_upsert_handler"
  shows "event_result sent i m d d' c (c\<lparr>call_flow := (call_flow c)\<lparr>h_state := READ, pending := 1\<rparr>\<rparr>) [call_new (call_kind c)]"
proof -
  let ?c = "c\<lparr>call_flow := (call_flow c)\<lparr>h_state := READ, pending := 1\<rparr>\<rparr>"
  have "d' = d\<lparr>calls := (calls d)[i := ?c] @ [call_new (call_kind c)]\<rparr>"
    using assms by (simp add: event_eval run_flow_def idle_call_def)
  then show ?thesis using idle_call_facts [OF assms(4)] assms(5-) by (simp add: event_result_intro)
qed

lemma event_refuses:
  assumes "call_event i True m d = Returns d'" "i < length (calls d)" "c = calls d ! i" "idle_call c" "serving d"
    and "h_state (call_flow c) = CREATED" "call_kind c \<noteq> Stream_upsert_handler"
    and "m = Unary req" "sent m" "kind_of req = call_kind c" "process req = Finish_now [st]"
  shows "event_result sent i m d d' c (c\<lparr>call_flow := (call_flow c)\<lparr>h_state := PROCESSED, pending := 1\<rparr>,
    call_answers := [(fresh_response req, st)]\<rparr>) [call_new (call_kind c)]"
proof -
  let ?c = "c\<lparr>call_flow := (call_flow c)\<lparr>h_state := PROCESSED, pending := 1\<rparr>, call_answers := [(fresh_response req, st)]\<rparr>"
  have "call_answers c = []" using assms(4,6) by (simp add: idle_call_def call_ok_def Let_def)
  then have "d' = d\<lparr>calls := (calls d)[i := ?c] @ [call_new (call_kind c)]\<rparr>"
    using assms by (simp add: event_eval run_flow_def process_effects_def idle_call_def)
  moreover have "own_answer sent c (fresh_response req, st)" using assms by (auto simp: own_answer_def)
  ultimately show ?thesis using idle_call_facts [OF assms(4)] assms(5-) fresh_response_typed [of req]
    by (simp add: event_result_intro)
qed

lemma event_submits_unary:
  assumes "call_event i True m d = Returns d'" "i < length (calls d)" "c = calls d ! i" "idle_call c" "serving d"
    and "h_state (call_flow c) = CREATED" "call_kind c \<noteq> Stream_upsert_handler"
    and "m = Unary req" "sent m" "kind_of req = call_kind c" "process req = Submit"
  shows "event_result sent i m d d' c (c\<lparr>call_flow := (call_flow c)\<lparr>h_state := CREATED, pending := 0, in_task := True\<rparr>\<rparr>)
    [call_new (call_kind c)]"
proof -
  let ?c = "c\<lparr>call_flow := (call_flow c)\<lparr>h_state := CREATED, pending := 0, in_task := True\<rparr>\<rparr>"
  obtain p where "pool_submit (i, m) (task_pool d) = Returns p"
    "d' = d\<lparr>task_pool := p, calls := (calls d)[i := ?c] @ [call_new (call_kind c)]\<rparr>"
    using assms by (auto simp: event_eval run_flow_def process_effects_def idle_call_def run)
  then show ?thesis using idle_call_facts [OF assms(4)] assms(5-)
    by (simp add: event_result_intro)
qed

lemma event_submits_part:
  assumes "call_event i True m d = Returns d'" "i < length (calls d)" "c = calls d ! i" "idle_call c" "serving d"
    and "h_state (call_flow c) = READ" "call_kind c = Stream_upsert_handler" "m = Part n vs" "sent m"
  shows "event_result sent i m d d' c (c\<lparr>call_flow := (call_flow c)\<lparr>h_state := READ, pending := 0, in_task := True\<rparr>\<rparr>) []"
proof -
  let ?c = "c\<lparr>call_flow := (call_flow c)\<lparr>h_state := READ, pending := 0, in_task := True\<rparr>\<rparr>"
  obtain p where "pool_submit (i, m) (task_pool d) = Returns p" "d' = d\<lparr>task_pool := p, calls := (calls d)[i := ?c]\<rparr>"
    using assms by (auto simp: event_eval run_flow_def process_effects_def idle_call_def run)
  then show ?thesis using idle_call_facts [OF assms(4)] assms(5-)
    by (simp add: event_result_intro)
qed

lemma event_ends_stream:
  assumes "call_event i False m d = Returns d'" "i < length (calls d)" "c = calls d ! i" "idle_call c" "serving d"
    and "h_state (call_flow c) = READ" "call_kind c = Stream_upsert_handler" "m = Part n vs"
  shows "event_result sent i m d d' c (c\<lparr>call_flow := (call_flow c)\<lparr>h_state := PROCESSED, pending := 1\<rparr>,
    call_answers := [(Empty_response, call_status c)]\<rparr>) []"
proof -
  let ?c = "c\<lparr>call_flow := (call_flow c)\<lparr>h_state := PROCESSED, pending := 1\<rparr>, call_answers := [(Empty_response, call_status c)]\<rparr>"
  have "call_answers c = []" using assms(4,6) by (simp add: idle_call_def call_ok_def Let_def)
  then have "d' = d\<lparr>calls := (calls d)[i := ?c]\<rparr>"
    using assms by (simp add: event_eval run_flow_def unknown_error_def idle_call_def)
  then show ?thesis using idle_call_facts [OF assms(4)] assms(5-)
    by (simp add: event_result_intro own_answer_def response_for_def)
qed

lemma event_contract:
  assumes "call_event i ok m d = Returns d'" "i < length (calls d)" "c = calls d ! i" "0 < pending (call_flow c)" "call_ok c"
    and "serving d \<longrightarrow> event_fits sent ok m c" "\<And>m. sent m \<Longrightarrow> message_ok m"
  shows "\<exists>c' new. event_result sent i m d d' c c' new"
proof (cases "serving d \<and> h_state (call_flow c) \<noteq> PROCESSED")
  case False
  then show ?thesis using event_deletes [OF assms(1-3) idle_callI [OF assms(5,4)]] by blast
next
  case True
  have c: "idle_call c" by (rule idle_callI [OF assms(5,4)])
  have fits: "event_fits sent ok m c" "serving d" using True assms(6) by auto
  show ?thesis
  proof (cases "h_state (call_flow c)")
    case CREATED
    then have ev: "call_event i True m d = Returns d'" using fits assms(1) by (simp add: event_fits_def)
    show ?thesis
    proof (cases "call_kind c = Stream_upsert_handler")
      case True
      then show ?thesis using event_opens_stream [OF ev assms(2,3) c fits(2) CREATED] by blast
    next
      case False
      then obtain req where m: "m = Unary req" "sent m" "kind_of req = call_kind c"
        using fits CREATED by (auto simp: event_fits_def split: message.splits)
      moreover have "process req = Submit \<or> (\<exists>st. process req = Finish_now [st])"
        using assms(7) [OF m(2)] m(1)
        by (cases "process req") (auto simp: message_ok_def finishes_once_def length_Suc_conv)
      ultimately show ?thesis using event_submits_unary [OF ev assms(2,3) c fits(2) CREATED False]
          event_refuses [OF ev assms(2,3) c fits(2) CREATED False] by blast
    qed
  next
    case READ
    then have "call_kind c = Stream_upsert_handler" using assms(5) by (simp add: call_ok_def Let_def)
    moreover obtain n vs where "m = Part n vs" "ok \<longrightarrow> sent m"
      using fits READ by (auto simp: event_fits_def split: message.splits)
    ultimately show ?thesis
      using event_submits_part [of i m d d' c n vs sent, OF _ assms(2,3) c fits(2) READ]
        event_ends_stream [of i m d d' c n vs sent, OF _ assms(2,3) c fits(2) READ] assms(1) by (cases ok) (simp_all, blast+)
  qed (use c True in \<open>auto simp: idle_call_def\<close>)
qed

subsection \<open>What a task does\<close>

definition end_status :: "task_end \<Rightarrow> grpc_status option" where
  "end_status e = (case e of Finished fs \<Rightarrow> map_option snd (if fs = [] then None else Some (last fs)) | Reads_on \<Rightarrow> Some (OK, []) | Stuck_task \<Rightarrow> None)"

definition end_for :: "rpc_kind \<Rightarrow> task_end \<Rightarrow> bool" where
  "end_for k e =
     (case e of
        Finished fs \<Rightarrow> length fs = 1 \<and> list_all (\<lambda>a. response_for k (fst a)) fs
      | _ \<Rightarrow> k = Stream_upsert_handler)"

text \<open>A task makes at most one request to the database and reports its status, or it changes nothing.\<close>

definition one_request :: "(string \<Rightarrow> string \<Rightarrow> id_t \<Rightarrow> nat) \<Rightarrow> database \<Rightarrow> database \<Rightarrow> task_end \<Rightarrow> bool" where
  "one_request lvs db db' e \<longleftrightarrow>
     db' = db \<or> (\<exists>r s. from_call r \<and> db_step lvs r db = Returns (db', s) \<and> end_status e = Some (status_to_grpc_status s))"

lemma run_message_contract:
  assumes "run_message lvs m db = Returns (db', e)" "message_ok m" "message_process m = Submit" "message_for k m"
  shows "end_for k e \<and> one_request lvs db db' e"
proof (cases m)
  case (Unary req)
  then obtain fs where fs: "task lvs req db = Returns (db', fs)" "e = Finished fs" using assms(1) by (auto simp: run)
  have "reports lvs db db' fs" using task_reports [OF fs(1)] assms(2,3) Unary by (simp add: message_ok_def)
  then obtain resp st where r: "fs = [(resp, st)]"
    "db' = db \<or> (\<exists>r s. from_call r \<and> db_step lvs r db = Returns (db', s) \<and> st = status_to_grpc_status s)"
    by (auto simp: reports_def) metis+
  have "response_for k resp" using task_typed [OF fs(1), of "(resp, st)"] r(1) assms(4) Unary by (simp add: message_for_def)
  then show ?thesis using r fs(2) by (auto simp: end_for_def one_request_def end_status_def)
next
  case (Part n vs)
  then have k: "k = Stream_upsert_handler" using assms(4) by (simp add: message_for_def)
  obtain nx where nx: "stream_task n vs db = Returns (db', nx)"
    "e = (case nx of Read_more \<Rightarrow> Reads_on | Stream_finish st \<Rightarrow> Finished [(Empty_response, st)] | Stuck \<Rightarrow> Stuck_task)"
    using assms(1) Part by (auto simp: run)
  consider "db' = db" "nx = Stuck"
    | st where "upsert_vectors n vs db = Returns (db', st)" "nx = (if st \<noteq> success then Stream_finish (status_to_grpc_status st) else Read_more)"
    using nx(1) by (auto simp: stream_task_def catch_all_Returns run)
  then show ?thesis
  proof cases
    case (2 st)
    have "end_status e = Some (status_to_grpc_status st)"
      using 2(2) nx(2) by (simp add: end_status_def status_to_grpc_status_def)
    then show ?thesis using upsert_as_request [OF 2(1)] assms(2) Part k nx(2) 2(2)
      by (auto simp: message_ok_def one_request_def end_for_def response_for_def)
  qed (use k nx(2) in \<open>simp add: end_for_def one_request_def\<close>)
qed

lemma one_request_wf: "one_request lvs db db' e \<Longrightarrow> server_wf db \<Longrightarrow> server_wf db'"
  using step_served by (auto simp: one_request_def server_wf_def from_call_def dest: db_step_wf)

subsection \<open>The invariant of the server\<close>

text \<open>Exactly the handlers that are in a task have one task in the pool, and it fits them.\<close>

definition tasks_ok :: "(message \<Rightarrow> bool) \<Rightarrow> call list \<Rightarrow> (nat \<times> message) multiset \<Rightarrow> bool" where
  "tasks_ok sent cs M \<longleftrightarrow>
     (\<forall>i. count (image_mset fst M) i = (if i < length cs \<and> in_task (call_flow (cs ! i)) then 1 else 0)) \<and>
     (\<forall>(i, m) \<in># M. message_for (call_kind (cs ! i)) m \<and> sent m \<and> message_process m = Submit)"

definition waiting_for :: "rpc_kind \<Rightarrow> call list \<Rightarrow> nat" where
  "waiting_for k cs = length (filter (\<lambda>c. call_kind c = k \<and> waiting c) cs)"

definition dispatch_inv :: "(message \<Rightarrow> bool) \<Rightarrow> dispatcher \<Rightarrow> bool" where
  "dispatch_inv sent d \<longleftrightarrow>
     list_all call_ok (calls d) \<and> tasks_ok sent (calls d) (open_tasks (task_pool d)) \<and>
     (serving d \<longrightarrow> (\<forall>k. waiting_for k (calls d) = 1) \<and>
       \<not> stopped (task_pool d) \<and> Exited \<notin> set (threads (task_pool d)) \<and>
       list_all (\<lambda>c. deleted (call_flow c) \<longrightarrow> h_state (call_flow c) = PROCESSED) (calls d))"

lemma filter_update:
  assumes "i < length xs"
  shows "length (filter P (xs[i := y])) + (if P (xs ! i) then 1 else 0) = length (filter P xs) + (if P y then 1 else 0)"
proof -
  have "length (filter P xs) = length (filter P (take i xs @ xs ! i # drop (Suc i) xs))"
    using id_take_nth_drop [OF assms] by simp
  then show ?thesis using assms by (simp add: upd_conv_take_nth_drop)
qed

lemma tasks_ok_member:
  assumes "tasks_ok sent cs M" "(i, m) \<in># M"
  shows "i < length cs" "in_task (call_flow (cs ! i))" "message_for (call_kind (cs ! i)) m" "sent m" "message_process m = Submit"
proof -
  have "0 < count (image_mset fst M) i" using assms(2) by (force simp: count_greater_zero_iff)
  then show "i < length cs" "in_task (call_flow (cs ! i))" using assms(1) by (auto simp: tasks_ok_def split: if_splits)
qed (use assms in \<open>auto simp: tasks_ok_def\<close>)

lemma tasks_ok_event:
  assumes "tasks_ok sent cs M" "i < length cs" "call_kind c' = call_kind (cs ! i)" "\<not> in_task (call_flow (cs ! i))"
    and "list_all (\<lambda>c. \<not> in_task (call_flow c)) new"
    and "M' = M \<and> \<not> in_task (call_flow c') \<or>
      M' = add_mset (i, m) M \<and> in_task (call_flow c') \<and> sent m \<and> message_for (call_kind (cs ! i)) m \<and> message_process m = Submit"
  shows "tasks_ok sent (cs[i := c'] @ new) M'"
proof -
  have new: "\<not> in_task (call_flow (new ! (j - length cs)))" if "\<not> j < length cs" "j < length cs + length new" for j
    using assms(5) that by (simp add: list_all_length)
  have "count (image_mset fst M') j = (if j < length (cs[i := c'] @ new) \<and> in_task (call_flow ((cs[i := c'] @ new) ! j)) then 1 else 0)" for j
    using assms(1,2,4,6) new [of j] by (auto simp: tasks_ok_def nth_append nth_list_update)
  moreover have "message_for (call_kind ((cs[i := c'] @ new) ! j)) m' \<and> sent m' \<and> message_process m' = Submit" if "(j, m') \<in># M'" for j m'
    using that assms(2,3,6) tasks_ok_member [OF assms(1), of j m'] by (auto simp: nth_append nth_list_update)
  ultimately show ?thesis by (auto simp: tasks_ok_def)
qed

lemma tasks_ok_end:
  assumes "tasks_ok sent cs (add_mset (i, m) M)" "call_kind c' = call_kind (cs ! i)" "\<not> in_task (call_flow c')"
  shows "tasks_ok sent (cs[i := c']) M"
proof -
  have i: "i < length cs" using tasks_ok_member(1) [OF assms(1), of i m] by simp
  have "count (image_mset fst M) j = (if j < length cs \<and> in_task (call_flow (cs[i := c'] ! j)) then 1 else 0)" for j
  proof -
    have "count (image_mset fst (add_mset (i, m) M)) j = (if j < length cs \<and> in_task (call_flow (cs ! j)) then 1 else 0)"
      using assms(1) by (simp add: tasks_ok_def)
    then show ?thesis using assms(3) i by (cases "j = i") (auto split: if_splits)
  qed
  then show ?thesis using assms(1,2) i by (auto simp: tasks_ok_def nth_list_update)
qed

lemma end_task_ok:
  assumes "call_ok c" "in_task (call_flow c)" "end_for (call_kind c) e"
  shows "call_ok (end_task e c)" "call_kind (end_task e c) = call_kind c" "\<not> in_task (call_flow (end_task e c))"
    "\<not> waiting c" "\<not> waiting (end_task e c)" "\<not> deleted (call_flow (end_task e c))" "call_answers c = []"
proof -
  let ?n = "pending (call_flow c) + (if in_task (call_flow c) then 1 else 0) + (if deleted (call_flow c) then 1 else 0)"
  note ok = assms(1) [unfolded call_ok_def Let_def]
  have n: "?n = 1 \<or> ?n = 0" using conjunct1 [OF ok] by argo
  have st: "h_state (call_flow c) = (if call_kind c = Stream_upsert_handler then READ else CREATED)"
    and ans: "length (call_answers c) = (if h_state (call_flow c) = PROCESSED then 1 else 0)"
    using ok assms(2) by argo+
  have "h_state (call_flow c) \<noteq> PROCESSED" using st by (cases "call_kind c = Stream_upsert_handler") simp_all
  then have "call_answers c = []" using ans by simp
  moreover have "pending (call_flow c) = 0" "\<not> deleted (call_flow c)" using n assms(2) by (simp_all split: if_splits)
  ultimately have f: "pending (call_flow c) = 0" "\<not> deleted (call_flow c)" "call_answers c = []"
    "h_state (call_flow c) = (if call_kind c = Stream_upsert_handler then READ else CREATED)"
    using st by blast+
  then show "call_ok (end_task e c)" using assms(3)
    by (cases e) (simp_all add: call_ok_def end_task_def end_for_def Let_def)
  show "call_kind (end_task e c) = call_kind c" "\<not> in_task (call_flow (end_task e c))" "\<not> deleted (call_flow (end_task e c))"
    using f by (cases e; simp add: end_task_def Let_def)+
  show "call_answers c = []" by (rule f(3))
  show "\<not> waiting c" "\<not> waiting (end_task e c)" using f assms(3)
    by (simp_all add: waiting_def) (cases e; simp add: end_task_def end_for_def Let_def)
qed

lemma end_task_simps [simp]:
  "call_answers (end_task e c) = call_answers c @ (case e of Finished fs \<Rightarrow> fs | _ \<Rightarrow> [])"
  "call_status (end_task e c) = (if e = Reads_on then (OK, []) else call_status c)"
  by (cases e; simp add: end_task_def Let_def)+

lemma waiting_for_event:
  assumes "i < length cs" "call_kind c' = call_kind (cs ! i)" "\<not> waiting c'"
  shows "waiting_for k (cs[i := c'] @ (if waiting (cs ! i) then [call_new (call_kind (cs ! i))] else [])) = waiting_for k cs"
  using filter_update [OF assms(1), of "\<lambda>c. call_kind c = k \<and> waiting c" c'] assms(2,3)
  by (auto simp: waiting_for_def split: if_splits)

lemma list_all_update: "list_all P cs \<Longrightarrow> P c' \<Longrightarrow> list_all P (cs[i := c'])"
  using set_update_subset_insert [of cs i c'] by (auto simp: list_all_iff)

lemma event_inv:
  assumes "event_result sent i m d d' (calls d ! i) c' new" "dispatch_inv sent d" "i < length (calls d)"
  shows "dispatch_inv sent d'"
proof -
  let ?c = "calls d ! i"
  note r = assms(1) [unfolded event_result_def]
  have d': "calls d' = (calls d)[i := c'] @ new" "serving d' = serving d"
    using conjunct1 [OF r] by (metis dispatcher.select_convs dispatcher.surjective dispatcher.update_convs)+
  have new: "new = (if serving d \<and> waiting ?c then [call_new (call_kind ?c)] else [])" using r by blast
  have "list_all call_ok (calls d')"
    using assms(2) r by (auto simp: dispatch_inv_def d' new intro: list_all_update)
  moreover have "tasks_ok sent (calls d') (open_tasks (task_pool d'))"
    unfolding d'
  proof (rule tasks_ok_event)
    show "tasks_ok sent (calls d) (open_tasks (task_pool d))" using assms(2) by (simp add: dispatch_inv_def)
    show "open_tasks (task_pool d') = open_tasks (task_pool d) \<and> \<not> in_task (call_flow c') \<or>
      open_tasks (task_pool d') = add_mset (i, m) (open_tasks (task_pool d)) \<and> in_task (call_flow c') \<and>
        sent m \<and> message_for (call_kind ?c) m \<and> message_process m = Submit"
      using r open_tasks_submit by metis
  qed (use r assms(3) new in auto)
  moreover have "waiting_for k (calls d') = 1" if "serving d'" for k
    using waiting_for_event [OF assms(3), of c' k] assms(2) r that by (simp add: dispatch_inv_def d' new)
  moreover have "\<not> stopped (task_pool d') \<and> Exited \<notin> set (threads (task_pool d'))" if "serving d'"
  proof -
    have "stopped (task_pool d') = stopped (task_pool d) \<and> threads (task_pool d') = threads (task_pool d)"
      using r submit_keeps by metis
    then show ?thesis using assms(2) that by (simp add: dispatch_inv_def d')
  qed
  moreover have "list_all (\<lambda>c. deleted (call_flow c) \<longrightarrow> h_state (call_flow c) = PROCESSED) (calls d')" if "serving d'"
    using assms(2) r that by (auto simp: dispatch_inv_def d' new call_new_def handler_new_def intro: list_all_update)
  ultimately show ?thesis by (simp add: dispatch_inv_def)
qed

lemma task_inv:
  assumes "dispatch_inv sent d" "threads (task_pool d) ! w = Running (i, m)" "worker_finish w (task_pool d) = Some p"
    and "end_for (call_kind (calls d ! i)) e"
  shows "dispatch_inv sent (on_call i (end_task e) (d\<lparr>task_pool := p, store := db', done_tasks := l\<rparr>))"
proof -
  have o: "open_tasks (task_pool d) = add_mset (i, m) (open_tasks p)" by (rule open_tasks_finish [OF assms(3,2)])
  then have t: "tasks_ok sent (calls d) (add_mset (i, m) (open_tasks p))" using assms(1) by (simp add: dispatch_inv_def)
  have i: "i < length (calls d)" "in_task (call_flow (calls d ! i))" using tasks_ok_member [OF t, of i m] by simp_all
  then have "call_ok (calls d ! i)" using assms(1) by (simp add: dispatch_inv_def list_all_length)
  note e = end_task_ok [OF this i(2) assms(4)]
  have "tasks_ok sent ((calls d)[i := end_task e (calls d ! i)]) (open_tasks p)"
    by (rule tasks_ok_end [OF t e(2,3)])
  moreover have "waiting_for k ((calls d)[i := end_task e (calls d ! i)]) = waiting_for k (calls d)" for k
    using waiting_for_event [OF i(1) e(2,5), of k] e(4) by simp
  moreover have "\<not> stopped p \<and> Exited \<notin> set (threads p)" if "serving d"
    using assms(1,3) that by (auto simp: dispatch_inv_def elim!: worker_finishE dest!: subsetD [OF set_update_subset_insert])
  ultimately show ?thesis using assms(1) e(1,6) by (auto simp: dispatch_inv_def on_call_def intro: list_all_update)
qed

lemma work_inv:
  assumes "work_step lvs d d'" "dispatch_inv sent d" "\<And>m. sent m \<Longrightarrow> message_ok m"
  shows "dispatch_inv sent d'"
  using assms(1)
proof (cases rule: work_step.cases)
  case (wake w p)
  have "\<not> stopped p \<and> Exited \<notin> set (threads p)" if "serving d"
    using wake(2) assms(2) that by (auto simp: dispatch_inv_def elim!: worker_wakeE dest!: subsetD [OF set_update_subset_insert])
  then show ?thesis using wake(1) assms(2) open_tasks_wake [OF wake(2)] by (simp add: dispatch_inv_def)
next
  case (run_task w i m db' e p)
  have "(i, m) \<in># open_tasks (task_pool d)" using open_tasks_finish [OF run_task(5,3)] by simp
  then have "message_for (call_kind (calls d ! i)) m" "sent m" "message_process m = Submit"
    using assms(2) tasks_ok_member(3-5) unfolding dispatch_inv_def by blast+
  then show ?thesis using run_message_contract [OF run_task(4)] assms(3) task_inv [OF assms(2) run_task(3,5)] run_task(1) by blast
qed

lemma dispatch_inv_step:
  assumes "dispatch_step lvs sent d d'" "dispatch_inv sent d" "\<And>m. sent m \<Longrightarrow> message_ok m"
  shows "dispatch_inv sent d'"
  using assms(1)
proof (cases rule: dispatch_step.cases)
  case (event i ok m)
  then have "call_ok (calls d ! i)" using assms(2) by (simp add: dispatch_inv_def list_all_length)
  with event event_contract [OF event(4,1) refl event(2) _ event(3) assms(3)] event_inv [OF _ assms(2)] show ?thesis by blast
next
  case work
  then show ?thesis using work_inv [OF _ assms(2,3)] by blast
qed (use assms(2) in \<open>simp_all add: dispatch_inv_def\<close>)

lemma waiting_for_start: "waiting_for k init_rpc_handlers = 1"
  by (cases k) (simp_all add: waiting_for_def init_rpc_handlers_def)

lemma dispatch_inv_start: "dispatch_inv sent (dispatcher_start n db)"
proof -
  have "\<not> in_task (call_flow (init_rpc_handlers ! i))" if "i < length init_rpc_handlers" for i
    using that unfolding init_rpc_handlers_map length_map by (simp only: nth_map call_new_simps not_False_eq_True)
  then show ?thesis
    by (simp add: dispatch_inv_def dispatcher_start_def tasks_ok_def waiting_for_start, simp add: pool_new_def)
      (simp add: init_rpc_handlers_def, simp add: call_new_def handler_new_def)
qed

lemma dispatch_reach_inv:
  assumes "(dispatch_step lvs sent)\<^sup>*\<^sup>* (dispatcher_start n db) d" "\<And>m. sent m \<Longrightarrow> message_ok m"
  shows "dispatch_inv sent d"
  using assms(1) by (induction rule: rtranclp_induct) (auto intro: dispatch_inv_start dispatch_inv_step assms(2))

end
