(* ===== verification/Dispatch_Run.thy ===== *)
theory Dispatch_Run
  imports Dispatch
begin

text \<open>
  What the server of \<open>Dispatch\<close> has done in the states that it can reach: the finished tasks as a sequence of
  requests to the database, the answers, their types, and how the open calls come to their end.
\<close>

subsection \<open>What has happened so far\<close>

text \<open>The recorded tasks run again one after the other, with the same results.\<close>

fun replay ::
  "(string \<Rightarrow> string \<Rightarrow> id_t \<Rightarrow> nat) \<Rightarrow> (nat \<times> message \<times> task_end) list \<Rightarrow> database \<Rightarrow> database option" where
  "replay lvs [] db = Some db"
| "replay lvs ((i, m, e) # l) db =
     (case run_message lvs m db of Returns (db', e') \<Rightarrow> if e' = e then replay lvs l db' else None | _ \<Rightarrow> None)"

text \<open>
  The same for the abstract database: each task is at most one request (\<open>None\<close>: it changed nothing), and
  its status is the one of this request.
\<close>

fun explained_by ::
  "(nat \<times> message \<times> task_end) list \<Rightarrow> request option list \<Rightarrow> abstract_db \<Rightarrow> abstract_db option" where
  "explained_by [] [] a = Some a"
| "explained_by (t # l) (None # rs) a = explained_by l rs a"
| "explained_by ((i, m, e) # l) (Some r # rs) a =
     (if end_status e = Some (status_to_grpc_status (snd (spec_step r a))) then explained_by l rs (fst (spec_step r a)) else None)"
| "explained_by _ _ a = None"

lemma replay_append: "replay lvs (l @ l') db = (case replay lvs l db of None \<Rightarrow> None | Some db' \<Rightarrow> replay lvs l' db')"
  by (induction lvs l db rule: replay.induct) (auto split: outcome.split prod.split)

lemma replay_explained:
  assumes "replay lvs l db = Some db'" "server_wf db"
    and "\<And>i m e. (i, m, e) \<in> set l \<Longrightarrow> message_ok m \<and> message_process m = Submit \<and> (\<exists>k. message_for k m)"
  shows "server_wf db' \<and> (\<exists>rs. list_all (\<lambda>r. case r of None \<Rightarrow> True | Some r \<Rightarrow> from_call r) rs \<and>
    explained_by l rs (abs_db db) = Some (abs_db db'))"
  using assms
proof (induction l arbitrary: db)
  case Nil
  then show ?case by (auto intro: exI [of _ "[]"])
next
  case (Cons t l)
  obtain i m e where t: "t = (i, m, e)" by (cases t)
  obtain db1 where r: "run_message lvs m db = Returns (db1, e)" "replay lvs l db1 = Some db'"
    using Cons.prems(1) t by (auto split: outcome.splits if_splits)
  have one: "one_request lvs db db1 e" using run_message_contract [OF r(1)] Cons.prems(3) [of i m e] t by auto
  have wf: "server_wf db1" using one_request_wf [OF one Cons.prems(2)] .
  have p: "message_ok m \<and> message_process m = Submit \<and> (\<exists>k. message_for k m)" if "(i, m, e) \<in> set l" for i m e
    using Cons.prems(3) [of i m e] that by simp
  have "server_wf db' \<and> (\<exists>rs. list_all (\<lambda>r. case r of None \<Rightarrow> True | Some r \<Rightarrow> from_call r) rs \<and>
      explained_by l rs (abs_db db1) = Some (abs_db db'))"
    by (rule Cons.IH [OF r(2) wf]) (rule p)
  then obtain rs where rs: "server_wf db'" "list_all (\<lambda>r. case r of None \<Rightarrow> True | Some r \<Rightarrow> from_call r) rs"
    "explained_by l rs (abs_db db1) = Some (abs_db db')" by blast
  from one consider "db1 = db" | q s where "from_call q" "db_step lvs q db = Returns (db1, s)"
    "end_status e = Some (status_to_grpc_status s)" by (auto simp: one_request_def)
  then show ?case
  proof cases
    case 1
    then show ?thesis using rs t by (intro conjI exI [of _ "None # rs"]) auto
  next
    case (2 q s)
    have "spec_step q (abs_db db) = (abs_db db1, s)"
      using db_step_wf [OF _ _ 2(2)] Cons.prems(2) 2(1) by (simp add: server_wf_def from_call_def)
    then show ?thesis using rs t 2 by (intro conjI exI [of _ "Some q # rs"]) auto
  qed
qed

text \<open>Every recorded result was delivered, and every answer is recorded or the handler's own.\<close>

definition history_ok :: "(message \<Rightarrow> bool) \<Rightarrow> dispatcher \<Rightarrow> bool" where
  "history_ok sent d \<longleftrightarrow>
     (\<forall>(i, m, e) \<in> set (done_tasks d).
        i < length (calls d) \<and> message_for (call_kind (calls d ! i)) m \<and> sent m \<and> message_process m = Submit \<and>
        (\<forall>fs. e = Finished fs \<longrightarrow> call_answers (calls d ! i) = fs \<and> fs \<noteq> [])) \<and>
     (\<forall>i < length (calls d).
        call_status (calls d ! i) = (if \<exists>m. (i, m, Reads_on) \<in> set (done_tasks d) then (OK, []) else internal) \<and>
        (\<forall>a \<in> set (call_answers (calls d ! i)). (\<exists>m. (i, m, Finished [a]) \<in> set (done_tasks d)) \<or> own_answer sent (calls d ! i) a))"

lemma own_answer_cong: "call_kind c' = call_kind c \<Longrightarrow> call_status c' = call_status c \<Longrightarrow> own_answer sent c' a = own_answer sent c a"
  by (simp add: own_answer_def)

lemma event_history:
  assumes "event_result sent i m d d' (calls d ! i) c' new" "history_ok sent d" "i < length (calls d)"
  shows "history_ok sent d' \<and> store d' = store d \<and> done_tasks d' = done_tasks d"
proof -
  let ?c = "calls d ! i"
  note r = assms(1) [unfolded event_result_def]
  have d': "calls d' = (calls d)[i := c'] @ new" "done_tasks d' = done_tasks d" "store d' = store d"
    using conjunct1 [OF r] by (metis dispatcher.select_convs dispatcher.surjective dispatcher.update_convs)+
  have c': "call_kind c' = call_kind ?c" "call_status c' = call_status ?c"
    "call_answers c' = call_answers ?c \<or> (\<exists>a. call_answers ?c = [] \<and> call_answers c' = [a] \<and> own_answer sent ?c a)" using r by blast+
  have new: "call_status (new ! j) = internal \<and> call_answers (new ! j) = []" if "j < length new" for j
    using r that by (auto split: if_splits)
  have old: "call_kind (calls d' ! j) = call_kind (calls d ! j)" "call_status (calls d' ! j) = call_status (calls d ! j)"
    "call_answers (calls d' ! j) = call_answers (calls d ! j) \<or>
      (\<exists>a. call_answers (calls d ! j) = [] \<and> call_answers (calls d' ! j) = [a] \<and> own_answer sent (calls d ! j) a)"
    if "j < length (calls d)" for j
    using c' that assms(3) by (auto simp: d' nth_append nth_list_update)
  have unrecorded: "(j, m', e) \<notin> set (done_tasks d)" if "\<not> j < length (calls d)" for j m' e
    using assms(2) that by (auto simp: history_ok_def)
  have "j < length (calls d') \<and> message_for (call_kind (calls d' ! j)) m' \<and> sent m' \<and> message_process m' = Submit \<and>
      (\<forall>fs. e = Finished fs \<longrightarrow> call_answers (calls d' ! j) = fs \<and> fs \<noteq> [])" if "(j, m', e) \<in> set (done_tasks d)" for j m' e
    using assms(2) that old [of j] by (fastforce simp: history_ok_def d'(1))
  moreover have "call_status (calls d' ! j) = (if \<exists>m. (j, m, Reads_on) \<in> set (done_tasks d) then (OK, []) else internal) \<and>
      (\<forall>a \<in> set (call_answers (calls d' ! j)). (\<exists>m. (j, m, Finished [a]) \<in> set (done_tasks d)) \<or> own_answer sent (calls d' ! j) a)"
    if j: "j < length (calls d')" for j
  proof (cases "j < length (calls d)")
    case True
    then show ?thesis using assms(2) old [OF True] own_answer_cong [OF old(1,2) [OF True]]
      by (fastforce simp: history_ok_def)
  next
    case False
    then show ?thesis using new [of "j - length (calls d)"] unrecorded [OF False] j by (simp add: d'(1) nth_append)
  qed
  ultimately show ?thesis using d'(2,3) by (auto simp: history_ok_def)
qed

lemma task_history:
  assumes "history_ok sent d" "dispatch_inv sent d" "(i, m) \<in># open_tasks (task_pool d)" "end_for (call_kind (calls d ! i)) e"
  shows "history_ok sent (on_call i (end_task e) (d\<lparr>task_pool := p, store := db', done_tasks := done_tasks d @ [(i, m, e)]\<rparr>))"
    (is "history_ok sent ?d")
proof -
  have t: "tasks_ok sent (calls d) (open_tasks (task_pool d))" using assms(2) by (simp add: dispatch_inv_def)
  note m = tasks_ok_member [OF t assms(3)]
  have "call_ok (calls d ! i)" using assms(2) m(1) by (simp add: dispatch_inv_def list_all_length)
  note e = end_task_ok [OF this m(2) assms(4)]
  have d': "calls ?d = (calls d)[i := end_task e (calls d ! i)]" "done_tasks ?d = done_tasks d @ [(i, m, e)]"
    by (simp_all add: on_call_def)
  have nf: "(i, m', Finished fs) \<notin> set (done_tasks d)" for m' fs
    using assms(1) e(7) by (auto simp: history_ok_def)
  have k: "call_kind (calls ?d ! j) = call_kind (calls d ! j)" for j
    using e(2) m(1) by (cases "j = i") (simp_all add: d')
  have a: "call_answers (calls ?d ! j) = (if j = i then (case e of Finished fs \<Rightarrow> fs | _ \<Rightarrow> []) else call_answers (calls d ! j))" for j
    using e(7) m(1) by (simp add: d')
  have "j < length (calls ?d) \<and> message_for (call_kind (calls ?d ! j)) m' \<and> sent m' \<and> message_process m' = Submit \<and>
      (\<forall>fs. e' = Finished fs \<longrightarrow> call_answers (calls ?d ! j) = fs \<and> fs \<noteq> [])" if "(j, m', e') \<in> set (done_tasks ?d)" for j m' e'
  proof (cases "(j, m', e') \<in> set (done_tasks d)")
    case True
    then show ?thesis using assms(1) nf a [of j] k [of j] by (fastforce simp: history_ok_def d'(1))
  next
    case False
    then show ?thesis using that m e(2,7) assms(4) by (auto simp: on_call_def end_for_def)
  qed
  moreover have "call_status (calls ?d ! j) = (if \<exists>m. (j, m, Reads_on) \<in> set (done_tasks ?d) then (OK, []) else internal) \<and>
      (\<forall>b \<in> set (call_answers (calls ?d ! j)). (\<exists>m. (j, m, Finished [b]) \<in> set (done_tasks ?d)) \<or> own_answer sent (calls ?d ! j) b)"
    if j: "j < length (calls ?d)" for j
  proof (cases "j = i")
    case True
    have "call_status (calls d ! i) = (if \<exists>m. (i, m, Reads_on) \<in> set (done_tasks d) then (OK, []) else internal)"
      using assms(1) m(1) by (simp add: history_ok_def)
    moreover have "\<forall>b \<in> set (call_answers (calls ?d ! i)). e = Finished [b]"
      using a [of i] assms(4) by (cases e) (auto simp: end_for_def length_Suc_conv)
    ultimately show ?thesis using True m(1) by (auto simp: d')
  next
    case False
    then show ?thesis using assms(1) j by (auto simp: history_ok_def d')
  qed
  ultimately show ?thesis unfolding history_ok_def by blast
qed

lemma dispatch_history_step:
  assumes "dispatch_step lvs sent d d'" "dispatch_inv sent d" "\<And>m. sent m \<Longrightarrow> message_ok m"
    and "history_ok sent d" "replay lvs (done_tasks d) db0 = Some (store d)"
  shows "history_ok sent d' \<and> replay lvs (done_tasks d') db0 = Some (store d')"
  using assms(1)
proof (cases rule: dispatch_step.cases)
  case (event i ok m)
  then have "call_ok (calls d ! i)" using assms(2) by (simp add: dispatch_inv_def list_all_length)
  then obtain c' new where "event_result sent i m d d' (calls d ! i) c' new"
    using event_contract [OF event(4,1) refl event(2) _ event(3) assms(3)] by blast
  then show ?thesis using event_history [OF _ assms(4) event(1)] assms(5) by metis
next
  case work
  then show ?thesis
  proof (cases rule: work_step.cases)
    case (run_task w i m db' e p)
    have o: "(i, m) \<in># open_tasks (task_pool d)" using open_tasks_finish [OF run_task(5,3)] by simp
    then have "message_for (call_kind (calls d ! i)) m" "sent m" "message_process m = Submit"
      using assms(2) tasks_ok_member(3-5) unfolding dispatch_inv_def by blast+
    then have "end_for (call_kind (calls d ! i)) e" using run_message_contract [OF run_task(4)] assms(3) by blast
    from task_history [OF assms(4,2) o this] show ?thesis using assms(5) run_task(1,4) by (simp add: replay_append on_call_def)
  qed (use assms(4,5) in \<open>simp add: history_ok_def\<close>)
qed (use assms(4,5) in \<open>simp_all add: history_ok_def\<close>)

lemma history_start: "history_ok sent (dispatcher_start n db)"
proof -
  have "call_status (init_rpc_handlers ! i) = internal \<and> call_answers (init_rpc_handlers ! i) = []" if "i < length init_rpc_handlers" for i
    using that unfolding init_rpc_handlers_map length_map by (simp only: nth_map call_new_simps)
  then show ?thesis by (simp add: history_ok_def dispatcher_start_def)
qed

lemma dispatch_reach_history:
  assumes "(dispatch_step lvs sent)\<^sup>*\<^sup>* (dispatcher_start n db) d" "\<And>m. sent m \<Longrightarrow> message_ok m"
  shows "history_ok sent d \<and> replay lvs (done_tasks d) db = Some (store d)"
  using assms(1)
proof (induction rule: rtranclp_induct)
  case base
  then show ?case by (simp add: history_start) (simp add: dispatcher_start_def)
next
  case (step d d')
  then show ?case using dispatch_history_step [OF step.hyps(2) dispatch_reach_inv [OF step.hyps(1) assms(2)] assms(2)] by blast
qed

lemma reach_store:
  assumes "(dispatch_step lvs sent)\<^sup>*\<^sup>* (dispatcher_start n db) d" "\<And>m. sent m \<Longrightarrow> message_ok m" "server_wf db"
  shows "server_wf (store d) \<and> (\<exists>rs. list_all (\<lambda>r. case r of None \<Rightarrow> True | Some r \<Rightarrow> from_call r) rs \<and>
    explained_by (done_tasks d) rs (abs_db db) = Some (abs_db (store d)))"
  using dispatch_reach_history [OF assms(1,2)] assms(2) by (intro replay_explained [OF _ assms(3)]) (auto simp: history_ok_def)

lemma calls_one_answer:
  assumes "dispatch_inv sent d" "c \<in> set (calls d)"
  shows "length (call_answers c) = (if h_state (call_flow c) = PROCESSED then 1 else 0)"
proof -
  have "call_ok c" using assms by (simp add: dispatch_inv_def list_all_iff)
  then show ?thesis unfolding call_ok_def Let_def by argo
qed

subsection \<open>A sample run\<close>

text \<open>One call, before and after its task; the pool has one thread.\<close>

definition sample_message :: message where
  "sample_message = Unary (Create_collection_request ''c'' 3)"

definition sample_queued :: dispatcher where
  "sample_queued =
     \<lparr>calls = (init_rpc_handlers)[0 := \<lparr>call_kind = Create_collection_handler,
          call_flow = \<lparr>h_state = CREATED, pending = 0, in_task = True, deleted = False\<rparr>, call_status = internal, call_answers = []\<rparr>] @
        [call_new Create_collection_handler],
      task_pool = \<lparr>tasks = [(0, sample_message)], stopped = False, threads = [Idle], accepted = [(0, sample_message)], started = []\<rparr>,
      store = database_new, done_tasks = [], serving = True\<rparr>"

definition sample_answered :: dispatcher where
  "sample_answered =
     \<lparr>calls = (init_rpc_handlers)[0 := \<lparr>call_kind = Create_collection_handler,
          call_flow = \<lparr>h_state = PROCESSED, pending = 1, in_task = False, deleted = False\<rparr>, call_status = internal,
          call_answers = [(Empty_response, (OK, []))]\<rparr>] @ [call_new Create_collection_handler],
      task_pool = \<lparr>tasks = [], stopped = False, threads = [Idle], accepted = [(0, sample_message)], started = [(0, sample_message)]\<rparr>,
      store = \<lparr>collections = [(''c'', collection_new 3 ''c'')]\<rparr>,
      done_tasks = [(0, sample_message, Finished [(Empty_response, (OK, []))])], serving = True\<rparr>"

lemma sample_message_ok: "message_ok sample_message"
  by (simp add: sample_message_def message_ok_def rpc_known_def finishes_once_def create_collection_process_def)

lemma sample_task:
  "run_message lvs sample_message database_new =
     Returns (\<lparr>collections = [(''c'', collection_new 3 ''c'')]\<rparr>, Finished [(Empty_response, (OK, []))])"
  by (simp add: sample_message_def create_collection_task_def add_collection_def database_new_def
        is_collection_name_valid_def isalnum_def status_to_grpc_status_def map_emplace_def)

lemma sample_queued_reached: "(dispatch_step lvs ((=) sample_message))\<^sup>*\<^sup>* (dispatcher_start 1 database_new) sample_queued"
proof (rule r_into_rtranclp, rule dispatch_step.event [of 0 _ _ True sample_message])
  show "call_event 0 True sample_message (dispatcher_start 1 database_new) = Returns sample_queued"
    by (simp add: event_eval sample_message_def run_flow_def process_effects_def create_collection_process_def
        dispatcher_start_def init_rpc_handlers_def sample_queued_def pool_submit_def pool_new_def max_queue_size_def
        call_new_def handler_new_def)
qed (simp_all add: dispatcher_start_def init_rpc_handlers_def event_fits_def sample_message_def,
    simp_all add: call_new_def handler_new_def)

lemma sample_answered_reached: "(dispatch_step lvs ((=) sample_message))\<^sup>*\<^sup>* (dispatcher_start 1 database_new) sample_answered"
proof -
  let ?p = "\<lparr>tasks = [], stopped = False, threads = [Running (0, sample_message)], accepted = [(0, sample_message)],
      started = [(0, sample_message)]\<rparr>"
  let ?d = "sample_queued\<lparr>task_pool := ?p\<rparr>"
  have "work_step lvs sample_queued ?d"
    by (rule work_step.wake [of 0]) (simp add: worker_wake_def sample_queued_def)
  moreover have "work_step lvs ?d (on_call 0 (end_task (Finished [(Empty_response, (OK, []))]))
      (?d\<lparr>task_pool := ?p\<lparr>threads := [Idle]\<rparr>, store := \<lparr>collections = [(''c'', collection_new 3 ''c'')]\<rparr>,
        done_tasks := done_tasks ?d @ [(0, sample_message, Finished [(Empty_response, (OK, []))])]\<rparr>))"
  proof (rule work_step.run_task [of 0])
    show "run_message lvs sample_message (store ?d) =
        Returns (\<lparr>collections = [(''c'', collection_new 3 ''c'')]\<rparr>, Finished [(Empty_response, (OK, []))])"
      using sample_task by (simp add: sample_queued_def)
  qed (simp_all add: worker_finish_def)
  moreover have "on_call 0 (end_task (Finished [(Empty_response, (OK, []))]))
      (?d\<lparr>task_pool := ?p\<lparr>threads := [Idle]\<rparr>, store := \<lparr>collections = [(''c'', collection_new 3 ''c'')]\<rparr>,
        done_tasks := done_tasks ?d @ [(0, sample_message, Finished [(Empty_response, (OK, []))])]\<rparr>) = sample_answered"
    by (simp add: on_call_def end_task_def sample_queued_def sample_answered_def init_rpc_handlers_def Let_def)
  ultimately show ?thesis using sample_queued_reached [of lvs]
    by (metis dispatch_step.work rtranclp.rtrancl_into_rtrancl)
qed

subsection \<open>Properties\<close>







text \<open>
  C6. What the server holds is well-typed in every state it can reach: a task in the pool is a message for its
  handler, an answer is a response of the type of its call, and in the database each collection has a valid
  name and a positive dimension, its vectors have that dimension, and no index has the empty name.
\<close>

theorem server_well_typed:
  assumes "\<And>m. sent m \<Longrightarrow> message_ok m" "(dispatch_step lvs sent)\<^sup>*\<^sup>* (dispatcher_start n db) d" "server_wf db"
  shows "(\<forall>(i, m) \<in># open_tasks (task_pool d). i < length (calls d) \<and> message_for (call_kind (calls d ! i)) m) \<and>
    (\<forall>c \<in> set (calls d). \<forall>a \<in> set (call_answers c). response_for (call_kind c) (fst a)) \<and>
    (\<forall>x c. map_of (collections (store d)) x = Some c \<longrightarrow>
      is_collection_name_valid x = success \<and> 0 < sint (col_dim c) \<and>
      list_all (\<lambda>p. fv_dim (snd p) = col_dim c \<and> length (floats (snd p)) = unat (col_dim c)) (vectors (col_table c)) \<and>
      distinct (keys_of (vectors (col_table c))) \<and> [] \<notin> set (keys_of (col_indices c)))"
proof -
  have inv: "dispatch_inv sent d" by (rule dispatch_reach_inv [OF assms(2,1)])
  then have "\<forall>(i, m) \<in># open_tasks (task_pool d). i < length (calls d) \<and> message_for (call_kind (calls d ! i)) m"
    using tasks_ok_member by (fastforce simp: dispatch_inv_def)
  moreover have "response_for (call_kind c) (fst a)" if "c \<in> set (calls d)" "a \<in> set (call_answers c)" for c a
    using inv that by (simp add: dispatch_inv_def list_all_iff call_ok_def Let_def)
  moreover have "server_wf (store d)" using reach_store [OF assms(2,1,3)] by blast
  ultimately show ?thesis using server_wf_content by blast
qed

theorem server_well_typed_witness:
  "is_collection_name_valid ''c'' = success \<and> 0 < sint (col_dim (collection_new 3 ''c'')) \<and>
   response_for (call_kind (calls sample_answered ! 0)) Empty_response"
proof -
  have "server_wf database_new" by (simp add: server_wf_def db_wf_def database_new_def)
  note t = server_well_typed [of "(=) sample_message" "\<lambda>_ _ _. 0", OF _ sample_answered_reached this]
  then have "map_of (collections (store sample_answered)) ''c'' = Some (collection_new 3 ''c'') \<longrightarrow>
      is_collection_name_valid ''c'' = success \<and> 0 < sint (col_dim (collection_new 3 ''c''))"
    using sample_message_ok by blast
  moreover have "response_for (call_kind (calls sample_answered ! 0)) (fst (Empty_response, (OK, [] :: string)))"
    using t sample_message_ok by (auto simp: sample_answered_def init_rpc_handlers_def)
  ultimately show ?thesis by (simp add: sample_answered_def)
qed

subsection \<open>All open calls get their answer\<close>

definition work_weight :: "dispatcher \<Rightarrow> nat" where
  "work_weight d =
     2 * length (tasks (task_pool d)) + length (filter (\<lambda>t. case t of Running r \<Rightarrow> True | _ \<Rightarrow> False) (threads (task_pool d)))"

text \<open>The pool serves, and what the tasks in it need holds.\<close>

definition at_work :: "(database \<Rightarrow> bool) \<Rightarrow> (nat \<times> message) set \<Rightarrow> dispatcher \<Rightarrow> bool" where
  "at_work P M d \<longleftrightarrow>
     \<not> stopped (task_pool d) \<and> Exited \<notin> set (threads (task_pool d)) \<and> threads (task_pool d) \<noteq> [] \<and> P (store d) \<and>
     set_mset (open_tasks (task_pool d)) \<subseteq> M"

lemma work_step_weight:
  assumes "work_step lvs d d'" "at_work P M d"
    and "\<And>i m db. (i, m) \<in> M \<Longrightarrow> P db \<Longrightarrow> \<exists>db' e. run_message lvs m db = Returns (db', e) \<and> P db'"
  shows "at_work P M d' \<and> Suc (work_weight d') = work_weight d"
  using assms(1)
proof (cases rule: work_step.cases)
  case (wake w p)
  from wake(2) show ?thesis
  proof (cases rule: worker_wakeE)
    case (take t ts)
    have "at_work P M d'" using assms(2) take wake(1) open_tasks_wake [OF wake(2)]
      by (auto simp: at_work_def dest!: subsetD [OF set_update_subset_insert])
    then show ?thesis using take wake(1) filter_update [of w "threads (task_pool d)" "\<lambda>t. case t of Running r \<Rightarrow> True | _ \<Rightarrow> False" "Running t"]
      by (simp add: work_weight_def)
  qed (use assms(2) in \<open>simp add: at_work_def\<close>)
next
  case (run_task w i m db' e p)
  have o: "open_tasks (task_pool d) = add_mset (i, m) (open_tasks p)" by (rule open_tasks_finish [OF run_task(5,3)])
  then have "(i, m) \<in> M" using assms(2) by (auto simp: at_work_def)
  then have "P db'" using assms(2,3) run_task(4) by (fastforce simp: at_work_def)
  moreover from run_task(5) have "p = (task_pool d)\<lparr>threads := (threads (task_pool d))[w := Idle]\<rparr>" by (auto elim!: worker_finishE)
  ultimately show ?thesis
    using assms(2) run_task(1-3) o filter_update [of w "threads (task_pool d)" "\<lambda>t. case t of Running r \<Rightarrow> True | _ \<Rightarrow> False" Idle]
    by (auto simp: at_work_def work_weight_def on_call_def dest!: subsetD [OF set_update_subset_insert])
qed

lemma work_weight_zero: "Exited \<notin> set (threads (task_pool d)) \<Longrightarrow> work_weight d = 0 \<longleftrightarrow> open_tasks (task_pool d) = {#}"
  by (auto simp: work_weight_def open_tasks_def unanswered_def filter_empty_conv split: thread.splits)

lemma work_progress:
  assumes "at_work P M d" "open_tasks (task_pool d) \<noteq> {#}"
    and "\<And>i m db. (i, m) \<in> M \<Longrightarrow> P db \<Longrightarrow> \<exists>db' e. run_message lvs m db = Returns (db', e) \<and> P db'"
  shows "\<exists>d'. work_step lvs d d'"
proof -
  let ?p = "task_pool d"
  have th: "0 < length (threads ?p)" "threads ?p ! 0 \<noteq> Exited"
    using assms(1) by (auto simp: at_work_def in_set_conv_nth)
  show ?thesis
  proof (cases "\<exists>w i m. w < length (threads ?p) \<and> threads ?p ! w = Running (i, m)")
    case True
    then obtain w i m where w: "w < length (threads ?p)" "threads ?p ! w = Running (i, m)" by blast
    then have f: "worker_finish w ?p = Some (?p\<lparr>threads := (threads ?p)[w := Idle]\<rparr>)" by (simp add: worker_finish_def)
    have "(i, m) \<in> M" using open_tasks_finish [OF f w(2)] assms(1) by (auto simp: at_work_def)
    then obtain db' e where "run_message lvs m (store d) = Returns (db', e)" using assms(1,3) by (meson at_work_def)
    then show ?thesis using work_step.run_task [OF w _ f] by blast
  next
    case False
    have idle: "t = Idle" if "t \<in> set (threads ?p)" for t
      using False assms(1) that by (cases t) (auto simp: at_work_def in_set_conv_nth)
    then have "tasks ?p \<noteq> []" using assms(2) by (auto simp: open_tasks_def unanswered_def dest!: idle)
    then have "\<exists>q. worker_wake 0 ?p = Some q"
      using th idle [OF nth_mem [OF th(1)]] assms(1) by (auto simp: worker_wake_def at_work_def neq_Nil_conv)
    then show ?thesis using work_step.wake by blast
  qed
qed

lemma threads_start: "(dispatch_step lvs sent)\<^sup>*\<^sup>* (dispatcher_start n db) d \<Longrightarrow> length (threads (task_pool d)) = n"
proof (induction rule: rtranclp_induct)
  case (step d d')
  from step.hyps(2) show ?case
  proof (cases rule: dispatch_step.cases)
    case (event i ok m)
    have "length (threads (task_pool d2)) = length (threads (task_pool d1))"
      if "fold_outcome (call_effect i m) es d1 = Returns d2" for es d1 d2
      using that
      by (induction es arbitrary: d1) (auto simp: run call_effect_def on_call_def dest: submit_keeps split: effect.splits)
    then show ?thesis using event(4) step.IH by (auto simp: call_event_def on_call_def Let_def split: prod.splits)
  next
    case work
    then show ?thesis using step.IH by cases (auto elim!: worker_wakeE worker_finishE simp: on_call_def)
  qed (use step.IH in \<open>auto simp: pool_stop_def\<close>)
qed (simp add: dispatcher_start_def pool_new_def)

text \<open>A unary call whose task was open has its answer, or its task is still open.\<close>

definition open_or_answered :: "(nat \<times> message) multiset \<Rightarrow> dispatcher \<Rightarrow> bool" where
  "open_or_answered M d \<longleftrightarrow>
     (\<forall>(i, m) \<in># M. (i, m) \<in># open_tasks (task_pool d) \<or> (case m of Unary req \<Rightarrow> call_answers (calls d ! i) \<noteq> [] | Part n vs \<Rightarrow> True))"

lemma open_or_answered_step:
  assumes "work_step lvs d d'" "open_or_answered M d" "dispatch_inv sent d" "\<And>m. sent m \<Longrightarrow> message_ok m"
  shows "open_or_answered M d'"
  using assms(1)
proof (cases rule: work_step.cases)
  case (wake w p)
  then show ?thesis using assms(2) open_tasks_wake [OF wake(2)] by (auto simp: open_or_answered_def split: message.splits)
next
  case (run_task w i m db' e p)
  have o: "open_tasks (task_pool d) = add_mset (i, m) (open_tasks p)" by (rule open_tasks_finish [OF run_task(5,3)])
  then have t: "tasks_ok sent (calls d) (add_mset (i, m) (open_tasks p))" using assms(3) by (simp add: dispatch_inv_def)
  note m = tasks_ok_member [OF t, of i m, simplified]
  have e: "end_for (call_kind (calls d ! i)) e" using run_message_contract [OF run_task(4)] m assms(4) by blast
  have "call_answers (calls d' ! i) \<noteq> []" if u: "m = Unary req" for req
  proof -
    obtain fs where fs: "e = Finished fs" using run_task(4) unfolding u by (auto simp: run)
    then have "fs \<noteq> []" using e by (auto simp: end_for_def)
    with fs show ?thesis using m(1) by (simp add: run_task(1) on_call_def)
  qed
  moreover have "call_answers (calls d' ! j) \<noteq> []" if "call_answers (calls d ! j) \<noteq> []" for j
    using that by (cases "j = i"; cases "j < length (calls d)") (simp_all add: run_task(1) on_call_def list_update_beyond)
  ultimately have "(j, m') \<in># open_tasks p \<or> (case m' of Unary req \<Rightarrow> call_answers (calls d' ! j) \<noteq> [] | Part n vs \<Rightarrow> True)"
    if "(j, m') \<in># M" for j m'
    using assms(2) that o by (fastforce simp: open_or_answered_def split: message.splits)
  moreover have "task_pool d' = p" by (simp add: run_task(1) on_call_def)
  ultimately show ?thesis unfolding open_or_answered_def by auto
qed

lemma work_run:
  assumes "(work_step lvs ^^ k) d t" "at_work P M d"
    and "\<And>i m db. (i, m) \<in> M \<Longrightarrow> P db \<Longrightarrow> \<exists>db' e. run_message lvs m db = Returns (db', e) \<and> P db'"
  shows "at_work P M t \<and> work_weight t + k = work_weight d"
  using assms(1)
proof (induction k arbitrary: t)
  case (Suc k)
  then obtain u where u: "(work_step lvs ^^ k) d u" "work_step lvs u t" by auto
  show ?case using Suc.IH [OF u(1)] work_step_weight [OF u(2) _ assms(3)] by fastforce
qed (use assms(2) in simp)

lemma work_run_reaches:
  assumes "(work_step lvs ^^ k) d t" "(dispatch_step lvs sent)\<^sup>*\<^sup>* (dispatcher_start n db) d" "\<And>m. sent m \<Longrightarrow> message_ok m"
  shows "(dispatch_step lvs sent)\<^sup>*\<^sup>* (dispatcher_start n db) t \<and> open_or_answered (open_tasks (task_pool d)) t \<and>
    length (calls t) = length (calls d)"
  using assms(1)
proof (induction k arbitrary: t)
  case (Suc k)
  then obtain u where u: "(work_step lvs ^^ k) d u" "work_step lvs u t" by auto
  have u': "(dispatch_step lvs sent)\<^sup>*\<^sup>* (dispatcher_start n db) u" "open_or_answered (open_tasks (task_pool d)) u"
    "length (calls u) = length (calls d)" using Suc.IH [OF u(1)] by blast+
  have "dispatch_inv sent u" by (rule dispatch_reach_inv [OF u'(1) assms(3)])
  moreover have "length (calls t) = length (calls u)" using u(2) by (auto elim!: work_step.cases simp: on_call_def)
  ultimately show ?case
    using open_or_answered_step [OF u(2) u'(2) _ assms(3)] rtranclp.rtrancl_into_rtrancl [OF u'(1) dispatch_step.work [OF u(2)]] u'(3)
    by simp
qed (use assms(2) in \<open>auto simp: open_or_answered_def\<close>)



end
