(* ===== verification/Dispatch_Life.thy ===== *)
theory Dispatch_Life
  imports Dispatch_Run
begin

text \<open>
  The two models of the server side by side. \<open>Server_Life\<close> has the life of the server from its start to the end of
  \<^verbatim>\<open>shutdown\<close> and runs a call as one request; \<open>Dispatch\<close> has the handlers, their events and states. Each run of
  the handlers is a run of the server that \<open>Server_Life\<close> describes, as long as only unary calls are made.
\<close>

subsection \<open>Handlers forgotten\<close>

primrec request_of :: "message \<Rightarrow> rpc_request" where
  "request_of (Unary req) = req"
| "request_of (Part n vs) = Upsert_request n vs"

definition pool_map :: "('a \<Rightarrow> 'b) \<Rightarrow> 'a pool \<Rightarrow> 'b pool" where
  "pool_map f p =
     \<lparr>tasks = map f (tasks p), stopped = stopped p, threads = map (map_thread f) (threads p),
       accepted = map f (accepted p), started = map f (started p)\<rparr>"

lemma pool_map_simps [simp]:
  "tasks (pool_map f p) = map f (tasks p)" "stopped (pool_map f p) = stopped p"
  "threads (pool_map f p) = map (map_thread f) (threads p)" "pool_map f (pool_new n) = pool_new n"
  "pool_map f (pool_stop p) = pool_stop (pool_map f p)"
  by (simp_all add: pool_map_def pool_new_def pool_stop_def)

lemma pool_map_submit: "pool_submit x p = Returns q \<Longrightarrow> pool_submit (f x) (pool_map f p) = Returns (pool_map f q)"
  by (auto simp: pool_submit_def pool_map_def split: if_splits)

lemma pool_map_wake: "worker_wake w p = Some q \<Longrightarrow> worker_wake w (pool_map f p) = Some (pool_map f q)"
  by (erule worker_wakeE) (simp_all add: worker_wake_def pool_map_def map_update)

lemma pool_map_finish: "worker_finish w p = Some q \<Longrightarrow> worker_finish w (pool_map f p) = Some (pool_map f q)"
  by (erule worker_finishE) (simp add: worker_finish_def pool_map_def map_update)

text \<open>The answers of the unary calls, in no order.\<close>

definition answers_of :: "call \<Rightarrow> finish multiset" where
  "answers_of c = (if call_kind c = Stream_upsert_handler then {#} else mset (call_answers c))"

definition unary_answers :: "call list \<Rightarrow> finish multiset" where
  "unary_answers cs = (\<Sum>c\<leftarrow>cs. answers_of c)"

lemma unary_answers_update:
  assumes "i < length cs"
  shows "unary_answers (cs[i := c]) + answers_of (cs ! i) = unary_answers cs + answers_of c"
proof -
  have "unary_answers cs = unary_answers (take i cs @ cs ! i # drop (Suc i) cs)"
    using id_take_nth_drop [OF assms] by simp
  then show ?thesis using assms by (simp add: unary_answers_def upd_conv_take_nth_drop ac_simps)
qed

lemma unary_answers_append [simp]: "unary_answers (cs @ ds) = unary_answers cs + unary_answers ds"
  by (simp add: unary_answers_def)

lemma unary_answers_new [simp]: "unary_answers [call_new k] = {#}" "unary_answers [] = {#}"
  by (simp_all add: unary_answers_def answers_of_def)

definition stage_of :: "dispatcher \<Rightarrow> phase" where
  "stage_of d = (if serving d then Serving else if stopped (task_pool d) then Joining else Saving)"

definition views :: "server \<Rightarrow> dispatcher \<Rightarrow> bool" where
  "views s d \<longleftrightarrow>
     srv_db s = store d \<and> srv_pool s = pool_map (request_of \<circ> snd) (task_pool d) \<and> running s = serving d \<and>
     phase s = stage_of d \<and> mset (answered s) = unary_answers (calls d) \<and> 0 < pollers s"

subsection \<open>Step by step\<close>

lemma views_event_idle:
  assumes "views s d" "calls d' = (calls d)[i := c'] @ new" "task_pool d' = task_pool d" "store d' = store d" "serving d' = serving d"
    and "i < length (calls d)" "answers_of c' = answers_of (calls d ! i)" "unary_answers new = {#}"
  shows "views s d'"
  using assms unary_answers_update [OF assms(6), of c'] by (simp add: views_def stage_of_def)

lemma views_event:
  assumes "dispatch_step lvs sent d d'" "i < length (calls d)" "event_result sent i m d d' (calls d ! i) c' new" "serving d"
    and "views s d" "call_ok (calls d ! i)" "\<And>m. sent m \<Longrightarrow> \<exists>req. m = Unary req"
  shows "\<exists>t. (server_step lvs e cfg idle)\<^sup>*\<^sup>* s t \<and> views t d'"
proof -
  let ?c = "calls d ! i"
  note r = assms(3) [unfolded event_result_def]
  have d': "calls d' = (calls d)[i := c'] @ new" "store d' = store d" "serving d' = serving d"
    using conjunct1 [OF r] by (metis dispatcher.select_convs dispatcher.surjective dispatcher.update_convs)+
  have new: "unary_answers new = {#}" and k: "call_kind c' = call_kind ?c" "call_ok c'" using r by auto
  have s: "running s" "0 < pollers s" using assms(4,5) by (simp_all add: views_def)
  have pool: "task_pool d' = task_pool d \<or>
      pool_submit (i, m) (task_pool d) = Returns (task_pool d') \<and> sent m \<and> message_process m = Submit \<and> in_task (call_flow c')"
    and ans: "call_answers c' = call_answers ?c \<or>
      (\<exists>a. call_answers ?c = [] \<and> call_answers c' = [a] \<and> own_answer sent ?c a)" using r by blast+
  consider (none) "task_pool d' = task_pool d" "answers_of c' = answers_of ?c"
    | (own) a where "task_pool d' = task_pool d" "call_answers ?c = []" "call_answers c' = [a]" "own_answer sent ?c a"
        "call_kind ?c \<noteq> Stream_upsert_handler"
    | (task) "pool_submit (i, m) (task_pool d) = Returns (task_pool d')" "sent m" "message_process m = Submit" "in_task (call_flow c')"
    using pool ans k(1) by (cases "call_kind ?c = Stream_upsert_handler") (auto simp: answers_of_def)
  then show ?thesis
  proof cases
    case none
    then show ?thesis using views_event_idle [OF assms(5) d'(1) none(1) d'(2,3) assms(2) none(2) new] by blast
  next
    case (own a)
    then obtain req st where a: "process req = Finish_now [st]" "a = (fresh_response req, st)" by (auto simp: own_answer_def)
    have "server_step lvs e cfg idle s (s\<lparr>answered := answered s @ map (Pair (fresh_response req)) [st]\<rparr>)"
      by (rule server_step.reject [OF s a(1)])
    moreover have "views (s\<lparr>answered := answered s @ map (Pair (fresh_response req)) [st]\<rparr>) d'"
      using assms(5) own d' new k(1) a(2) unary_answers_update [OF assms(2), of c']
      by (simp add: views_def stage_of_def answers_of_def)
    ultimately show ?thesis by blast
  next
    case task
    obtain req where m: "m = Unary req" using assms(7) [OF task(2)] by blast
    have "call_answers c' = []" using k(2) task(4) by (auto simp: call_ok_def Let_def split: if_splits)
    then have "answers_of c' = answers_of ?c" using r by (auto simp: answers_of_def)
    moreover have "server_step lvs e cfg idle s (s\<lparr>srv_pool := pool_map (request_of \<circ> snd) (task_pool d')\<rparr>)"
      using server_step.accept [OF s, of req] pool_map_submit [OF task(1), of "request_of \<circ> snd"] task(3) m assms(5)
      by (simp add: views_def)
    moreover have "stopped (task_pool d') = stopped (task_pool d)" using submit_keeps [OF task(1)] by simp
    ultimately have "views (s\<lparr>srv_pool := pool_map (request_of \<circ> snd) (task_pool d')\<rparr>) d'"
      using assms(5) d' new unary_answers_update [OF assms(2), of c'] by (simp add: views_def stage_of_def)
    then show ?thesis
      using \<open>server_step lvs e cfg idle s (s\<lparr>srv_pool := pool_map (request_of \<circ> snd) (task_pool d')\<rparr>)\<close> by blast
  qed
qed

lemma views_work:
  assumes "work_step lvs d d'" "views s d" "dispatch_inv sent d" "\<And>m. sent m \<Longrightarrow> \<exists>req. m = Unary req"
  shows "\<exists>t. (server_step lvs e cfg idle)\<^sup>*\<^sup>* s t \<and> views t d'"
  using assms(1)
proof (cases rule: work_step.cases)
  case (wake w p)
  let ?p = "pool_map (request_of \<circ> snd) p"
  have "server_step lvs e cfg idle s (s\<lparr>srv_pool := ?p\<rparr>)"
    using server_step.wake pool_map_wake [OF wake(2), of "request_of \<circ> snd"] assms(2) by (auto simp: views_def)
  moreover have "stopped p = stopped (task_pool d)" using wake(2) by (auto elim!: worker_wakeE)
  then have "views (s\<lparr>srv_pool := ?p\<rparr>) d'" using assms(2) wake(1) by (simp add: views_def stage_of_def)
  ultimately show ?thesis by blast
next
  case (run_task w i m db' e' p)
  have o: "(i, m) \<in># open_tasks (task_pool d)" using open_tasks_finish [OF run_task(5,3)] by simp
  then have t: "i < length (calls d)" "message_for (call_kind (calls d ! i)) m" "sent m"
    using assms(3) tasks_ok_member(1,3,4) unfolding dispatch_inv_def by blast+
  then obtain req where m: "m = Unary req" using assms(4) by blast
  then obtain fs where fs: "task lvs req (store d) = Returns (db', fs)" "e' = Finished fs" using run_task(4) by (auto simp: run)
  have k: "call_kind (calls d ! i) \<noteq> Stream_upsert_handler" using t(2) m by (cases req) (auto simp: message_for_def)
  let ?p = "pool_map (request_of \<circ> snd) p"
  have "threads (srv_pool s) ! w = Running req" "w < length (threads (srv_pool s))"
    using assms(2) run_task(2,3) m by (simp_all add: views_def)
  moreover have "worker_finish w (srv_pool s) = Some ?p"
    using pool_map_finish [OF run_task(5), of "request_of \<circ> snd"] assms(2) by (simp add: views_def)
  moreover have "task lvs req (srv_db s) = Returns (db', fs)" using fs(1) assms(2) by (simp add: views_def)
  ultimately have st: "server_step lvs e cfg idle s (s\<lparr>srv_pool := ?p, srv_db := db', answered := answered s @ fs\<rparr>)"
    by (blast intro: server_step.run_task)
  have "stopped p = stopped (task_pool d)" using run_task(5) by (auto elim!: worker_finishE)
  moreover have "call_kind (end_task e' (calls d ! i)) = call_kind (calls d ! i)" by (simp add: end_task_def fs(2) Let_def)
  moreover have "call_answers (end_task e' (calls d ! i)) = call_answers (calls d ! i) @ fs" by (simp add: fs(2))
  ultimately have "views (s\<lparr>srv_pool := ?p, srv_db := db', answered := answered s @ fs\<rparr>) d'"
    using assms(2) run_task(1) k unary_answers_update [OF t(1), of "end_task e' (calls d ! i)"]
    by (simp add: views_def stage_of_def on_call_def answers_of_def)
  then show ?thesis using st by blast
qed

lemma save_loop_returns: "list_all (\<lambda>p. col_wf (snd p)) cs \<Longrightarrow> \<exists>fs' st. save_loop e cs fs = Returns (fs', st)"
  by (induction e cs fs rule: save_loop.induct) (auto simp: collection_serialize_wf Let_def)

lemma save_returns: "db_wf db \<Longrightarrow> \<exists>x. save e storage db = Returns x"
  using save_loop_returns [of "collections db" e]
  by (auto simp: save_def db_wf_def list_all_iff run split: option.splits) (metis obind.simps(1))+

lemma views_stop_pool:
  assumes "views s d" "\<not> serving d" "db_wf (store d)"
  shows "\<exists>t. (server_step lvs e cfg idle)\<^sup>*\<^sup>* s t \<and> views t (d\<lparr>task_pool := pool_stop (task_pool d)\<rparr>)"
proof (cases "stopped (task_pool d)")
  case True
  then have "d\<lparr>task_pool := pool_stop (task_pool d)\<rparr> = d" by (simp add: pool_stop_def)
  then show ?thesis using assms(1) by auto
next
  case False
  have p: "phase s = Saving" using assms(1,2) False by (simp add: views_def stage_of_def)
  obtain storage where "shutdown_save e cfg s = Returns (s\<lparr>srv_storage := storage, phase := Stopping\<rparr>)"
  proof (cases "storage_enabled cfg")
    case True
    obtain x where "save e (srv_storage s) (srv_db s) = Returns x"
      using save_returns [OF assms(3), of e "srv_storage s"] assms(1) unfolding views_def by metis
    then show ?thesis using True that by (cases x) (auto simp: shutdown_save_def)
  next
    case False
    then show ?thesis using that [of "srv_storage s"] by (simp add: shutdown_save_def)
  qed
  then have "server_step lvs e cfg idle s (s\<lparr>srv_storage := storage, phase := Stopping\<rparr>)" by (rule server_step.shutdown_saved [OF p])
  moreover have "server_step lvs e cfg idle (s\<lparr>srv_storage := storage, phase := Stopping\<rparr>)
      (s\<lparr>srv_storage := storage, srv_pool := pool_stop (srv_pool s), phase := Joining\<rparr>)"
    using server_step.shutdown_pool [of "s\<lparr>srv_storage := storage, phase := Stopping\<rparr>"] by simp
  ultimately have "(server_step lvs e cfg idle)\<^sup>*\<^sup>* s (s\<lparr>srv_storage := storage, srv_pool := pool_stop (srv_pool s), phase := Joining\<rparr>)"
    by (meson converse_rtranclp_into_rtranclp r_into_rtranclp)
  moreover have "views (s\<lparr>srv_storage := storage, srv_pool := pool_stop (srv_pool s), phase := Joining\<rparr>)
      (d\<lparr>task_pool := pool_stop (task_pool d)\<rparr>)"
    using assms(1,2) by (simp add: views_def stage_of_def) (simp add: pool_stop_def)
  ultimately show ?thesis by blast
qed

lemma views_step:
  assumes "dispatch_step lvs sent d d'" "views s d" "dispatch_inv sent d" "db_wf (store d)"
    and "\<And>m. sent m \<Longrightarrow> message_ok m" "\<And>m. sent m \<Longrightarrow> \<exists>req. m = Unary req"
  shows "\<exists>t. (server_step lvs e cfg idle)\<^sup>*\<^sup>* s t \<and> views t d'"
  using assms(1)
proof (cases rule: dispatch_step.cases)
  case (event i ok m)
  have c: "call_ok (calls d ! i)" using assms(3) event(1) by (simp add: dispatch_inv_def list_all_length)
  show ?thesis
  proof (cases "serving d")
    case True
    obtain c' new where "event_result sent i m d d' (calls d ! i) c' new"
      using event_contract [OF event(4,1) refl event(2) c event(3) assms(5)] by blast
    then show ?thesis by (rule views_event [OF assms(1) event(1) _ True assms(2) c assms(6)])
  next
    case False
    let ?c = "(calls d ! i)\<lparr>call_flow := (call_flow (calls d ! i))\<lparr>pending := 0, deleted := True\<rparr>\<rparr>"
    have "event_result sent i m d d' (calls d ! i) ?c []"
      by (rule event_deletes [OF event(4,1) refl idle_callI [OF c event(2)]]) (simp add: False)
    then have d': "d' = d\<lparr>calls := (calls d)[i := ?c] @ [], task_pool := task_pool d'\<rparr>" "task_pool d' = task_pool d"
      using event(2) by (auto simp: event_result_def)
    have "calls d' = (calls d)[i := ?c] @ []" "store d' = store d" "serving d' = serving d"
      using arg_cong [OF d'(1), of calls] arg_cong [OF d'(1), of store] arg_cong [OF d'(1), of serving] by simp_all
    then have "views s d'" by (rule views_event_idle [OF assms(2) _ d'(2) _ _ event(1)]) (simp_all add: answers_of_def)
    then show ?thesis by blast
  qed
next
  case work
  then show ?thesis by (rule views_work [OF _ assms(2,3,6)])
next
  case stop
  have "server_step lvs e cfg idle s (s\<lparr>running := False, phase := Saving\<rparr>)"
    using stop(2) assms(2) by (intro server_step.shutdown_begin) (simp add: views_def)
  moreover have "views (s\<lparr>running := False, phase := Saving\<rparr>) d'"
    using stop assms(2,3) by (simp add: views_def stage_of_def dispatch_inv_def)
  ultimately show ?thesis by blast
next
  case stop_pool
  then show ?thesis using views_stop_pool [OF assms(2) _ assms(4)] by blast
qed

subsection \<open>Runs\<close>

definition serving_server :: "nat \<Rightarrow> database \<Rightarrow> server \<Rightarrow> bool" where
  "serving_server n db s \<longleftrightarrow>
     running s \<and> phase s = Serving \<and> srv_db s = db \<and> srv_pool s = pool_new n \<and> answered s = [] \<and> 0 < pollers s"

lemma views_start: "serving_server n db s \<Longrightarrow> views s (dispatcher_start n db)"
proof -
  have "answers_of (call_new k) = {#}" for k by (simp add: answers_of_def)
  then have "unary_answers init_rpc_handlers = {#}"
    unfolding init_rpc_handlers_map by (simp add: unary_answers_def)
  then show "serving_server n db s \<Longrightarrow> views s (dispatcher_start n db)"
    by (simp add: serving_server_def views_def stage_of_def dispatcher_start_def)
qed

lemma views_run:
  assumes "(dispatch_step lvs sent)\<^sup>*\<^sup>* (dispatcher_start n db) d" "server_wf db" "serving_server n db s"
    and "\<And>m. sent m \<Longrightarrow> message_ok m" "\<And>m. sent m \<Longrightarrow> \<exists>req. m = Unary req"
  shows "\<exists>t. (server_step lvs e cfg idle)\<^sup>*\<^sup>* s t \<and> views t d"
  using assms(1)
proof (induction rule: rtranclp_induct)
  case base
  then show ?case using views_start [OF assms(3)] by blast
next
  case (step d d')
  then obtain t where t: "(server_step lvs e cfg idle)\<^sup>*\<^sup>* s t" "views t d" by blast
  have "db_wf (store d)" using reach_store [OF step.hyps(1) assms(4,2)] by (simp add: server_wf_def)
  then obtain u where "(server_step lvs e cfg idle)\<^sup>*\<^sup>* t u" "views u d'"
    using views_step [OF step.hyps(2) t(2) dispatch_reach_inv [OF step.hyps(1) assms(4)] _ assms(4,5)] by blast
  then show ?case using t(1) by (meson rtranclp_trans)
qed

text \<open>
  C7. The handlers of unary calls implement the server that \<open>Server_Life\<close> describes, up to the moment its workers are
  joined: each state that events, workers and the shutdown can lead to is a state of that server with the
  same database, the same queue and threads, the same stage of the shutdown and the same answers. What
  \<open>Server_Life\<close> shows of the shutdown holds for the handlers, too.
\<close>

theorem handlers_refine_server:
  assumes "\<And>m. sent m \<Longrightarrow> message_ok m" "\<And>m. sent m \<Longrightarrow> \<exists>req. m = Unary req" "server_wf db"
    and "(dispatch_step lvs sent)\<^sup>*\<^sup>* (dispatcher_start n db) d"
    and "running s" "phase s = Serving" "srv_db s = db" "srv_pool s = pool_new n" "answered s = []" "0 < pollers s"
  shows "\<exists>t. (server_step lvs e cfg idle)\<^sup>*\<^sup>* s t \<and> srv_db t = store d \<and> running t = serving d \<and>
    (\<not> running t \<longrightarrow> phase t = (if stopped (task_pool d) then Joining else Saving)) \<and>
    tasks (srv_pool t) = map (request_of \<circ> snd) (tasks (task_pool d)) \<and>
    threads (srv_pool t) = map (map_thread (request_of \<circ> snd)) (threads (task_pool d)) \<and>
    mset (answered t) = unary_answers (calls d)"
proof -
  have "serving_server n db s" using assms(5-10) by (simp add: serving_server_def)
  from views_run [OF assms(4,3) this assms(1,2)] obtain t where "(server_step lvs e cfg idle)\<^sup>*\<^sup>* s t" "views t d" by blast
  then show ?thesis by (intro exI [of _ t]) (auto simp: views_def stage_of_def)
qed

theorem handlers_refine_server_witness:
  "\<forall>e cfg idle. \<exists>t. (server_step (\<lambda>_ _ _. 0) e cfg idle)\<^sup>*\<^sup>*
      \<lparr>running = True, phase = Serving, srv_db = database_new, srv_pool = pool_new 1, srv_storage = None, answered = [], pollers = 1\<rparr> t \<and>
    srv_db t = \<lparr>collections = [(''c'', collection_new 3 ''c'')]\<rparr> \<and> answered t = [(Empty_response, (OK, []))]"
proof (intro allI)
  fix e cfg idle
  have w: "server_wf database_new" by (simp add: server_wf_def db_wf_def database_new_def)
  have "mset xs = {#(Empty_response, (OK, []))#} \<Longrightarrow> xs = [(Empty_response, (OK, []))]" for xs :: "finish list" by simp
  moreover have "unary_answers (calls sample_answered) = {#(Empty_response, (OK, []))#}"
    by (simp add: sample_answered_def init_rpc_handlers_def unary_answers_def answers_of_def call_new_def)
  ultimately show "\<exists>t. (server_step (\<lambda>_ _ _. 0) e cfg idle)\<^sup>*\<^sup>*
      \<lparr>running = True, phase = Serving, srv_db = database_new, srv_pool = pool_new 1, srv_storage = None, answered = [], pollers = 1\<rparr> t \<and>
    srv_db t = \<lparr>collections = [(''c'', collection_new 3 ''c'')]\<rparr> \<and> answered t = [(Empty_response, (OK, []))]"
    using handlers_refine_server [of "(=) sample_message" database_new "\<lambda>_ _ _. 0" 1 sample_answered
        "\<lparr>running = True, phase = Serving, srv_db = database_new, srv_pool = pool_new 1, srv_storage = None, answered = [], pollers = 1\<rparr>"
        e cfg idle, OF _ _ w sample_answered_reached] sample_message_ok
    by (auto simp: sample_message_def) (auto simp: sample_answered_def)
qed

end
