(* ===== verification/Program.thy ===== *)
theory Program
  imports Server_Life
begin

text \<open>
  \<^verbatim>\<open>main.cpp\<close>: from the arguments of the program to a running server, the loop that waits for a signal, and
  the shutdown after it. The logger is set up before and is left out.
\<close>

text \<open>The configuration: nothing is loaded without an argument.\<close>

definition main_config ::
  "(string \<Rightarrow> bool) \<Rightarrow> (string \<Rightarrow> parse_error + 'v) \<Rightarrow> 'v \<Rightarrow> string list \<Rightarrow> 'v config \<times> unit outcome" where
  "main_config file_exists parse empty_value args =
     (case args of
        [] \<Rightarrow> (config_new empty_value, Returns ())
      | path # _ \<Rightarrow>
          if \<not> file_exists path
          then (config_new empty_value, Throws (Runtime_error (path @ '' Configuration file does not exist'')))
          else config_load file_exists parse path (config_new empty_value))"

text \<open>The level of the logger of \<^verbatim>\<open>main\<close>, asked for under one key with a dot in it.\<close>

definition main_log_level :: "'v toml \<Rightarrow> 'v config \<Rightarrow> string" where
  "main_log_level T c = value_or (get_string T [''main.log_level''] c) ''info''"

definition settings_of :: "'v toml \<Rightarrow> 'v config \<Rightarrow> settings" where
  "settings_of T c = server_settings (\<lambda>ks. get_string T ks c) (\<lambda>ks. get_int T ks c) (\<lambda>ks. get_bool T ks c)"

definition main_start ::
  "(string \<Rightarrow> string \<Rightarrow> id_t \<Rightarrow> nat) \<Rightarrow> fs_env \<Rightarrow> 'v toml \<Rightarrow> (string \<Rightarrow> bool) \<Rightarrow> (string \<Rightarrow> parse_error + 'v) \<Rightarrow> 'v \<Rightarrow>
   string list \<Rightarrow> files option \<Rightarrow> server outcome" where
  "main_start lvs e T file_exists parse empty_value args storage =
     (case main_config file_exists parse empty_value args of
        (c, r) \<Rightarrow>
          obind r (\<lambda>_. obind (server_new lvs e (settings_of T c) storage) (\<lambda>s.
            Returns (server_start (settings_of T c) s))))"

subsection \<open>Facts\<close>

text \<open>Unless a table at the top has a key with this very dot, the level is the default.\<close>

lemma main_log_level_default:
  assumes "\<And>t. as_table T (data c) = Some t \<Longrightarrow> ''main.log_level'' \<notin> fst ` set t"
  shows "main_log_level T c = ''info''"
proof -
  have "lookup_key (as_table T) (data c) ''main.log_level'' = None"
    using assms by (auto simp: lookup_key_def map_of_eq_None_iff split: option.splits)
  then show ?thesis
    by (simp add: main_log_level_def get_string_def get_value_def final_value_def value_or_def)
qed

lemma main_without_file:
  "\<not> file_exists path \<Longrightarrow> main_start lvs e T file_exists parse v (path # args) storage =
     Throws (Runtime_error (path @ '' Configuration file does not exist''))"
  by (simp add: main_start_def main_config_def)

text \<open>What runs in the end: a server on the loaded database with the configured threads.\<close>

lemma main_started:
  assumes "main_start lvs e T file_exists parse v args storage = Returns s"
  shows "\<exists>c. (args = [] \<or> loaded c) \<and> running s \<and> phase s = Serving \<and>
    pollers s = unat (num_of_thread (settings_of T c)) \<and> answered s = [] \<and>
    length (threads (srv_pool s)) = unat (db_worker_pool_size (settings_of T c)) \<and>
    (storage_enabled (settings_of T c) \<longrightarrow> (\<exists>st. load lvs e storage database_new = Returns (srv_db s, st)))"
proof -
  obtain c r s0 where c: "main_config file_exists parse v args = (c, Returns ())"
    and s: "server_new lvs e (settings_of T c) storage = Returns s0" "s = server_start (settings_of T c) s0"
    using assms by (auto simp: main_start_def run split: prod.splits)
  have "args = [] \<or> loaded c"
    using c by (auto simp: main_config_def config_load_def split: list.splits if_splits sum.splits parse_error.splits)
  then show ?thesis using s
    by (intro exI [of _ c]) (auto simp: server_new_def server_start_def pool_new_def run split: if_splits)
qed

subsection \<open>Waiting for a signal\<close>

text \<open>
  Where \<^verbatim>\<open>main\<close> is: in its loop, past it, in \<^verbatim>\<open>srv_ptr->shutdown()\<close>, at its end. \<open>go_on\<close> is the global flag
  \<^verbatim>\<open>running\<close>. The other threads go on all the time; only \<^verbatim>\<open>main\<close> calls \<^verbatim>\<open>shutdown\<close>.
\<close>

datatype main_point = Waiting | Woken | In_shutdown | Returned

record program =
  go_on :: bool
  main_at :: main_point
  srv :: server

definition program_new :: "server \<Rightarrow> program" where
  "program_new s = \<lparr>go_on = True, main_at = Waiting, srv = s\<rparr>"

definition sig_handler :: "program \<Rightarrow> program" where
  "sig_handler m = m\<lparr>go_on := False\<rparr>"

inductive main_step ::
  "(string \<Rightarrow> string \<Rightarrow> id_t \<Rightarrow> nat) \<Rightarrow> fs_env \<Rightarrow> settings \<Rightarrow> (rpc_request list \<Rightarrow> bool) \<Rightarrow> program \<Rightarrow> program \<Rightarrow> bool"
  for lvs e cfg idle where
  signal: "main_step lvs e cfg idle m (sig_handler m)"
| wakes: "main_at m = Waiting \<Longrightarrow> \<not> go_on m \<Longrightarrow> main_step lvs e cfg idle m (m\<lparr>main_at := Woken\<rparr>)"
| shuts_down: "main_at m = Woken \<Longrightarrow> running (srv m) \<Longrightarrow>
     main_step lvs e cfg idle m (m\<lparr>main_at := In_shutdown, srv := (srv m)\<lparr>running := False, phase := Saving\<rparr>\<rparr>)"
| was_down: "main_at m = Woken \<Longrightarrow> \<not> running (srv m) \<Longrightarrow> main_step lvs e cfg idle m (m\<lparr>main_at := Returned\<rparr>)"
| serves: "server_step lvs e cfg idle (srv m) t \<Longrightarrow> running t = running (srv m) \<Longrightarrow>
     main_step lvs e cfg idle m (m\<lparr>srv := t\<rparr>)"
| returns: "main_at m = In_shutdown \<Longrightarrow> phase (srv m) = Closed \<Longrightarrow> main_step lvs e cfg idle m (m\<lparr>main_at := Returned\<rparr>)"

text \<open>What the program does is a run of its server, so that what \<open>Server_Life\<close> shows of these holds for it.\<close>

lemma main_runs_server:
  "(main_step lvs e cfg idle)\<^sup>*\<^sup>* m n \<Longrightarrow> (server_step lvs e cfg idle)\<^sup>*\<^sup>* (srv m) (srv n)"
proof (induction rule: rtranclp_induct)
  case (step n n')
  have "srv n' = srv n \<or> server_step lvs e cfg idle (srv n) (srv n')"
    using step.hyps(2) by (cases rule: main_step.cases) (auto simp: sig_handler_def intro: server_step.shutdown_begin)
  then show ?case using step.IH by auto
qed simp

text \<open>The server is up until a signal came and \<^verbatim>\<open>main\<close> has seen it; and when \<^verbatim>\<open>main\<close> ends no worker is left.\<close>

definition main_inv :: "program \<Rightarrow> bool" where
  "main_inv m \<longleftrightarrow>
     (running (srv m) \<longleftrightarrow> main_at m \<in> {Waiting, Woken}) \<and> (main_at m \<noteq> Waiting \<longrightarrow> \<not> go_on m) \<and>
     (running (srv m) \<longleftrightarrow> phase (srv m) = Serving) \<and> (main_at m = Returned \<longrightarrow> phase (srv m) = Closed) \<and>
     (phase (srv m) \<in> {Closing, Polling, Closed} \<longrightarrow> joined (srv_pool (srv m)))"

lemma joined_no_running: "joined p \<Longrightarrow> i < length (threads p) \<Longrightarrow> threads p ! i \<noteq> Running r"
  by (auto simp: joined_def list_all_length)

lemma main_inv_serves:
  assumes "server_step lvs e cfg idle s t" "running t = running s" "main_inv (m\<lparr>srv := s\<rparr>)"
  shows "main_inv (m\<lparr>srv := t\<rparr>)"
  using assms(1)
proof (cases rule: server_step.cases)
  case (wake i p)
  then show ?thesis using assms(3) joined_no_worker(1) [of "srv_pool s" i] by (auto simp: main_inv_def)
next
  case (run_task i req db' fs p)
  then show ?thesis using assms(3) joined_no_running [of "srv_pool s" i req] by (auto simp: main_inv_def)
next
  case shutdown_saved
  then show ?thesis using assms(3) by (auto simp: shutdown_save_def main_inv_def run split: if_splits)
qed (use assms(2,3) in \<open>auto simp: main_inv_def\<close>)

lemma main_inv_step:
  assumes "main_step lvs e cfg idle m n" "main_inv m"
  shows "main_inv n"
  using assms(1)
proof (cases rule: main_step.cases)
  case (serves t)
  then show ?thesis using main_inv_serves [of lvs e cfg idle "srv m" t m] assms(2) by simp
qed (use assms(2) in \<open>auto simp: main_inv_def sig_handler_def\<close>)

lemma program_ends_by_signal:
  assumes "main_start lvs e T file_exists parse v args storage = Returns s"
    and "(main_step lvs e (settings_of T c) idle)\<^sup>*\<^sup>* (program_new s) m"
  shows "(go_on m \<longrightarrow> running (srv m) \<and> phase (srv m) = Serving \<and> main_at m = Waiting) \<and>
    (main_at m = Returned \<longrightarrow> phase (srv m) = Closed \<and> joined (srv_pool (srv m)))"
proof -
  have "main_inv (program_new s)" using main_started [OF assms(1)] by (auto simp: main_inv_def program_new_def)
  from assms(2) this have "main_inv m" by (induction rule: rtranclp_induct) (auto intro: main_inv_step)
  then show ?thesis by (auto simp: main_inv_def)
qed

end
