(* ===== verification/Logger.thy ===== *)
theory Logger
  imports Prelude
begin

text \<open>
  \<^verbatim>\<open>include/logger/logger.h\<close> and \<^verbatim>\<open>impl/logger/logger.cpp\<close>: log levels and the factory of loggers. spdlog
  and the file system are not part of the repository: spdlog's seven level constants, the logger that it
  finds under a name, what its calls and those of the file system return, and what a logger of spdlog does
  with a message are arguments.
\<close>

subsection \<open>Levels\<close>

datatype log_level = trace | debug | info | warn | error | critical | off

record 'l spdlog_levels =
  sp_trace :: 'l
  sp_debug :: 'l
  sp_info :: 'l
  sp_warn :: 'l
  sp_err :: 'l
  sp_critical :: 'l
  sp_off :: 'l

primrec to_spdlog_level :: "'l spdlog_levels \<Rightarrow> log_level \<Rightarrow> 'l" where
  "to_spdlog_level L trace = sp_trace L"
| "to_spdlog_level L debug = sp_debug L"
| "to_spdlog_level L info = sp_info L"
| "to_spdlog_level L warn = sp_warn L"
| "to_spdlog_level L error = sp_err L"
| "to_spdlog_level L critical = sp_critical L"
| "to_spdlog_level L off = sp_off L"

text \<open>The labels of a \<^verbatim>\<open>switch\<close>, and its default.\<close>

definition from_spdlog_level :: "'l spdlog_levels \<Rightarrow> 'l \<Rightarrow> log_level" where
  "from_spdlog_level L l =
     (if l = sp_trace L then trace else if l = sp_debug L then debug else if l = sp_info L then info
      else if l = sp_warn L then warn else if l = sp_err L then error else if l = sp_critical L then critical
      else if l = sp_off L then off else info)"

text \<open>\<^verbatim>\<open>std::tolower\<close> in the C locale.\<close>

definition tolower :: "char \<Rightarrow> char" where
  "tolower c = (if 65 \<le> (of_char c :: nat) \<and> (of_char c :: nat) \<le> 90 then char_of ((of_char c :: nat) + 32) else c)"

definition parse_log_level :: "string \<Rightarrow> log_level" where
  "parse_log_level level =
     (let lower = map tolower level
      in if lower = ''trace'' then trace
         else if lower = ''debug'' then debug
         else if lower = ''info'' then info
         else if lower = ''warn'' \<or> lower = ''warning'' then warn
         else if lower = ''error'' \<or> lower = ''err'' then error
         else if lower = ''critical'' \<or> lower = ''crit'' then critical
         else if lower = ''off'' then off
         else info)"

subsection \<open>The factory\<close>

text \<open>
  \<^verbatim>\<open>logger_factory_state\<close>. Its mutex is taken once by each call, so that calls are atomic; it is left out.
\<close>

record 's factory =
  initialized :: bool
  sink :: "'s option"

definition factory_new :: "'s factory" where
  "factory_new = \<lparr>initialized = False, sink = None\<rparr>"

text \<open>
  What the libraries do in \<^verbatim>\<open>initialize\<close>, in the order of the calls: the directory of the logs exists or is
  created, the thread pool of spdlog is set up, the sink is made, regular flushing is started. \<open>what\<close> is
  the text of an exception.
\<close>

record 's log_setup =
  dir_exists :: bool
  create_directories :: "unit outcome"
  init_thread_pool :: "unit outcome"
  make_sink :: "'s outcome"
  flush_every :: "unit outcome"

definition after_sink :: "(exn \<Rightarrow> string) \<Rightarrow> unit outcome \<Rightarrow> 's factory \<Rightarrow> 's factory \<times> unit outcome" where
  "after_sink what r f =
     (case r of
        Returns _ \<Rightarrow> (f\<lparr>initialized := True\<rparr>, Returns ())
      | Throws e \<Rightarrow> (f, Throws (Runtime_error (''Failed to initialize logger: '' @ what e)))
      | Blocks \<Rightarrow> (f, Blocks)
      | Undefined \<Rightarrow> (f, Undefined))"

text \<open>The state after the call, and the exception if there is one. The sink is kept when flushing fails.\<close>

definition initialize ::
  "(exn \<Rightarrow> string) \<Rightarrow> 's log_setup \<Rightarrow> 's factory \<Rightarrow> 's factory \<times> unit outcome" where
  "initialize what u f =
     (if initialized f then (f, Returns ())
      else
        (case obind (if dir_exists u then Returns () else create_directories u) (\<lambda>_.
              obind (init_thread_pool u) (\<lambda>_. make_sink u)) of
           Returns s \<Rightarrow> after_sink what (flush_every u) (f\<lparr>sink := Some s\<rparr>)
         | Throws e \<Rightarrow> (f, Throws (Runtime_error (''Failed to initialize logger: '' @ what e)))
         | Blocks \<Rightarrow> (f, Blocks)
         | Undefined \<Rightarrow> (f, Undefined)))"

text \<open>
  \<open>registered\<close> is the logger that spdlog has under a name; \<open>make_logger\<close> makes one with this name, sink and
  level, sets its pattern and registers it.
\<close>

definition create ::
  "(string \<Rightarrow> 'h option) \<Rightarrow> (string \<Rightarrow> 's option \<Rightarrow> 'l \<Rightarrow> 'h outcome) \<Rightarrow> 'l spdlog_levels \<Rightarrow> string \<Rightarrow> log_level \<Rightarrow>
   's factory \<Rightarrow> 'h outcome" where
  "create registered make_logger L name level f =
     (if \<not> initialized f then Throws (Runtime_error ''Logger factory not initialized. Call logger_factory::initialize() first.'')
      else
        (case registered name of
           Some existing \<Rightarrow> Returns existing
         | None \<Rightarrow> make_logger name (sink f) (to_spdlog_level L level)))"

text \<open>spdlog is shut down as well.\<close>

definition factory_shutdown :: "'s factory \<Rightarrow> 's factory" where
  "factory_shutdown f = (if initialized f then f\<lparr>sink := None, initialized := False\<rparr> else f)"

subsection \<open>Facts\<close>

text \<open>
  The labels of the \<^verbatim>\<open>switch\<close> of \<open>from_spdlog_level\<close> are different constants, or it would not compile.
  Then a logger gives back the level that was set.
\<close>

lemma levels_roundtrip:
  assumes "distinct [sp_trace L, sp_debug L, sp_info L, sp_warn L, sp_err L, sp_critical L, sp_off L]"
  shows "from_spdlog_level L (to_spdlog_level L l) = l"
  using assms by (cases l) (auto simp: from_spdlog_level_def)

lemma tolower_idem: "tolower (tolower c) = tolower c"
proof -
  have "of_char (char_of (n + 32) :: char) = (n + 32 :: nat)" if "n \<le> 90" for n :: nat using that by simp
  then show ?thesis by (auto simp: tolower_def)
qed

lemma parse_ignores_case: "map tolower s = map tolower t \<Longrightarrow> parse_log_level s = parse_log_level t"
  by (simp add: parse_log_level_def)

lemma parse_lower: "parse_log_level (map tolower s) = parse_log_level s"
  by (rule parse_ignores_case) (simp add: tolower_idem)

lemma parse_names:
  "parse_log_level ''DEBUG'' = debug" "parse_log_level ''Warning'' = warn" "parse_log_level ''crit'' = critical"
  "parse_log_level ''verbose'' = info"
  by (code_simp, code_simp, code_simp, code_simp)

text \<open>An initialized factory has a sink; it is what \<open>create\<close> gives to a new logger.\<close>

definition factory_inv :: "'s factory \<Rightarrow> bool" where
  "factory_inv f \<longleftrightarrow> (initialized f \<longrightarrow> sink f \<noteq> None)"

lemma factory_keeps_inv:
  "factory_inv factory_new"
  "factory_inv f \<Longrightarrow> factory_inv (fst (initialize what u f))"
  "factory_inv f \<Longrightarrow> factory_inv (factory_shutdown f)"
  by (auto simp: factory_inv_def factory_new_def initialize_def after_sink_def factory_shutdown_def split: outcome.splits)

lemma initialize_result:
  "snd (initialize what u f) = Returns () \<Longrightarrow> initialized (fst (initialize what u f))"
  "snd (initialize what u f) = Throws e \<Longrightarrow> \<not> initialized (fst (initialize what u f))"
  by (auto simp: initialize_def after_sink_def split: outcome.splits if_splits)

lemma create_needs_initialize:
  "create registered make_logger L name level factory_new = Throws (Runtime_error ''Logger factory not initialized. Call logger_factory::initialize() first.'')"
  "create registered make_logger L name level (factory_shutdown f) = Throws (Runtime_error ''Logger factory not initialized. Call logger_factory::initialize() first.'')"
  by (simp_all add: create_def factory_new_def factory_shutdown_def)

text \<open>The level that is asked for counts only for the first logger of a name.\<close>

lemma existing_logger_keeps_level:
  "initialized f \<Longrightarrow> registered name = Some h \<Longrightarrow> create registered make_logger L name level f = Returns h"
  by (simp add: create_def)

subsection \<open>A logger\<close>

text \<open>
  \<^verbatim>\<open>spdlog_logger_impl\<close> passes everything on to a logger \<open>'h\<close> of spdlog: \<open>sp_log\<close> is the method of spdlog with
  the name of the level, \<open>fmt\<close> is \<^verbatim>\<open>fmt::format\<close>.
\<close>

record ('h, 'l) spdlog_logger =
  sp_log :: "'l \<Rightarrow> string \<Rightarrow> 'h \<Rightarrow> 'h"
  sp_set_level :: "'l \<Rightarrow> 'h \<Rightarrow> 'h"
  sp_level :: "'h \<Rightarrow> 'l"
  sp_flush :: "'h \<Rightarrow> 'h"

definition log_message :: "'l spdlog_levels \<Rightarrow> ('h, 'l) spdlog_logger \<Rightarrow> log_level \<Rightarrow> string \<Rightarrow> 'h \<Rightarrow> 'h" where
  "log_message L S level msg h = sp_log S (to_spdlog_level L level) msg h"

definition log_formatted ::
  "(string \<Rightarrow> 'a list \<Rightarrow> string) \<Rightarrow> 'l spdlog_levels \<Rightarrow> ('h, 'l) spdlog_logger \<Rightarrow> log_level \<Rightarrow> string \<Rightarrow> 'a list \<Rightarrow> 'h \<Rightarrow> 'h" where
  "log_formatted fmt L S level fmt_str args h = log_message L S level (fmt fmt_str args) h"

definition set_level :: "'l spdlog_levels \<Rightarrow> ('h, 'l) spdlog_logger \<Rightarrow> log_level \<Rightarrow> 'h \<Rightarrow> 'h" where
  "set_level L S level h = sp_set_level S (to_spdlog_level L level) h"

definition set_level_named :: "'l spdlog_levels \<Rightarrow> ('h, 'l) spdlog_logger \<Rightarrow> string \<Rightarrow> 'h \<Rightarrow> 'h" where
  "set_level_named L S level h = set_level L S (parse_log_level level) h"

definition get_level :: "'l spdlog_levels \<Rightarrow> ('h, 'l) spdlog_logger \<Rightarrow> 'h \<Rightarrow> log_level" where
  "get_level L S h = from_spdlog_level L (sp_level S h)"

definition is_initialized :: "'s factory \<Rightarrow> bool" where
  "is_initialized f = initialized f"

text \<open>\<open>hs\<close> are the loggers that spdlog has registered.\<close>

definition flush_all :: "('h, 'l) spdlog_logger \<Rightarrow> 'h list \<Rightarrow> 'h list" where
  "flush_all S hs = map (sp_flush S) hs"

text \<open>
  A level that is set by its name, as the configuration does, is read back; a name that is none means
  \<open>info\<close>. spdlog documents that \<^verbatim>\<open>level\<close> gives what \<^verbatim>\<open>set_level\<close> was called with.
\<close>

lemma level_by_name:
  assumes "distinct [sp_trace L, sp_debug L, sp_info L, sp_warn L, sp_err L, sp_critical L, sp_off L]"
    and "\<And>l h. sp_level S (sp_set_level S l h) = l"
  shows "get_level L S (set_level_named L S level h) = parse_log_level level"
  by (simp add: get_level_def set_level_named_def set_level_def assms(2) levels_roundtrip [OF assms(1)])

lemma level_of_no_name:
  assumes "map tolower level \<notin> {''trace'', ''debug'', ''info'', ''warn'', ''warning'', ''error'', ''err'', ''critical'', ''crit'', ''off''}"
  shows "parse_log_level level = info"
  using assms by (simp add: parse_log_level_def Let_def)

lemma create_when_initialized:
  assumes "factory_inv f" "is_initialized f" "registered name = None"
  shows "\<exists>s. sink f = Some s \<and> create registered make_logger L name level f = make_logger name (Some s) (to_spdlog_level L level)"
  using assms by (auto simp: factory_inv_def is_initialized_def create_def)

end
