(* ===== verification/Hash.thy ===== *)
theory Hash
  imports Prelude
begin

text \<open>
  \<^verbatim>\<open>include/core/utils/splitmix_hash.h\<close>: the hash of the maps and sets keyed by vector ids. The seed is
  taken from a clock once, and is an argument here.
\<close>

unbundle bit_operations_syntax

definition splitmix64 :: "u64 \<Rightarrow> u64" where
  "splitmix64 x0 =
     (let x1 = x0 + 0x9e3779b97f4a7c15;
          x2 = (x1 XOR drop_bit 30 x1) * 0xbf58476d1ce4e5b9;
          x3 = (x2 XOR drop_bit 27 x2) * 0x94d049bb133111eb
      in x3 XOR drop_bit 31 x3)"

definition hash_of :: "u64 \<Rightarrow> u64 \<Rightarrow> u64" where
  "hash_of fixed_random x = splitmix64 (x + fixed_random)"

lemma shifted_self: "drop_bit n d = d \<Longrightarrow> 0 < n \<Longrightarrow> d = 0" for d :: u64
proof -
  assume d: "drop_bit n d = d" and n: "0 < n"
  have "unat (drop_bit n d) = unat d div 2 ^ n" unfolding unat_drop_bit_eq by (rule drop_bit_eq_div)
  then have "unat d div 2 ^ n = unat d" by (simp only: d)
  moreover have "unat d div 2 ^ n < unat d" if "unat d \<noteq> 0"
    using that n one_less_power [of "2 :: nat" n] by (intro div_less_dividend) simp_all
  ultimately show "d = 0" by (metis less_irrefl unat_eq_zero)
qed

lemma xorshift_inject: "0 < n \<Longrightarrow> x XOR drop_bit n x = y XOR drop_bit n y \<Longrightarrow> x = y" for x y :: u64
proof -
  assume n: "0 < n" and e: "x XOR drop_bit n x = y XOR drop_bit n y"
  have "bit (drop_bit n (x XOR y)) i = bit (x XOR y) i" for i
    using arg_cong [OF e, of "\<lambda>w. bit w i"] by (auto simp: bit_xor_iff bit_drop_bit_eq)
  then have "drop_bit n (x XOR y) = x XOR y" by (rule bit_word_eqI)
  then have "x XOR y = 0" using n by (rule shifted_self)
  then have z: "bit (x XOR y) i = bit (0 :: u64) i" for i by simp
  have "bit x i = bit y i" for i using z [of i] by (simp add: bit_xor_iff)
  then show "x = y" by (rule bit_word_eqI)
qed

lemma unit_inject: "x * c = y * c \<Longrightarrow> c * c' = 1 \<Longrightarrow> x = y" for x y c c' :: u64
proof -
  assume e: "x * c = y * c" and i: "c * c' = 1"
  have "x = x * (c * c')" by (simp only: i mult_1_right)
  also have "\<dots> = x * c * c'" by (simp only: mult.assoc)
  also have "\<dots> = y * (c * c')" by (simp only: e mult.assoc)
  also have "\<dots> = y" by (simp only: i mult_1_right)
  finally show "x = y" .
qed

text \<open>
  The hash never collides: whatever the seed, different ids have different hashes.
\<close>

lemma hash_injective: "inj (hash_of seed)"
proof (rule injI)
  have c: "(0xbf58476d1ce4e5b9 :: u64) * 0x96de1b173f119089 = 1" "(0x94d049bb133111eb :: u64) * 0x319642b2d24d8ec3 = 1"
    by simp_all
  define s :: "u64 \<Rightarrow> u64" where "s x = x + seed + 0x9e3779b97f4a7c15" for x
  define t :: "u64 \<Rightarrow> u64" where "t x = (s x XOR drop_bit 30 (s x)) * 0xbf58476d1ce4e5b9" for x
  define u :: "u64 \<Rightarrow> u64" where "u x = (t x XOR drop_bit 27 (t x)) * 0x94d049bb133111eb" for x
  fix x y assume "hash_of seed x = hash_of seed y"
  then have "u x XOR drop_bit 31 (u x) = u y XOR drop_bit 31 (u y)"
    by (simp only: hash_of_def splitmix64_def Let_def u_def t_def s_def)
  then have "u x = u y" by (rule xorshift_inject [rotated]) simp
  then have "t x XOR drop_bit 27 (t x) = t y XOR drop_bit 27 (t y)" unfolding u_def by (rule unit_inject) (rule c(2))
  then have "t x = t y" by (rule xorshift_inject [rotated]) simp
  then have "s x XOR drop_bit 30 (s x) = s y XOR drop_bit 30 (s y)" unfolding t_def by (rule unit_inject) (rule c(1))
  then have "s x = s y" by (rule xorshift_inject [rotated]) simp
  then show "x = y" by (simp add: s_def)
qed

end
