(* ===== verification/Float_Heap.thy ===== *)
theory Float_Heap
  imports Ordering
begin

text \<open>
  \<^verbatim>\<open>include/core/utils/heap.h\<close>: a binary heap in a vector with \<^verbatim>\<open>push\<close>, instantiated as \<^verbatim>\<open>min_heap\<close> and
  \<^verbatim>\<open>max_heap\<close> of floats. Both turn out to keep a greatest element at the top.
\<close>

text \<open>The comparison of floats is that of the doubles they convert to without loss.\<close>

definition fless :: "float32 \<Rightarrow> float32 \<Rightarrow> bool" where
  "fless x y \<longleftrightarrow> dless (f32_to_double x) (f32_to_double y)"

abbreviation parent :: "nat \<Rightarrow> nat" where
  "parent i \<equiv> (i - 1) div 2"

text \<open>The loop of \<^verbatim>\<open>push\<close> at index \<open>i\<close>.\<close>

function sift_up :: "('a \<Rightarrow> 'a \<Rightarrow> bool) \<Rightarrow> bool \<Rightarrow> nat \<Rightarrow> 'a list \<Rightarrow> 'a list" where
  "sift_up cmp mn i xs =
     (if i > 0 \<and> cmp (xs ! parent i) (xs ! i) = mn
      then sift_up cmp mn (parent i) (xs[i := xs ! parent i, parent i := xs ! i])
      else xs)"
  by pat_completeness auto
termination by (relation "measure (\<lambda>(cmp, mn, i, xs). i)") auto

declare sift_up.simps [simp del]

definition heap_push :: "('a \<Rightarrow> 'a \<Rightarrow> bool) \<Rightarrow> bool \<Rightarrow> 'a \<Rightarrow> 'a list \<Rightarrow> 'a list" where
  "heap_push cmp mn val heap = sift_up cmp mn (length heap) (heap @ [val])"

definition min_heap_push :: "float32 \<Rightarrow> float32 list \<Rightarrow> float32 list" where
  "min_heap_push = heap_push fless True"

definition max_heap_push :: "float32 \<Rightarrow> float32 list \<Rightarrow> float32 list" where
  "max_heap_push = heap_push (\<lambda>x y. fless y x) False"

subsection \<open>Sifting up\<close>

lemma sift_up_mset: "i < length xs \<Longrightarrow> mset (sift_up cmp mn i xs) = mset xs"
proof (induction cmp mn i xs rule: sift_up.induct)
  case (1 cmp mn i xs)
  have "mset (xs[i := xs ! parent i, parent i := xs ! i]) = mset xs"
    using 1(2) by (intro mset_swap) auto
  then show ?case using 1 by (subst sift_up.simps) auto
qed

text \<open>
  Every element is at most its parent, except for the one at \<open>i\<close>; what is below \<open>i\<close> is at most the
  parent of \<open>i\<close>.
\<close>

definition heap_but :: "('a \<Rightarrow> 'k::linorder) \<Rightarrow> nat \<Rightarrow> 'a list \<Rightarrow> bool" where
  "heap_but key i xs \<longleftrightarrow>
     (\<forall>j < length xs. 0 < j \<and> j \<noteq> i \<longrightarrow> key (xs ! j) \<le> key (xs ! parent j)) \<and>
     (\<forall>j < length xs. 0 < j \<and> 0 < i \<and> parent j = i \<longrightarrow> key (xs ! j) \<le> key (xs ! parent i))"

definition heap_ok :: "('a \<Rightarrow> 'k::linorder) \<Rightarrow> 'a list \<Rightarrow> bool" where
  "heap_ok key xs \<longleftrightarrow> (\<forall>j < length xs. 0 < j \<longrightarrow> key (xs ! j) \<le> key (xs ! parent j))"

lemma heap_but_swap:
  assumes "heap_but key i xs" "0 < i" "i < length xs" "key (xs ! parent i) \<le> key (xs ! i)"
  shows "heap_but key (parent i) (xs[i := xs ! parent i, parent i := xs ! i])"
proof -
  let ?ys = "xs[i := xs ! parent i, parent i := xs ! i]"
  have p: "parent i < i" using assms(2) by auto
  have nth: "?ys ! j = (if j = parent i then xs ! i else if j = i then xs ! parent i else xs ! j)" if "j < length xs" for j
    using that p assms(3) by (auto simp: nth_list_update)
  have h: "key (xs ! j) \<le> key (xs ! parent j)" if "j < length xs" "0 < j" "j \<noteq> i" for j
    using that assms(1) by (simp add: heap_but_def)
  have c: "key (xs ! j) \<le> key (xs ! parent i)" if "j < length xs" "0 < j" "parent j = i" for j
    using that assms(1,2) by (simp add: heap_but_def)
  have "key (?ys ! j) \<le> key (?ys ! parent j)" if j: "j < length xs" "0 < j" "j \<noteq> parent i" for j
  proof -
    have pj: "parent j < length xs" "parent j \<noteq> j" using j by auto
    consider "j = i" | "j \<noteq> i" "parent j = parent i" | "j \<noteq> i" "parent j = i" | "j \<noteq> i" "parent j \<noteq> i" "parent j \<noteq> parent i"
      by blast
    then show ?thesis
    proof cases
      case 1
      then have "?ys ! j = xs ! parent i" "?ys ! parent j = xs ! i" using nth [OF j(1)] nth [OF pj(1)] p by simp_all
      then show ?thesis using assms(4) by (simp only:)
    next
      case 2
      then have "?ys ! j = xs ! j" "?ys ! parent j = xs ! i" using nth [OF j(1)] nth [OF pj(1)] j(3) by simp_all
      moreover have "key (xs ! j) \<le> key (xs ! parent i)" using h [OF j(1,2) 2(1)] 2(2) by (simp only:)
      ultimately show ?thesis using assms(4) by (simp only:)
    next
      case 3
      then have "?ys ! j = xs ! j" "?ys ! parent j = xs ! parent i"
        using nth [OF j(1)] nth [OF pj(1)] j(3) p by simp_all
      then show ?thesis using c [OF j(1,2) 3(2)] by (simp only:)
    next
      case 4
      then have "?ys ! j = xs ! j" "?ys ! parent j = xs ! parent j" using nth [OF j(1)] nth [OF pj(1)] j(3) by simp_all
      then show ?thesis using h [OF j(1,2) 4(1)] by (simp only:)
    qed
  qed
  moreover have "key (?ys ! j) \<le> key (?ys ! parent (parent i))" if j: "j < length xs" "0 < j" "0 < parent i" "parent j = parent i" for j
  proof -
    have pp: "parent (parent i) < length xs" "parent (parent i) \<noteq> i" "parent (parent i) \<noteq> parent i" using p j(3) assms(3) by auto
    have "key (xs ! parent i) \<le> key (xs ! parent (parent i))" using h [of "parent i"] p j(3) assms(3) by auto
    moreover have "key (xs ! j) \<le> key (xs ! parent i)" if "j \<noteq> i" using h [OF j(1,2) that] j(4) by simp
    moreover have "j \<noteq> parent i" using j by auto
    ultimately show ?thesis using nth [OF j(1)] nth [OF pp(1)] pp by (auto intro: order_trans)
  qed
  ultimately show ?thesis unfolding heap_but_def length_list_update by blast
qed

lemma sift_up_heap:
  assumes "i < length xs" "heap_but key i xs"
    and "\<And>x y. x \<in> set xs \<Longrightarrow> y \<in> set xs \<Longrightarrow> cmp x y = mn \<Longrightarrow> key x \<le> key y"
    and "\<And>x y. x \<in> set xs \<Longrightarrow> y \<in> set xs \<Longrightarrow> cmp x y \<noteq> mn \<Longrightarrow> key y \<le> key x"
  shows "heap_ok key (sift_up cmp mn i xs)"
  using assms
proof (induction cmp mn i xs rule: sift_up.induct)
  case (1 cmp mn i xs)
  have m: "xs ! i \<in> set xs" "xs ! parent i \<in> set xs" using "1.prems"(1) by auto
  show ?case
  proof (cases "i > 0 \<and> cmp (xs ! parent i) (xs ! i) = mn")
    case True
    let ?ys = "xs[i := xs ! parent i, parent i := xs ! i]"
    have "mset ?ys = mset xs" using "1.prems"(1) by (intro mset_swap) auto
    then have "set ?ys = set xs" by (rule mset_eq_setD)
    moreover have "heap_but key (parent i) ?ys"
      using heap_but_swap "1.prems"(1,2) True "1.prems"(3) [OF m(2,1)] by blast
    ultimately have "heap_ok key (sift_up cmp mn (parent i) ?ys)"
      using "1.IH" [OF True] "1.prems" by auto
    then show ?thesis using True by (subst sift_up.simps) simp
  next
    case False
    have "heap_ok key xs" unfolding heap_ok_def
    proof (intro allI impI)
      fix j assume j: "j < length xs" "0 < j"
      show "key (xs ! j) \<le> key (xs ! parent j)"
        using j False "1.prems"(2) "1.prems"(4) [OF m(2,1)] by (cases "j = i") (auto simp: heap_but_def)
    qed
    then show ?thesis using False by (subst sift_up.simps) auto
  qed
qed

lemma heap_ok_top:
  assumes "heap_ok key xs" "i < length xs"
  shows "key (xs ! i) \<le> key (xs ! 0)"
  using assms(2)
proof (induction i rule: less_induct)
  case (less i)
  show ?case
  proof (cases "i = 0")
    case False
    then have "key (xs ! i) \<le> key (xs ! parent i)" using assms(1) less.prems by (simp add: heap_ok_def)
    moreover have "parent i < i" "parent i < length xs" using False less.prems by auto
    ultimately show ?thesis using less.IH [of "parent i"] by (blast intro: order_trans)
  qed simp
qed

lemma heap_push_ok:
  assumes "heap_ok key xs"
    and "\<And>x y. x \<in> set (v # xs) \<Longrightarrow> y \<in> set (v # xs) \<Longrightarrow> cmp x y = mn \<Longrightarrow> key x \<le> key y"
    and "\<And>x y. x \<in> set (v # xs) \<Longrightarrow> y \<in> set (v # xs) \<Longrightarrow> cmp x y \<noteq> mn \<Longrightarrow> key y \<le> key x"
  shows "heap_ok key (heap_push cmp mn v xs) \<and> mset (heap_push cmp mn v xs) = add_mset v (mset xs)"
proof -
  have "heap_but key (length xs) (xs @ [v])"
    using assms(1) by (auto simp: heap_but_def heap_ok_def nth_append less_Suc_eq)
  then have "heap_ok key (sift_up cmp mn (length xs) (xs @ [v]))"
    using assms(2,3) by (intro sift_up_heap) auto
  then show ?thesis using sift_up_mset [of "length xs" "xs @ [v]" cmp mn] by (simp add: heap_push_def)
qed

text \<open>Floats that are not NaN are ordered by their rank.\<close>

definition f32_key :: "float32 \<Rightarrow> int" where
  "f32_key x = rank (f32_to_double x)"

definition f32_ok :: "float32 \<Rightarrow> bool" where
  "f32_ok x \<longleftrightarrow> f32_to_double x \<noteq> NaN"

interpretation floats: keyed_order fless f32_key f32_ok
  by unfold_locales (simp add: fless_def dless_def f32_key_def f32_ok_def)

text \<open>
  Both heaps keep the greatest element at the top, whatever is pushed: the one called \<^verbatim>\<open>min_heap\<close> is a
  max-heap like the other.
\<close>

lemma both_heaps_are_max_heaps:
  assumes "list_all f32_ok (v # xs)" "heap_ok f32_key xs" "push = min_heap_push \<or> push = max_heap_push"
  shows "heap_ok f32_key (push v xs) \<and> mset (push v xs) = add_mset v (mset xs) \<and>
    (\<forall>x \<in> set (v # xs). f32_key x \<le> f32_key (hd (push v xs)))"
proof -
  have l: "fless x y \<longleftrightarrow> f32_key x < f32_key y" if "x \<in> set (v # xs)" "y \<in> set (v # xs)" for x y
    using that assms(1) by (intro floats.less_iff) (auto simp: list_all_iff)
  have h: "heap_ok f32_key (push v xs) \<and> mset (push v xs) = add_mset v (mset xs)"
    using assms(3)
  proof
    assume "push = min_heap_push"
    then show ?thesis unfolding min_heap_push_def by (simp only:) (rule heap_push_ok [OF assms(2)]; simp add: l)
  next
    assume "push = max_heap_push"
    then show ?thesis unfolding max_heap_push_def by (simp only:) (rule heap_push_ok [OF assms(2)]; simp add: l)
  qed
  then have "set (push v xs) = set (v # xs)" using mset_eq_setD [of "push v xs" "v # xs"] by simp
  moreover have "hd (push v xs) = push v xs ! 0" using calculation by (intro hd_conv_nth) auto
  ultimately show ?thesis using h heap_ok_top [of f32_key "push v xs"] by (metis in_set_conv_nth)
qed

lemma min_heap_push_1_2: "min_heap_push 0x40000000 [0x3F800000] = [0x40000000, 0x3F800000]"
  by (simp add: min_heap_push_def heap_push_def sift_up.simps fless_def fp_eval)

end
