(* ===== verification/Spec2Isabelle.thy ===== *)
theory Spec2Isabelle
  imports Db_Progress Upsert_Phases Collection_Graph Hnsw_Lost Storage_Crash Locking Handler_Race Dispatch_Life Program Logger Hash Float_Heap
begin

text \<open>
  A model of vector_db, an in-memory vector database with a gRPC front end (C++, under \<^verbatim>\<open>src/\<close>), and the
  theorems that make it correct or show where it is not.

  \<^bold>\<open>The program.\<close> A \<^verbatim>\<open>server\<close> takes calls from a gRPC completion queue; each call is a handler object that
  checks its request and submits a task to a \<^verbatim>\<open>worker_pool\<close>. The task works on the \<^verbatim>\<open>database\<close>, a map from
  names to \<^verbatim>\<open>collection\<close>s. A collection maps ids to \<^verbatim>\<open>float_vector\<close>s of one dimension and keeps indices, which
  it tells of every change: an IVF-Flat index (clusters found by k-means) or an HNSW index (a layered
  graph). A query without an index looks at every vector. Databases are saved to a directory and loaded
  from it. Settings come from a TOML file.

  \<^bold>\<open>The theories\<close>, from the bottom up; each names the files it models.
  \<^item> \<^theory_text>\<open>Prelude\<close>: machine integers, outcomes (a call returns, throws, blocks for ever, or is undefined
    behaviour), hash maps and sets as lists, and the locales \<open>simulation\<close> and \<open>total_simulation\<close> of
    a component and its abstract specification. \<^theory_text>\<open>Bytes\<close>: binary streams and the locale \<open>codec\<close> of a writer with its reader.
  \<^item> \<^theory_text>\<open>Floating\<close>, \<^theory_text>\<open>Float_Bounds\<close>: IEEE binary32 and binary64 on bit patterns, with correct rounding, and the
    bounds on rounding that the distance lemmas need.
  \<^item> \<^theory_text>\<open>Status\<close>, \<^theory_text>\<open>Float_Vector\<close>, \<^theory_text>\<open>Distance\<close>, \<^theory_text>\<open>Hash\<close>: \<^verbatim>\<open>core/status.h\<close>, \<^verbatim>\<open>utils.cpp\<close>, \<^verbatim>\<open>float_vector.cpp\<close>,
    \<^verbatim>\<open>distance.h\<close>, \<^verbatim>\<open>splitmix_hash.h\<close>.
  \<^item> \<^theory_text>\<open>Ordering\<close>: what the code uses of \<^verbatim>\<open>std::partial_sort\<close>, \<^verbatim>\<open>std::priority_queue\<close> and \<^verbatim>\<open>std::set\<close>, whose
    preconditions fail on NaN. \<^theory_text>\<open>Vec_Table\<close>: the vectors of a collection with the state of their mutex, and
    the locale \<open>vec_source\<close> of what the indices read.
  \<^item> \<^theory_text>\<open>Exact_Index\<close> (\<^verbatim>\<open>euclidean.cpp\<close>), \<^theory_text>\<open>K_Means\<close> (\<^verbatim>\<open>k_means.h\<close>), \<^theory_text>\<open>Index_Params\<close> (parameters of both indices),
    \<^theory_text>\<open>Ivf_Flat\<close> (\<^verbatim>\<open>ivfflat.cpp\<close>), \<^theory_text>\<open>Hnsw\<close>, \<^theory_text>\<open>Hnsw_Graph\<close> and \<^theory_text>\<open>Hnsw_Lost\<close> (\<^verbatim>\<open>hnsw.cpp\<close>: the operations, their
    invariants, and the nodes that no search finds).
  \<^item> \<^theory_text>\<open>Collection\<close> (\<^verbatim>\<open>collection.cpp\<close>, \<^verbatim>\<open>index.cpp\<close>), \<^theory_text>\<open>Collection_Search\<close> (searches with an IVF index after
    any changes of its collection), \<^theory_text>\<open>Collection_Graph\<close> (the same with a growing HNSW index), \<^theory_text>\<open>Upsert_Phases\<close> (upserts that overlap between
    their two phases), \<^theory_text>\<open>Truncation\<close> (reading a stream that was cut off), \<^theory_text>\<open>Database\<close> (\<^verbatim>\<open>database.cpp\<close>),
    \<^theory_text>\<open>Storage_Crash\<close> (\<^verbatim>\<open>save\<close> write by write, stopped in the middle or on a full disk), \<^theory_text>\<open>Db_Progress\<close> (when the
    operations of the database return), \<^theory_text>\<open>Locking\<close> (the mutexes that these operations take, and their interleavings).
  \<^item> \<^theory_text>\<open>Worker_Pool\<close> (\<^verbatim>\<open>worker_pool.h\<close>), \<^theory_text>\<open>Grpc_Util\<close> (\<^verbatim>\<open>grpc_server/util.h\<close>), \<^theory_text>\<open>Server\<close> (the handlers of
    \<^verbatim>\<open>server.cpp\<close> and their tasks), \<^theory_text>\<open>Rpc_Flow\<close> (the life of a handler, the streaming upsert), \<^theory_text>\<open>Handler_Race\<close>
    (the accesses of the threads to one handler), \<^theory_text>\<open>Dispatch\<close> and \<^theory_text>\<open>Dispatch_Run\<close> (all handlers with the completion
    queue, the pool and the database: steps and invariant, then histories and properties), \<^theory_text>\<open>Config\<close>
    (\<^verbatim>\<open>provider.cpp\<close>), \<^theory_text>\<open>Server_Life\<close> (settings, and calls against shutdown), \<^theory_text>\<open>Dispatch_Life\<close> (runs of the handlers
    as runs of the server of \<open>Server_Life\<close>), \<^theory_text>\<open>Program\<close> (\<^verbatim>\<open>main.cpp\<close>).
  \<^item> \<^theory_text>\<open>Logger\<close> (\<^verbatim>\<open>logger.cpp\<close>: levels, the factory and its loggers) and \<^theory_text>\<open>Float_Heap\<close> (\<^verbatim>\<open>heap.h\<close>), which nothing else uses.

  \<^bold>\<open>How state corresponds.\<close> Every class with state is a record with the fields of the code; a method that
  changes it returns the new record, in an \<open>outcome\<close> where it can throw, block or be undefined. A hash map is
  an association list with distinct keys whose order is the iteration order, so theorems over all such
  lists hold for every order. A vector is its bit patterns. Random levels of the HNSW graph and the seed
  of the hash are arguments.

  \<^bold>\<open>Threads\<close> appear at three levels. In the theories of the data an operation is one step, and the mutex of a
  collection's vectors is a field, because one thread takes it twice. \<open>Dispatch\<close> interleaves the events of the
  completion queue, the tasks of the workers and the shutdown, each one step of a relation over all handlers,
  the pool and the database; \<open>Worker_Pool\<close> and \<open>Server_Life\<close> do so for the pool and for the shutdown alone.
  \<open>Dispatch_Life\<close> links the two. \<open>Upsert_Phases\<close>, \<open>Storage_Crash\<close>, \<open>Locking\<close> and \<open>Handler_Race\<close> go below these steps: an upsert
  is two steps, a save one for each write; an operation of the database is the list of its lock operations
  and accesses, a reaction of a handler the list of its accesses to the handler object.

  \<^bold>\<open>What is shown.\<close>
  \<^item> Searching: the exhaustive search returns the \<open>k\<close> nearest vectors, in order, independently of the hash
    order; IVF with all clusters probed and HNSW on a connected graph with a wide enough search give the same;
    HNSW searches return stored vectors with true distances while vectors are only added, and its graph keeps its
    degree bounds.
  \<^item> State: adding and removing vectors refine updates of a map; building and maintaining an IVF index keep
    every vector in one cluster; k-means ends and partitions; the whole database refines an abstract map of
    collections over all runs of requests, and every run without IVF indices on finite vectors is answered;
    an IVF index with enough probes stays exact under additions and removals, and misses nothing when they overlap.
  \<^item> Storage: vectors, index parameters, collections and databases are read back as they were written; a program
    that is stopped while it saves leaves each collection in its old or its new version.
  \<^item> Calls: a failed call changes nothing, a search call is answered with the exhaustive result, a streaming
    upsert applies a prefix; the pool is a bounded queue, and the shutdown of the server ends when its queue was
    empty. In every interleaving the calls take effect one after the other and refine the abstract database,
    are answered once and with the right type, one handler of each kind waits, and open calls get answers; for
    unary calls this is the server whose shutdown is described.
  \<^item> Concurrency: which operations cannot deadlock, by an order of the mutexes (locale \<open>lock_levels\<close>), and which
    do; which members have no data races, and which do; when a handler is never used after it is freed, and
    when it is.
  \<^item> Errors: deadlock of a removal with an IVF rebuild, the loss of id 0, the stale entry point, undefined
    updates and vectors that are never found in HNSW, files that a full disk destroys,
    reads out of bounds for long queries, duplicate entries after updates, deleted collections that come back,
    answered calls that are not saved, a handler used after it is freed, tasks that never run and a shutdown
    that waits for them for ever.

  \<^bold>\<open>Bounds and recursion.\<close> There is no fuel except where the code counts rounds (k-means runs at most
  \<^verbatim>\<open>max_iterations\<close> rounds, 100 in every call, and the recursion is on that number). The work list of an HNSW
  layer search ends because a candidate is taken in every round and only unvisited ids, of which there are
  finitely many, are added; the measure is \<open>search_weight\<close>. Counts that the code stores in 32 bits are
  bounded by \<open>2 ^ 32\<close> in the round trips, and float magnitudes by the exponents of binary32.

  \<^bold>\<open>Not modelled.\<close> What is logged: \<open>Logger\<close> has the loggers, but the other theories leave their messages out, since
  nothing but output depends on them. The gRPC library, the TOML library, spdlog and the file system are arguments or described
  by their documented events; the one hypothesis about them is what \<open>idle\<close> of \<open>server_step\<close> says of
  \<^verbatim>\<open>server_->Shutdown()\<close>, stated in the theorems that use it.
  What the data of the database is when operations interleave inside is modelled for the phases of an upsert
  only: \<open>Locking\<close> says which accesses may meet, the other theories run an operation as one step. What a
  machine that fails loses of data that was handed to the operating system is left out. Declarations without
  behaviour (interfaces, includes, the singleton, the variadic getters that collect their arguments) have no
  definition of their own.
\<close>

end
